(* ===== verification/Prelude.thy ===== *)
theory Prelude
  imports Main "HOL-Library.AList" "HOL-Library.Word" "HOL-Library.Signed_Division"
    "HOL-Library.Monad_Syntax" "HOL-Library.Sublist"
begin

text \<open>
  What every component of the model shares: Go's machine integers, Go's maps, run-time
  panics, \<^verbatim>\<open>sort.Search\<close>, and the locale that lifts one-step invariants to runs.

  Conventions of the whole development:
  \<^item> a Go \<^verbatim>\<open>uint64\<close> is a \<open>64 word\<close>; a Go \<^verbatim>\<open>int\<close> is an \<open>int\<close> that every arithmetic
    operation brings back into range with \<open>go_int\<close>;
  \<^item> a Go string and a Go byte slice are both byte sequences, here \<open>string\<close>; a slice that
    may be nil is a \<open>string option\<close>;
  \<^item> a run-time panic is the result \<open>None\<close>; a Go \<^verbatim>\<open>error\<close> is an \<open>Inl\<close> inside the result;
  \<^item> a Go map is an association list with distinct keys; ranging over the map visits the
    list from left to right, and since the statements hold for every such list they hold for
    every iteration order.
\<close>

named_theorems go_simps \<open>Go primitives: panicking accesses, map accesses, bounded integers\<close>

type_synonym uint64 = "64 word"
type_synonym uint32 = "32 word"
type_synonym uint8 = "8 word"

section \<open>Machine integers\<close>

text \<open>The 64-bit two's complement value of an unbounded result.\<close>

definition go_int :: "int \<Rightarrow> int" where
  "go_int x = sint (of_int x :: uint64)"

lemma go_int_id [go_simps]: "- (2 ^ 63) \<le> x \<Longrightarrow> x < 2 ^ 63 \<Longrightarrow> go_int x = x"
  by (simp add: go_int_def signed_of_int signed_take_bit_int_eq_self_iff)

lemma sint_unat:
  assumes "unat (w :: uint64) < 2 ^ 63"
  shows "sint w = int (unat w)"
proof -
  have "int (unat w) < int (2 ^ 63)" using assms by (simp only: of_nat_less_iff)
  then have less: "uint w < 2 ^ 63" by simp
  have "- (2 ^ 63) \<le> uint w" by (rule order_trans [of _ 0]) simp_all
  with less have "signed_take_bit 63 (uint w) = uint w"
    by (rule signed_take_bit_int_eq_self [rotated])
  then show ?thesis by (simp add: sint_uint)
qed

lemma unat_plus1: "unat (w :: uint64) < 2 ^ 64 - 1 \<Longrightarrow> unat (w + 1) = Suc (unat w)"
  by (simp add: unat_word_ariths)

lemma unat_minus1: "(w :: uint64) \<noteq> 0 \<Longrightarrow> unat (w - 1) = unat w - 1"
  by (rule unat_minus_one)

section \<open>Slices\<close>

definition go_index :: "'a list \<Rightarrow> int \<Rightarrow> 'a option" where
  "go_index xs i = (if 0 \<le> i \<and> i < int (length xs) then Some (xs ! nat i) else None)"

definition go_update :: "'a list \<Rightarrow> int \<Rightarrow> 'a \<Rightarrow> 'a list option" where
  "go_update xs i v = (if 0 \<le> i \<and> i < int (length xs) then Some (xs[nat i := v]) else None)"

lemma go_index_nat [go_simps]: "i < length xs \<Longrightarrow> go_index xs (int i) = Some (xs ! i)"
  by (simp add: go_index_def)

lemma go_update_nat [go_simps]: "i < length xs \<Longrightarrow> go_update xs (int i) v = Some (xs[i := v])"
  by (simp add: go_update_def)

lemma length_go_update: "go_update xs i v = Some ys \<Longrightarrow> length ys = length xs"
  by (auto simp: go_update_def split: if_splits)

section \<open>Maps\<close>

type_synonym ('k, 'v) gomap = "('k \<times> 'v) list"

abbreviation mput :: "'k \<Rightarrow> 'v \<Rightarrow> ('k, 'v) gomap \<Rightarrow> ('k, 'v) gomap" where
  "mput \<equiv> AList.update"

abbreviation mdel :: "'k \<Rightarrow> ('k, 'v) gomap \<Rightarrow> ('k, 'v) gomap" where
  "mdel \<equiv> AList.delete"

definition mwf :: "('k, 'v) gomap \<Rightarrow> bool" where
  "mwf m \<longleftrightarrow> distinct (map fst m)"

lemma mwf_Nil [simp]: "mwf []"
  by (simp add: mwf_def)

lemma mwf_mput [simp]: "mwf m \<Longrightarrow> mwf (mput k v m)"
  by (simp add: mwf_def distinct_update)

lemma mwf_mdel [simp]: "mwf m \<Longrightarrow> mwf (mdel k m)"
  by (simp add: mwf_def distinct_delete)

lemma lookup_mput [simp]: "map_of (mput k v m) = (map_of m)(k \<mapsto> v)"
  by (rule update_conv')

lemma lookup_mdel [simp]: "map_of (mdel k m) = (map_of m)(k := None)"
  by (rule delete_conv')

lemma mwf_in_iff: "mwf m \<Longrightarrow> (k, v) \<in> set m \<longleftrightarrow> map_of m k = Some v"
  by (auto simp: mwf_def dest: map_of_SomeD)

lemma length_mwf: "mwf m \<Longrightarrow> length m = card (dom (map_of m))"
  using distinct_card [of "map fst m"] by (simp add: mwf_def dom_map_of_conv_image_fst)

text \<open>A number attached to every entry, summed up.\<close>

lemma mdel_absent: "i \<notin> fst ` set b \<Longrightarrow> mdel i b = b"
  by (force simp: AList.delete_eq filter_id_conv)

lemma mdel_mput: "mdel k (mput k v xs) = mdel k xs"
  by (induction xs) auto

lemma length_mput: "length (mput k v xs) \<le> Suc (length xs)"
  by (induction xs) auto

lemma sum_mdel:
  fixes f :: "'v \<Rightarrow> nat"
  assumes "mwf b"
  shows "sum_list (map (\<lambda>p. f (snd p)) b) =
    (case map_of b i of None \<Rightarrow> 0 | Some v \<Rightarrow> f v) + sum_list (map (\<lambda>p. f (snd p)) (mdel i b))"
  using assms
proof (induction b)
  case (Cons p b)
  then have IH: "sum_list (map (\<lambda>p. f (snd p)) b) =
      (case map_of b i of None \<Rightarrow> 0 | Some v \<Rightarrow> f v) + sum_list (map (\<lambda>p. f (snd p)) (mdel i b))"
    and fresh: "fst p \<notin> fst ` set b" by (simp_all add: mwf_def)
  show ?case
  proof (cases "fst p = i")
    case True
    then show ?thesis using fresh by (cases p) (simp add: mdel_absent)
  next
    case False
    then show ?thesis using IH by (cases p) simp
  qed
qed simp

lemma sum_mput:
  fixes f :: "'v \<Rightarrow> nat"
  assumes "mwf b"
  shows "sum_list (map (\<lambda>p. f (snd p)) (mput i v b)) + (case map_of b i of None \<Rightarrow> 0 | Some w \<Rightarrow> f w) =
    sum_list (map (\<lambda>p. f (snd p)) b) + f v"
proof -
  have "mwf (mput i v b)" using assms by simp
  from sum_mdel [OF this, of f i] sum_mdel [OF assms, of f i] show ?thesis by (simp add: mdel_mput)
qed

lemma sum_list_filter_le: "sum_list (map f (filter P xs)) \<le> (sum_list (map f xs) :: nat)"
  by (induction xs) auto

section \<open>Binary search\<close>

text \<open>
  \<^verbatim>\<open>sort.Search(n, f)\<close> of Go's standard library: \<open>i, j := 0, n\<close>, halving while \<open>i < j\<close>.
\<close>

function search_loop :: "(nat \<Rightarrow> bool) \<Rightarrow> nat \<Rightarrow> nat \<Rightarrow> nat" where
  "search_loop f i j =
     (if i < j then
        let h = (i + j) div 2
        in if \<not> f h then search_loop f (h + 1) j else search_loop f i h
      else i)"
  by pat_completeness auto
termination
  by (relation "measure (\<lambda>(f, i, j). j - i)") auto

declare search_loop.simps [simp del]

definition sort_Search :: "nat \<Rightarrow> (nat \<Rightarrow> bool) \<Rightarrow> nat" where
  "sort_Search n f = search_loop f 0 n"

lemma search_loop_split:
  assumes "i \<le> j" and mono: "\<And>x y. x \<le> y \<Longrightarrow> y < j \<Longrightarrow> f x \<Longrightarrow> f y"
  shows "i \<le> search_loop f i j \<and> search_loop f i j \<le> j
     \<and> (\<forall>x. i \<le> x \<and> x < search_loop f i j \<longrightarrow> \<not> f x)
     \<and> (\<forall>x. search_loop f i j \<le> x \<and> x < j \<longrightarrow> f x)"
  using assms
proof (induction f i j rule: search_loop.induct)
  case (1 f i j)
  show ?case
  proof (cases "i < j")
    case False
    then have "search_loop f i j = i" by (simp add: search_loop.simps [of f i j])
    with False "1.prems"(1) show ?thesis by auto
  next
    case lt: True
    let ?h = "(i + j) div 2"
    have h: "i \<le> ?h" "?h < j" using lt by auto
    show ?thesis
    proof (cases "f ?h")
      case True
      have eq: "search_loop f i j = search_loop f i ?h"
        using lt True by (simp add: search_loop.simps [of f i j] Let_def)
      have "\<And>x y. x \<le> y \<Longrightarrow> y < ?h \<Longrightarrow> f x \<Longrightarrow> f y" using "1.prems"(2) h by simp
      with "1.IH"(2) [OF lt refl] True h have
        IH: "i \<le> search_loop f i ?h" "search_loop f i ?h \<le> ?h"
          "\<forall>x. i \<le> x \<and> x < search_loop f i ?h \<longrightarrow> \<not> f x"
          "\<forall>x. search_loop f i ?h \<le> x \<and> x < ?h \<longrightarrow> f x" by simp_all
      have "\<forall>x. search_loop f i ?h \<le> x \<and> x < j \<longrightarrow> f x"
        using IH(4) "1.prems"(2) True by (meson not_le)
      with IH h show ?thesis by (simp add: eq)
    next
      case False
      have eq: "search_loop f i j = search_loop f (?h + 1) j"
        using lt False by (simp add: search_loop.simps [of f i j] Let_def)
      from "1.IH"(1) [OF lt refl] False h "1.prems"(2) have
        IH: "?h + 1 \<le> search_loop f (?h + 1) j" "search_loop f (?h + 1) j \<le> j"
          "\<forall>x. ?h + 1 \<le> x \<and> x < search_loop f (?h + 1) j \<longrightarrow> \<not> f x"
          "\<forall>x. search_loop f (?h + 1) j \<le> x \<and> x < j \<longrightarrow> f x" by simp_all
      have "\<forall>x. i \<le> x \<and> x < search_loop f (?h + 1) j \<longrightarrow> \<not> f x"
        using IH(3) "1.prems"(2) False h(2) by (metis Suc_eq_plus1 not_less_eq_eq)
      with IH h show ?thesis by (simp add: eq)
    qed
  qed
qed

text \<open>On a sorted list the search counts the elements below the bound.\<close>

lemma sort_Search_sorted:
  fixes key :: "'a \<Rightarrow> 'k::linorder"
  assumes "sorted (map key xs)"
  shows "sort_Search (length xs) (\<lambda>i. r < key (xs ! i)) = length (takeWhile (\<lambda>x. key x \<le> r) xs)"
proof -
  let ?f = "\<lambda>i. r < key (xs ! i)" and ?p = "\<lambda>x. key x \<le> r"
  let ?k = "sort_Search (length xs) ?f"
  have mono: "\<And>x y. x \<le> y \<Longrightarrow> y < length xs \<Longrightarrow> ?f x \<Longrightarrow> ?f y"
  proof -
    fix x y assume "x \<le> y" "y < length xs" "?f x"
    moreover from this have "key (xs ! x) \<le> key (xs ! y)"
      using sorted_nth_mono [OF assms, of x y] by simp
    ultimately show "?f y" by (simp add: order_less_le_trans)
  qed
  have "0 \<le> length xs" by simp
  from search_loop_split [OF this mono] have
    k: "?k \<le> length xs" and
    below: "\<forall>x. 0 \<le> x \<and> x < ?k \<longrightarrow> \<not> ?f x" and
    above: "\<forall>x. ?k \<le> x \<and> x < length xs \<longrightarrow> ?f x"
    unfolding sort_Search_def by iprover+
  have k2: "\<not> ?f x" if "x < ?k" for x using below that by simp
  have k3: "?f x" if "?k \<le> x" "x < length xs" for x using above that by simp
  have "length (takeWhile ?p xs) = ?k"
  proof (rule antisym)
    show "length (takeWhile ?p xs) \<le> ?k"
    proof (rule ccontr)
      assume "\<not> ?thesis"
      then have "?k < length (takeWhile ?p xs)" by simp
      then have lt: "?k < length (takeWhile ?p xs)" by simp
      then have "takeWhile ?p xs ! ?k \<in> set (takeWhile ?p xs)" by (rule nth_mem)
      then have "?p (takeWhile ?p xs ! ?k)" by (blast dest: set_takeWhileD)
      with lt have "?p (xs ! ?k)" by (simp add: takeWhile_nth)
      moreover have "?k < length xs" using lt length_takeWhile_le order_less_le_trans by blast
      ultimately show False using k3 [of ?k] by (simp add: not_le)
    qed
    show "?k \<le> length (takeWhile ?p xs)"
    proof (rule ccontr)
      assume "\<not> ?thesis"
      then have lt: "length (takeWhile ?p xs) < ?k" by simp
      with k have "\<not> ?p (xs ! length (takeWhile ?p xs))"
        by (intro nth_length_takeWhile) simp
      with k2 [OF lt] show False by (simp add: not_le)
    qed
  qed
  then show ?thesis by simp
qed

section \<open>Decimal numbers and separated strings\<close>

text \<open>\<^verbatim>\<open>strconv.Itoa\<close>, \<^verbatim>\<open>strconv.Atoi\<close> and \<^verbatim>\<open>strings.SplitN\<close> with a one-byte separator.\<close>

definition digit_char :: "nat \<Rightarrow> char" where
  "digit_char d = char_of (48 + d)"

fun decimal :: "nat \<Rightarrow> string" where
  "decimal n = (if n < 10 then [digit_char n] else decimal (n div 10) @ [digit_char (n mod 10)])"

declare decimal.simps [simp del]

fun decimal_value :: "nat \<Rightarrow> string \<Rightarrow> nat option" where
  "decimal_value acc [] = Some acc"
| "decimal_value acc (c # cs) =
     (if 48 \<le> (of_char c :: nat) \<and> (of_char c :: nat) \<le> 57
      then decimal_value (10 * acc + (of_char c - 48)) cs else None)"

definition Itoa :: "int \<Rightarrow> string" where
  "Itoa x = (if x < 0 then CHR ''-'' # decimal (nat (- x)) else decimal (nat x))"

definition in_int64 :: "int \<Rightarrow> bool" where
  "in_int64 x \<longleftrightarrow> - (2 ^ 63) \<le> x \<and> x < 2 ^ 63"

definition Atoi :: "string \<Rightarrow> int option" where
  "Atoi s =
     (let (neg, ds) = (case s of [] \<Rightarrow> (False, [])
        | c # cs \<Rightarrow> if c = CHR ''-'' then (True, cs) else if c = CHR ''+'' then (False, cs) else (False, s))
      in if ds = [] then None else
         (case decimal_value 0 ds of None \<Rightarrow> None
          | Some n \<Rightarrow> let x = (if neg then - int n else int n) in if in_int64 x then Some x else None))"

lemma of_char_digit_char: "d < 10 \<Longrightarrow> (of_char (digit_char d) :: nat) = 48 + d"
  by (simp add: digit_char_def)

lemma decimal_value_append:
  "decimal_value acc (xs @ ys) =
     (case decimal_value acc xs of None \<Rightarrow> None | Some a \<Rightarrow> decimal_value a ys)"
  by (induction xs arbitrary: acc) auto

lemma decimal_value_decimal: "decimal_value 0 (decimal n) = Some n"
proof (induction n rule: decimal.induct)
  case (1 n)
  show ?case
  proof (cases "n < 10")
    case True
    then show ?thesis by (simp add: decimal.simps [of n] of_char_digit_char)
  next
    case False
    with "1.IH" show ?thesis
      by (simp add: decimal.simps [of n] decimal_value_append of_char_digit_char)
  qed
qed

lemma decimal_neq_Nil [simp]: "decimal n \<noteq> []"
  by (subst decimal.simps) simp

lemma set_decimal: "c \<in> set (decimal n) \<Longrightarrow> 48 \<le> (of_char c :: nat) \<and> (of_char c :: nat) \<le> 57"
proof (induction n rule: decimal.induct)
  case (1 n)
  have "n mod 10 < 10" by simp
  with 1 show ?case
    by (cases "n < 10") (auto simp: decimal.simps [of n] of_char_digit_char)
qed

lemma Atoi_Itoa:
  assumes "0 \<le> x" and "x < 2 ^ 63"
  shows "Atoi (Itoa x) = Some x"
proof -
  obtain c cs where eq: "decimal (nat x) = c # cs" by (cases "decimal (nat x)") auto
  then have "48 \<le> (of_char c :: nat)" using set_decimal [of c "nat x"] by simp
  then have "c \<noteq> CHR ''-''" "c \<noteq> CHR ''+''" by auto
  with assms eq show ?thesis
    using decimal_value_decimal [of "nat x"]
    by (simp add: Atoi_def Itoa_def in_int64_def del: decimal_value.simps)
qed

text \<open>\<^verbatim>\<open>strconv.ParseUint(s, 10, 64)\<close>: digits only, and no overflow.\<close>

definition ParseUint :: "string \<Rightarrow> uint64 option" where
  "ParseUint s =
     (if s = [] then None
      else (case decimal_value 0 s of None \<Rightarrow> None
            | Some n \<Rightarrow> if n < 2 ^ 64 then Some (of_nat n) else None))"

lemma ParseUint_decimal: "n < 2 ^ 64 \<Longrightarrow> ParseUint (decimal n) = Some (of_nat n)"
  by (simp add: ParseUint_def decimal_value_decimal)

text \<open>\<^verbatim>\<open>strings.TrimPrefix\<close>.\<close>

definition TrimPrefix :: "string \<Rightarrow> string \<Rightarrow> string" where
  "TrimPrefix s p = (if prefix p s then drop (length p) s else s)"

lemma TrimPrefix_append [simp]: "TrimPrefix (p @ s) p = s"
  by (simp add: TrimPrefix_def)

fun SplitN :: "char \<Rightarrow> nat \<Rightarrow> string \<Rightarrow> string list" where
  "SplitN sep 0 s = []"
| "SplitN sep (Suc 0) s = [s]"
| "SplitN sep (Suc (Suc n)) s =
     (if sep \<in> set s
      then takeWhile (\<lambda>c. c \<noteq> sep) s # SplitN sep (Suc n) (tl (dropWhile (\<lambda>c. c \<noteq> sep) s))
      else [s])"

lemma SplitN_field:
  "sep \<notin> set xs \<Longrightarrow> SplitN sep (Suc (Suc n)) (xs @ sep # ys) = xs # SplitN sep (Suc n) ys"
proof -
  assume "sep \<notin> set xs"
  then have "takeWhile (\<lambda>c. c \<noteq> sep) (xs @ sep # ys) = xs"
    and "dropWhile (\<lambda>c. c \<noteq> sep) (xs @ sep # ys) = sep # ys"
    by (induction xs) auto
  then show ?thesis by simp
qed

section \<open>Runs and invariants\<close>

locale invariant_system =
  fixes start :: "'s \<Rightarrow> bool"
    and step :: "'s \<Rightarrow> 's \<Rightarrow> bool"
    and inv :: "'s \<Rightarrow> bool"
  assumes start_inv: "start s \<Longrightarrow> inv s"
    and step_inv: "inv s \<Longrightarrow> step s t \<Longrightarrow> inv t"
begin

lemma run_inv: "step\<^sup>*\<^sup>* s t \<Longrightarrow> inv s \<Longrightarrow> inv t"
  by (induction rule: rtranclp_induct) (auto intro: step_inv)

lemma reachable_inv: "start s \<Longrightarrow> step\<^sup>*\<^sup>* s t \<Longrightarrow> inv t"
  by (blast intro: run_inv start_inv)

end

end
