(* ===== verification/Model.thy ===== *)
theory Model
  imports Prelude
begin

text \<open>
  The data types of \<^verbatim>\<open>internal/model\<close> and their small functions: revisions, events, leases,
  lock requests, roles and sessions. Go's enumerations are \<^verbatim>\<open>uint8\<close> constants that start at
  \<^verbatim>\<open>iota + 1\<close>; the zero value each of them has in a fresh struct is a constructor of its own
  here. A time is a number of nanoseconds on one time line, a duration a number of nanoseconds.
\<close>

section \<open>Revisions, keys, events\<close>

type_synonym Revision = uint64
type_synonym Key = string
type_synonym Value = "string option"
type_synonym Time = int
type_synonym Duration = int

text \<open>\<^verbatim>\<open>Time.Sub\<close> saturates at the largest and the smallest duration.\<close>

definition saturate :: "int \<Rightarrow> Duration" where
  "saturate d = max (- (2 ^ 63)) (min (2 ^ 63 - 1) d)"

datatype EventType = EventUnset | EventPut | EventDelete

fun EventType_String :: "EventType \<Rightarrow> string" where
  "EventType_String EventPut = ''put''"
| "EventType_String EventDelete = ''delete''"
| "EventType_String _ = ''unknown''"

record Event =
  ev_Type :: EventType
  ev_Key :: Key
  ev_Value :: Value
  ev_Rev :: Revision

record VersionedValue =
  vv_Value :: Value
  vv_Rev :: Revision
  vv_Deleted :: bool

text \<open>\<^verbatim>\<open>make\<close> and \<^verbatim>\<open>copy\<close> give a slice with the same bytes; a nil slice stays nil.\<close>

definition CloneValue :: "Value \<Rightarrow> Value" where
  "CloneValue value = (case value of None \<Rightarrow> None | Some bytes \<Rightarrow> Some (take (length bytes) bytes))"

lemma CloneValue_id [simp]: "CloneValue value = value"
  by (simp add: CloneValue_def split: option.split)

definition NewPut :: "Key \<Rightarrow> Value \<Rightarrow> Revision \<Rightarrow> Event" where
  "NewPut key value rv =
     \<lparr>ev_Type = EventPut, ev_Key = key, ev_Value = CloneValue value, ev_Rev = rv\<rparr>"

definition NewDelete :: "Key \<Rightarrow> Revision \<Rightarrow> Event" where
  "NewDelete key rv = \<lparr>ev_Type = EventDelete, ev_Key = key, ev_Value = None, ev_Rev = rv\<rparr>"

text \<open>The zero \<^verbatim>\<open>Event\<close> with which the slots of a fresh change log are filled.\<close>

definition zeroEvent :: Event where
  "zeroEvent = \<lparr>ev_Type = EventUnset, ev_Key = [], ev_Value = None, ev_Rev = 0\<rparr>"

definition Match :: "Event \<Rightarrow> Key \<Rightarrow> bool" where
  "Match e key \<longleftrightarrow> key = [] \<or> ev_Key e = key"

record WatchEvent =
  we_Event :: Event
  we_Cursor :: Revision

definition WatchEventFor :: "Event \<Rightarrow> Revision \<Rightarrow> WatchEvent" where
  "WatchEventFor event cursor = \<lparr>we_Event = event, we_Cursor = cursor\<rparr>"

lemma NewPut_sel [simp]:
  "ev_Type (NewPut k v r) = EventPut" "ev_Key (NewPut k v r) = k"
  "ev_Value (NewPut k v r) = v" "ev_Rev (NewPut k v r) = r"
  by (simp_all add: NewPut_def)

lemma NewDelete_sel [simp]:
  "ev_Type (NewDelete k r) = EventDelete" "ev_Key (NewDelete k r) = k"
  "ev_Value (NewDelete k r) = None" "ev_Rev (NewDelete k r) = r"
  by (simp_all add: NewDelete_def)

section \<open>Leases, locks, sessions\<close>

type_synonym LeaseID = string
type_synonym LockID = string
type_synonym SessionID = string
type_synonym WatchID = string

datatype LeaseState = LeaseUnset | LeaseAlive | LeaseExpired | LeaseRevoked

fun LeaseState_String :: "LeaseState \<Rightarrow> string" where
  "LeaseState_String LeaseAlive = ''alive''"
| "LeaseState_String LeaseExpired = ''expired''"
| "LeaseState_String LeaseRevoked = ''revoked''"
| "LeaseState_String _ = ''unknown''"

record Lease =
  l_ID :: LeaseID
  l_TTL :: Duration
  l_ExpiresAt :: Time
  l_RenewSeq :: uint64
  l_Holder :: string
  l_State :: LeaseState

text \<open>
  \<^verbatim>\<open>GetLockState\<close> converts an arbitrary integer into a \<^verbatim>\<open>LockState\<close>, so the type has, next to
  the named constants, every other byte value.
\<close>

datatype LockState =
  LockWaiting | LockGranted | LockHeld | LockReleasing | LockCancelled | LockOther uint8

fun LockState_String :: "LockState \<Rightarrow> string" where
  "LockState_String LockWaiting = ''waiting''"
| "LockState_String LockGranted = ''granted''"
| "LockState_String LockHeld = ''held''"
| "LockState_String LockReleasing = ''releasing''"
| "LockState_String LockCancelled = ''cancelled''"
| "LockState_String _ = ''unknown''"

fun byte_of_LockState :: "LockState \<Rightarrow> uint8" where
  "byte_of_LockState LockWaiting = 1"
| "byte_of_LockState LockGranted = 2"
| "byte_of_LockState LockHeld = 3"
| "byte_of_LockState LockReleasing = 4"
| "byte_of_LockState LockCancelled = 5"
| "byte_of_LockState (LockOther b) = b"

definition LockState_of_byte :: "uint8 \<Rightarrow> LockState" where
  "LockState_of_byte b =
     (if b = 1 then LockWaiting else if b = 2 then LockGranted else if b = 3 then LockHeld
      else if b = 4 then LockReleasing else if b = 5 then LockCancelled else LockOther b)"

definition named_LockState :: "LockState \<Rightarrow> bool" where
  "named_LockState s \<longleftrightarrow> s \<in> {LockWaiting, LockGranted, LockHeld, LockReleasing, LockCancelled}"

lemma byte_of_LockState_of_byte [simp]: "byte_of_LockState (LockState_of_byte b) = b"
  by (simp add: LockState_of_byte_def)

lemma LockState_of_byte_of: "named_LockState s \<Longrightarrow> LockState_of_byte (byte_of_LockState s) = s"
  by (auto simp: named_LockState_def LockState_of_byte_def)

record LockRequest =
  rq_ID :: LockID
  rq_Client :: string
  rq_LeaseID :: LeaseID
  rq_Seq :: uint64
  rq_State :: LockState

datatype SessionState = SessionUnset | SessionConnected | SessionDisconnected | SessionClosed

fun SessionState_String :: "SessionState \<Rightarrow> string" where
  "SessionState_String SessionConnected = ''connected''"
| "SessionState_String SessionDisconnected = ''disconnected''"
| "SessionState_String SessionClosed = ''closed''"
| "SessionState_String _ = ''unknown''"

section \<open>Election roles\<close>

type_synonym Term = uint64

datatype Role = RoleUnset | RoleFollower | RoleCandidate | RoleLeader | RoleResigned

fun Role_String :: "Role \<Rightarrow> string" where
  "Role_String RoleFollower = ''follower''"
| "Role_String RoleCandidate = ''candidate''"
| "Role_String RoleLeader = ''leader''"
| "Role_String RoleResigned = ''resigned''"
| "Role_String _ = ''unknown''"

text \<open>Roles can be enumerated, so that statements about all roles evaluate.\<close>

instantiation Role :: enum
begin

definition "enum_Role = [RoleUnset, RoleFollower, RoleCandidate, RoleLeader, RoleResigned]"

definition "enum_all_Role P \<longleftrightarrow>
  P RoleUnset \<and> P RoleFollower \<and> P RoleCandidate \<and> P RoleLeader \<and> P RoleResigned"

definition "enum_ex_Role P \<longleftrightarrow>
  P RoleUnset \<or> P RoleFollower \<or> P RoleCandidate \<or> P RoleLeader \<or> P RoleResigned"

instance proof
  show "(UNIV :: Role set) = set enum_class.enum"
    by (auto simp: enum_Role_def intro: Role.exhaust)
  show "distinct (enum_class.enum :: Role list)"
    by (simp add: enum_Role_def)
  show "enum_class.enum_all P \<longleftrightarrow> Ball UNIV P" for P :: "Role \<Rightarrow> bool"
    unfolding enum_all_Role_def by (auto intro: Role.induct)
  show "enum_class.enum_ex P \<longleftrightarrow> Bex UNIV P" for P :: "Role \<Rightarrow> bool"
    unfolding enum_ex_Role_def by (metis Role.exhaust UNIV_I)
qed

end

fun CanVote :: "Role \<Rightarrow> bool" where
  "CanVote RoleFollower = True"
| "CanVote RoleCandidate = True"
| "CanVote RoleResigned = True"
| "CanVote _ = False"

definition CanLead :: "Role \<Rightarrow> bool" where
  "CanLead role \<longleftrightarrow> role = RoleLeader"

fun Transition :: "Role \<Rightarrow> Role \<Rightarrow> Role \<times> bool" where
  "Transition RoleFollower to =
     (if to = RoleCandidate \<or> to = RoleLeader \<or> to = RoleResigned then (to, True)
      else (RoleFollower, False))"
| "Transition RoleCandidate to =
     (if to = RoleLeader \<or> to = RoleFollower \<or> to = RoleResigned then (to, True)
      else (RoleCandidate, False))"
| "Transition RoleLeader to =
     (if to = RoleFollower \<or> to = RoleResigned then (to, True) else (RoleLeader, False))"
| "Transition RoleResigned to =
     (if to = RoleFollower \<or> to = RoleCandidate then (to, True) else (RoleResigned, False))"
| "Transition RoleUnset to = (RoleUnset, False)"

text \<open>A refused change leaves the role as it was; an accepted one is a real change of role.\<close>

lemma Transition_result:
  "fst (Transition from to) = (if snd (Transition from to) then to else from)"
  by (cases "(from, to)" rule: Transition.cases) auto

lemma Transition_irrefl: "\<not> snd (Transition r r)"
  by (cases r) auto

end
