(* ===== verification/Store.thy ===== *)
theory Store
  imports Model
begin

text \<open>
  The MVCC key-value store of \<^verbatim>\<open>internal/store\<close>: \<^verbatim>\<open>store.go\<close>, \<^verbatim>\<open>mvcc.go\<close>, \<^verbatim>\<open>reclaim.go\<close> and
  \<^verbatim>\<open>snapshot.go\<close>. Every operation runs under the store's mutex, so each is one function from
  store to store. Streams are shared between the store and their subscribers: the objects live
  in \<open>streamHeap\<close> under their id, and \<open>streams\<close> lists the ids still registered.
\<close>

section \<open>State\<close>

datatype StoreError = ErrVersionReclaimed | ErrKeyMissing | ErrNilValue

record version =
  ver_rev :: Revision
  ver_value :: Value
  ver_deleted :: bool

record Reader =
  rd_id :: uint64
  rd_rev :: Revision
  rd_minRev :: Revision
  rd_closed :: bool

record Stream =
  st_ID :: uint64
  st_Snapshot :: "(Key, VersionedValue) gomap"
  st_Start :: Revision
  st_Ch :: "Event list"
  st_ChClosed :: bool
  st_closed :: bool

record Store =
  records :: "(Key, version list) gomap"
  head :: Revision
  clog :: "Event list"
  logStart :: Revision
  logSize :: int
  logCap :: int
  readers :: "(uint64, Reader) gomap"
  nextReader :: uint64
  streams :: "uint64 list"
  streamHeap :: "(uint64, Stream) gomap"
  nextStream :: uint64

definition New :: "int \<Rightarrow> Store" where
  "New logCapacity =
     (let cap = (if logCapacity < 16 then 16 else logCapacity)
      in \<lparr>records = [], head = 0, clog = replicate (nat cap) zeroEvent, logStart = 0, logSize = 0,
          logCap = cap, readers = [], nextReader = 0, streams = [], streamHeap = [],
          nextStream = 0\<rparr>)"

section \<open>The change log\<close>

text \<open>
  \<^verbatim>\<open>int(ev.Rev-1) % s.logCap\<close>: the conversion to \<^verbatim>\<open>int\<close> is signed and \<open>%\<close> truncates, so a
  revision above \<open>2 ^ 63\<close> gives a negative index, at which the slice access panics.
\<close>

definition log_index :: "Store \<Rightarrow> Revision \<Rightarrow> int" where
  "log_index s rv = sint (rv - 1) smod logCap s"

definition appendLogLocked :: "Store \<Rightarrow> Event \<Rightarrow> Store option" where
  "appendLogLocked s ev =
     (let idx = log_index s (ev_Rev ev);
          s1 = (if logSize s = logCap s
                then s\<lparr>logStart := logStart s + 1, logSize := go_int (logSize s - 1)\<rparr> else s)
      in do {
        log' \<leftarrow> go_update (clog s1) idx ev;
        Some (s1\<lparr>clog := log', logSize := go_int (logSize s1 + 1)\<rparr>)
      })"

text \<open>The loop \<^verbatim>\<open>for rev := first; rev <= s.head; rev++\<close>, with the number of rounds counted.\<close>

fun log_scan :: "Store \<Rightarrow> Revision \<Rightarrow> nat \<Rightarrow> Event list option" where
  "log_scan s rv 0 = Some []"
| "log_scan s rv (Suc n) = do {
     ev \<leftarrow> go_index (clog s) (log_index s rv);
     out \<leftarrow> log_scan s (rv + 1) n;
     Some (if ev_Rev ev = rv then ev # out else out)
   }"

definition logEventsLocked :: "Store \<Rightarrow> Revision \<Rightarrow> Event list option" where
  "logEventsLocked s after =
     (if logSize s = 0 \<or> head s \<le> after then Some []
      else let first = (if logStart s \<le> after then after + 1 else logStart s)
           in log_scan s first (Suc (unat (head s)) - unat first))"

section \<open>Streams\<close>

definition streamBuffer :: nat where "streamBuffer = 512"

definition set_stream :: "Store \<Rightarrow> uint64 \<Rightarrow> Stream \<Rightarrow> Store" where
  "set_stream s i st = s\<lparr>streamHeap := mput i st (streamHeap s)\<rparr>"

definition unregister :: "Store \<Rightarrow> uint64 \<Rightarrow> Store" where
  "unregister s i = s\<lparr>streams := filter (\<lambda>j. j \<noteq> i) (streams s)\<rparr>"

definition closeLocked :: "Stream \<Rightarrow> Stream" where
  "closeLocked st = (if \<not> st_closed st then st\<lparr>st_closed := True\<rparr> else st)"

text \<open>
  \<^verbatim>\<open>select { case stream.Ch <- ev: default: ... }\<close>: \<open>Some True\<close> when the event was buffered,
  \<open>Some False\<close> when the buffer is full, a panic when the channel is closed.
\<close>

definition try_send :: "Stream \<Rightarrow> Event \<Rightarrow> (Stream \<times> bool) option" where
  "try_send st ev =
     (if st_ChClosed st then None
      else if length (st_Ch st) < streamBuffer then Some (st\<lparr>st_Ch := st_Ch st @ [ev]\<rparr>, True)
      else Some (st, False))"

fun broadcast_to :: "uint64 list \<Rightarrow> Event \<Rightarrow> Store \<Rightarrow> Store option" where
  "broadcast_to [] ev s = Some s"
| "broadcast_to (i # is) ev s = do {
     st \<leftarrow> map_of (streamHeap s) i;
     if ev_Rev ev \<le> st_Start st then broadcast_to is ev s
     else do {
       (st', sent) \<leftarrow> try_send st ev;
       broadcast_to is ev
         (if sent then set_stream s i st' else unregister (set_stream s i (closeLocked st')) i)
     }
   }"

definition broadcastLocked :: "Store \<Rightarrow> Event \<Rightarrow> Store option" where
  "broadcastLocked s ev = broadcast_to (streams s) ev s"

section \<open>Put, Delete, Get\<close>

definition recordForLocked :: "Store \<Rightarrow> Key \<Rightarrow> Store \<times> version list" where
  "recordForLocked s key =
     (case map_of (records s) key of
        Some vs \<Rightarrow> (s, vs)
      | None \<Rightarrow> (s\<lparr>records := mput key [] (records s)\<rparr>, []))"

definition append_version :: "Store \<Rightarrow> Key \<Rightarrow> version \<Rightarrow> Store" where
  "append_version s key v =
     (let (s1, vs) = recordForLocked s key in s1\<lparr>records := mput key (vs @ [v]) (records s1)\<rparr>)"

definition Put :: "Store \<Rightarrow> Key \<Rightarrow> Value \<Rightarrow> (Store \<times> (StoreError + Revision)) option" where
  "Put s key value =
     (if value = None then Some (s, Inl ErrNilValue)
      else
        let s1 = s\<lparr>head := head s + 1\<rparr>;
            s2 = append_version s1 key
                   \<lparr>ver_rev = head s1, ver_value = CloneValue value, ver_deleted = False\<rparr>;
            ev = NewPut key value (head s2)
        in do {
          s3 \<leftarrow> appendLogLocked s2 ev;
          s4 \<leftarrow> broadcastLocked s3 ev;
          Some (s4, Inr (head s4))
        })"

definition Delete :: "Store \<Rightarrow> Key \<Rightarrow> (Store \<times> (StoreError + Revision)) option" where
  "Delete s key =
     (let s1 = s\<lparr>head := head s + 1\<rparr>;
          s2 = append_version s1 key
                 \<lparr>ver_rev = head s1, ver_value = None, ver_deleted = True\<rparr>;
          ev = NewDelete key (head s2)
      in do {
        s3 \<leftarrow> appendLogLocked s2 ev;
        s4 \<leftarrow> broadcastLocked s3 ev;
        Some (s4, Inr (head s4))
      })"

definition Get :: "Store \<Rightarrow> Key \<Rightarrow> (Value \<times> Revision) option" where
  "Get s key =
     (case map_of (records s) key of
        None \<Rightarrow> None
      | Some vs \<Rightarrow>
          if length vs = 0 then None
          else let latest = vs ! (length vs - 1)
               in if ver_deleted latest then None
                  else Some (CloneValue (ver_value latest), ver_rev latest))"

definition CurrentRev :: "Store \<Rightarrow> Revision" where
  "CurrentRev s = head s"

section \<open>Readers\<close>

definition BeginRead :: "Store \<Rightarrow> Revision \<Rightarrow> Store \<times> (StoreError + Reader)" where
  "BeginRead s rv =
     (if head s < rv then (s, Inl ErrVersionReclaimed)
      else let i = nextReader s + 1;
               r = \<lparr>rd_id = i, rd_rev = rv, rd_minRev = rv, rd_closed = False\<rparr>
           in (s\<lparr>nextReader := i, readers := mput i r (readers s)\<rparr>, Inr r))"

text \<open>The index of the first version above a revision, found by binary search.\<close>

definition version_search :: "version list \<Rightarrow> Revision \<Rightarrow> nat" where
  "version_search vs rv = sort_Search (length vs) (\<lambda>i. rv < ver_rev (vs ! i))"

definition GetAt :: "Reader \<Rightarrow> Store \<Rightarrow> Key \<Rightarrow> StoreError + VersionedValue" where
  "GetAt r s key =
     (if rd_closed r then Inl ErrVersionReclaimed
      else case map_of (records s) key of
        None \<Rightarrow> Inl ErrKeyMissing
      | Some vs \<Rightarrow>
          let idx = version_search vs (rd_rev r)
          in if idx = 0 then Inl ErrKeyMissing
             else let v = vs ! (idx - 1)
                  in if ver_rev v < rd_minRev r then Inl ErrVersionReclaimed
                     else if ver_deleted v
                     then Inr \<lparr>vv_Value = None, vv_Rev = ver_rev v, vv_Deleted = True\<rparr>
                     else Inr \<lparr>vv_Value = CloneValue (ver_value v), vv_Rev = ver_rev v,
                               vv_Deleted = False\<rparr>)"

definition Reader_Close :: "Reader \<Rightarrow> Store \<Rightarrow> Reader \<times> Store" where
  "Reader_Close r s = (r\<lparr>rd_closed := True\<rparr>, s\<lparr>readers := mdel (rd_id r) (readers s)\<rparr>)"

section \<open>Reclaiming versions\<close>

definition minActiveRevLocked :: "Store \<Rightarrow> Revision" where
  "minActiveRevLocked s =
     foldl (\<lambda>floor (i, r). if rd_rev r < floor then rd_rev r else floor) (head s) (readers s)"

text \<open>
  The inner loop over one key's versions: the kept ones and the number removed. The last
  index of the slice is the element with an empty rest.
\<close>

fun reclaim_versions :: "Revision \<Rightarrow> Revision \<Rightarrow> version list \<Rightarrow> version list \<times> int" where
  "reclaim_versions upto_rev floor [] = ([], 0)"
| "reclaim_versions upto_rev floor (v # vs) =
     (let (kept, removed) = reclaim_versions upto_rev floor vs
      in if upto_rev < ver_rev v then (v # kept, removed)
         else if floor \<le> ver_rev v then (v # kept, removed)
         else if vs = [] then (v # kept, removed)
         else (kept, removed + 1))"

fun reclaim_records ::
  "Revision \<Rightarrow> Revision \<Rightarrow> (Key, version list) gomap \<Rightarrow> (Key, version list) gomap \<times> int" where
  "reclaim_records upto_rev floor [] = ([], 0)"
| "reclaim_records upto_rev floor ((key, vs) # rest) =
     (let (kept, n) = reclaim_versions upto_rev floor vs;
          (rest', removed) = reclaim_records upto_rev floor rest
      in (if kept = [] then rest' else (key, kept) # rest', n + removed))"

definition reclaim_log :: "Store \<Rightarrow> Revision \<Rightarrow> Store" where
  "reclaim_log s upto_rev =
     (if 0 < logSize s \<and> logStart s \<le> upto_rev then
        let drop0 = upto_rev - logStart s + 1;
            drop1 = (if logSize s < sint drop0 then of_int (logSize s) else drop0)
        in s\<lparr>logStart := logStart s + drop1, logSize := go_int (logSize s - sint drop1)\<rparr>
      else s)"

definition Reclaim :: "Store \<Rightarrow> Revision \<Rightarrow> Store \<times> int" where
  "Reclaim s upto_rev =
     (let s1 = reclaim_log s upto_rev;
          floor = minActiveRevLocked s1;
          (recs, removed) = reclaim_records upto_rev floor (records s1)
      in (s1\<lparr>records := recs\<rparr>, removed))"

section \<open>Snapshots and streams\<close>

text \<open>One row of a snapshot: the newest version at or below the revision, if there is one.\<close>

definition snapshot_row :: "Revision \<Rightarrow> version list \<Rightarrow> VersionedValue option" where
  "snapshot_row rv vs =
     (if length vs = 0 then None
      else let idx = version_search vs rv
           in if idx = 0 then None
              else let v = vs ! (idx - 1)
                   in Some \<lparr>vv_Value = (if ver_deleted v then None else CloneValue (ver_value v)),
                            vv_Rev = ver_rev v, vv_Deleted = ver_deleted v\<rparr>)"

fun snapshot_rows ::
  "Revision \<Rightarrow> (Key, version list) gomap \<Rightarrow> (Key, VersionedValue) gomap" where
  "snapshot_rows rv [] = []"
| "snapshot_rows rv ((key, vs) # rest) =
     (case snapshot_row rv vs of
        None \<Rightarrow> snapshot_rows rv rest
      | Some vv \<Rightarrow> (key, vv) # snapshot_rows rv rest)"

definition snapshotLocked :: "Store \<Rightarrow> Revision \<Rightarrow> (Key, VersionedValue) gomap" where
  "snapshotLocked s rv =
     (let rv' = (if head s < rv then head s else rv) in snapshot_rows rv' (records s))"

definition Snapshot :: "Store \<Rightarrow> Revision \<Rightarrow> (Key, VersionedValue) gomap" where
  "Snapshot s rv = snapshotLocked s rv"

definition newStreamLocked :: "Store \<Rightarrow> Revision \<Rightarrow> Store \<times> uint64" where
  "newStreamLocked s start =
     (let i = nextStream s + 1;
          st = \<lparr>st_ID = i, st_Snapshot = snapshotLocked s start, st_Start = start, st_Ch = [],
                st_ChClosed = False, st_closed = False\<rparr>
      in (s\<lparr>nextStream := i, streamHeap := mput i st (streamHeap s),
            streams := filter (\<lambda>j. j \<noteq> i) (streams s) @ [i]\<rparr>, i))"

fun replay :: "Store \<Rightarrow> uint64 \<Rightarrow> Event list \<Rightarrow> (Store \<times> (StoreError + uint64)) option" where
  "replay s i [] = Some (s, Inr i)"
| "replay s i (ev # evs) = do {
     st \<leftarrow> map_of (streamHeap s) i;
     (st', sent) \<leftarrow> try_send st ev;
     if sent then replay (set_stream s i st') i evs
     else Some (unregister (set_stream s i (closeLocked st')) i, Inl ErrVersionReclaimed)
   }"

definition OpenStream :: "Store \<Rightarrow> Revision \<Rightarrow> (Store \<times> (StoreError + uint64)) option" where
  "OpenStream s rv =
     (if head s < rv then Some (s, Inl ErrVersionReclaimed)
      else
        let start = (if 0 < logSize s \<and> rv + 1 < logStart s then logStart s - 1 else rv);
            (s1, i) = newStreamLocked s start
        in do {
          evs \<leftarrow> logEventsLocked s1 start;
          replay s1 i evs
        })"

definition OpenLiveStream :: "Store \<Rightarrow> Store \<times> uint64" where
  "OpenLiveStream s = newStreamLocked s (head s)"

definition Stream_Close :: "Store \<Rightarrow> uint64 \<Rightarrow> Store option" where
  "Stream_Close s i = do {
     st \<leftarrow> map_of (streamHeap s) i;
     if st_closed st then Some s
     else let s1 = set_stream s i (st\<lparr>st_closed := True\<rparr>)
          in if i \<in> set (streams s1)
             then if st_ChClosed st then None
                  else Some (set_stream (unregister s1 i) i (st\<lparr>st_closed := True, st_ChClosed := True\<rparr>))
             else Some s1
   }"

text \<open>Receiving from \<^verbatim>\<open>stream.Ch\<close>: buffered events first, also after the channel is closed.\<close>

datatype recv = Received Event | ChannelClosed | WouldBlock

definition stream_recv :: "Store \<Rightarrow> uint64 \<Rightarrow> (Store \<times> recv) option" where
  "stream_recv s i = do {
     st \<leftarrow> map_of (streamHeap s) i;
     case st_Ch st of
       ev # evs \<Rightarrow> Some (set_stream s i (st\<lparr>st_Ch := evs\<rparr>), Received ev)
     | [] \<Rightarrow> Some (s, if st_ChClosed st then ChannelClosed else WouldBlock)
   }"

definition ShardCount :: "Store \<Rightarrow> nat" where
  "ShardCount s = (if length (records s) = 0 then 1 else 4)"

section \<open>Lock states in the store\<close>

record LockStateRecord =
  ls_ID :: LockID
  ls_Holder :: string
  ls_Lease :: LeaseID
  ls_State :: LockState
  ls_Rev :: Revision

definition NUL :: char where "NUL = CHR 0x00"

definition lockKey :: "LockID \<Rightarrow> Key" where
  "lockKey i = ''locks/'' @ i"

definition lock_payload :: "LockStateRecord \<Rightarrow> string" where
  "lock_payload r =
     ls_Holder r @ [NUL] @ ls_Lease r @ [NUL] @ Itoa (uint (byte_of_LockState (ls_State r)))"

definition PutLockState ::
  "Store \<Rightarrow> LockID \<Rightarrow> LockStateRecord \<Rightarrow> (Store \<times> (StoreError + Revision)) option" where
  "PutLockState s i r = Put s (lockKey i) (Some (lock_payload r))"

definition GetLockState :: "Store \<Rightarrow> LockID \<Rightarrow> LockStateRecord option" where
  "GetLockState s i =
     (case Get s (lockKey i) of
        None \<Rightarrow> None
      | Some (payload, rv) \<Rightarrow>
          let parts = SplitN NUL 3 (case payload of None \<Rightarrow> [] | Some bytes \<Rightarrow> bytes)
          in if length parts \<noteq> 3 then None
             else (case Atoi (parts ! 2) of
                     None \<Rightarrow> None
                   | Some state \<Rightarrow>
                       Some \<lparr>ls_ID = i, ls_Holder = parts ! 0, ls_Lease = parts ! 1,
                             ls_State = LockState_of_byte (of_int state), ls_Rev = rv\<rparr>))"

definition DeleteLockState :: "Store \<Rightarrow> LockID \<Rightarrow> (Store \<times> (StoreError + Revision)) option" where
  "DeleteLockState s i = Delete s (lockKey i)"

end
