(* ===== verification/StoreSpec.thy ===== *)
theory StoreSpec
  imports Store
begin

text \<open>
  The abstract view of the store: the complete history of its events, and the relation
  \<open>tracks h s\<close> which says that the store \<open>s\<close> is a correct representation of the history \<open>h\<close>:
  every key keeps a non-empty end of its versions, the ring log holds the last \<open>logCap\<close> events,
  the buffers of the registered streams are an end of what follows their start.
\<close>

section \<open>Histories\<close>

definition event_version :: "Event \<Rightarrow> version" where
  "event_version e =
     \<lparr>ver_rev = ev_Rev e, ver_value = ev_Value e, ver_deleted = (ev_Type e = EventDelete)\<rparr>"

definition versions_of :: "Event list \<Rightarrow> Key \<Rightarrow> version list" where
  "versions_of h k = map event_version (filter (\<lambda>e. ev_Key e = k) h)"

definition wf_history :: "Event list \<Rightarrow> bool" where
  "wf_history h \<longleftrightarrow> length h < 2 ^ 63 \<and> map ev_Rev h = map of_nat [1..<Suc (length h)]"

definition last_opt :: "'a list \<Rightarrow> 'a option" where
  "last_opt xs = (if xs = [] then None else Some (last xs))"

text \<open>The version of a key that a read at a revision sees in the complete history.\<close>

definition spec_at :: "Event list \<Rightarrow> Key \<Rightarrow> Revision \<Rightarrow> version option" where
  "spec_at h k r = last_opt (filter (\<lambda>v. ver_rev v \<le> r) (versions_of h k))"

definition version_view :: "version \<Rightarrow> VersionedValue" where
  "version_view v =
     \<lparr>vv_Value = (if ver_deleted v then None else ver_value v), vv_Rev = ver_rev v,
      vv_Deleted = ver_deleted v\<rparr>"

lemma event_version_sel [simp]:
  "ver_rev (event_version e) = ev_Rev e" "ver_value (event_version e) = ev_Value e"
  "ver_deleted (event_version e) = (ev_Type e = EventDelete)"
  by (simp_all add: event_version_def)

lemma versions_of_append [simp]:
  "versions_of (h @ [e]) k = versions_of h k @ (if ev_Key e = k then [event_version e] else [])"
  by (simp add: versions_of_def)

lemma wf_history_nth:
  assumes "wf_history h" and "i < length h"
  shows "ev_Rev (h ! i) = of_nat (Suc i)"
proof -
  have "map ev_Rev h ! i = map of_nat [1..<Suc (length h)] ! i"
    using assms(1) by (simp only: wf_history_def)
  moreover have "[1..<Suc (length h)] ! i = Suc i"
    using assms(2) by (subst nth_upt) simp_all
  ultimately show ?thesis using assms(2) by (simp del: upt_Suc)
qed

lemma unat_of_nat_small: "n < 2 ^ 64 \<Longrightarrow> unat (of_nat n :: uint64) = n"
  by (simp add: unat_of_nat)

lemma wf_history_unat:
  assumes "wf_history h" and "i < length h"
  shows "unat (ev_Rev (h ! i)) = Suc i"
proof -
  have "Suc i < 2 ^ 64" using assms by (simp add: wf_history_def)
  then show ?thesis by (simp only: wf_history_nth [OF assms] unat_of_nat_small)
qed

lemma wf_history_snoc:
  assumes "wf_history h" and "Suc (length h) < 2 ^ 63" and "ev_Rev e = of_nat (Suc (length h))"
  shows "wf_history (h @ [e])"
  using assms by (simp add: wf_history_def)

lemma sorted_revs: "wf_history h \<Longrightarrow> sorted (map ev_Rev h)"
  by (auto simp: sorted_iff_nth_mono word_le_nat_alt wf_history_unat)

lemma sorted_versions_of: "wf_history h \<Longrightarrow> sorted (map ver_rev (versions_of h k))"
  by (simp add: versions_of_def comp_def sorted_filter sorted_revs)

section \<open>Reading a sorted list of versions\<close>

lemma takeWhile_sorted_filter:
  "sorted (map ver_rev vs) \<Longrightarrow>
     takeWhile (\<lambda>v. ver_rev v \<le> r) vs = filter (\<lambda>v. ver_rev v \<le> r) vs"
proof (induction vs)
  case (Cons v vs)
  then show ?case by (cases "ver_rev v \<le> r") (auto intro!: filter_False [symmetric] dest: order_trans)
qed simp

lemma version_search_eq:
  "sorted (map ver_rev vs) \<Longrightarrow>
     version_search vs r = length (filter (\<lambda>v. ver_rev v \<le> r) vs)"
  by (simp add: version_search_def sort_Search_sorted takeWhile_sorted_filter)

lemma version_search_nth:
  assumes "sorted (map ver_rev vs)" and "version_search vs r \<noteq> 0"
  shows "vs ! (version_search vs r - 1) = last (filter (\<lambda>v. ver_rev v \<le> r) vs)"
proof -
  let ?t = "takeWhile (\<lambda>v. ver_rev v \<le> r) vs"
  have n: "version_search vs r = length ?t"
    by (simp add: version_search_def sort_Search_sorted assms)
  with assms(2) have "?t \<noteq> []" by auto
  then have "last ?t = vs ! (length ?t - 1)"
    by (simp add: last_conv_nth takeWhile_nth)
  then show ?thesis by (simp add: n takeWhile_sorted_filter [OF assms(1)])
qed

lemma snapshot_row_eq:
  assumes "sorted (map ver_rev vs)"
  shows "snapshot_row r vs =
     map_option version_view (last_opt (filter (\<lambda>v. ver_rev v \<le> r) vs))"
  using version_search_nth [OF assms, of r] version_search_eq [OF assms, of r]
  by (auto simp: snapshot_row_def last_opt_def version_view_def Let_def)

lemma last_opt_suffix: "suffix xs ys \<Longrightarrow> last_opt xs = last_opt ys \<or> last_opt xs = None"
  by (auto simp: last_opt_def suffix_def)

lemma last_opt_suffix_ne: "suffix xs ys \<Longrightarrow> xs \<noteq> [] \<Longrightarrow> last_opt xs = last_opt ys"
  by (auto simp: last_opt_def suffix_def)

lemma suffix_filter: "suffix xs ys \<Longrightarrow> suffix (filter p xs) (filter p ys)"
  by (auto simp: suffix_def)

lemma sorted_suffix: "suffix xs ys \<Longrightarrow> sorted (map f ys) \<Longrightarrow> sorted (map f xs)"
  by (auto simp: suffix_def sorted_append)

section \<open>The change log\<close>

lemma log_index_nat:
  assumes "unat rv = Suc n" and "n < 2 ^ 63" and "0 < logCap s"
  shows "log_index s rv = int (n mod nat (logCap s))"
proof -
  have "rv \<noteq> 0" using assms(1) by auto
  then have "unat (rv - 1) = n" using assms(1) by (simp add: unat_minus1)
  then have "sint (rv - 1) = int n" using assms(2) by (simp add: sint_unat)
  then show ?thesis
    using assms(3) by (cases n) (simp_all add: log_index_def smod_int_alt_def zmod_int)
qed

text \<open>
  The ring holds the last \<open>logCap\<close> events of the history, and the window
  \<open>(logStart, head]\<close> has \<open>logSize\<close> events.
\<close>

definition ring_ok :: "Event list \<Rightarrow> Store \<Rightarrow> bool" where
  "ring_ok h s \<longleftrightarrow>
     16 \<le> logCap s \<and> logCap s < 2 ^ 63 \<and> length (clog s) = nat (logCap s)
     \<and> 0 \<le> logSize s \<and> logSize s \<le> logCap s
     \<and> int (unat (logStart s)) + logSize s = int (length h)
     \<and> (\<forall>i. i < length h \<and> length h \<le> i + nat (logCap s)
            \<longrightarrow> clog s ! (i mod nat (logCap s)) = h ! i)
     \<and> (\<forall>j < nat (logCap s). clog s ! j \<in> insert zeroEvent (set h))"

lemma mod_window_inj:
  assumes "i mod c = j mod c" and "j < (n::nat)" "n \<le> j + c" "i < n" "n \<le> i + c" "0 < c"
  shows "i = j"
proof (rule ccontr)
  assume "i \<noteq> j"
  then consider "i < j" | "j < i" by linarith
  then show False
  proof cases
    case 1
    then have "c dvd j - i" using assms(1) by (metis mod_eq_dvd_iff_nat less_imp_le)
    with 1 have "c \<le> j - i" by (simp add: dvd_imp_le)
    with assms 1 show False by linarith
  next
    case 2
    then have "c dvd i - j" using assms(1) by (metis mod_eq_dvd_iff_nat less_imp_le)
    with 2 have "c \<le> i - j" by (simp add: dvd_imp_le)
    with assms 2 show False by linarith
  qed
qed


definition log_full :: "Store \<Rightarrow> bool" where
  "log_full s \<longleftrightarrow> logSize s = logCap s"

lemma appendLogLocked_eq:
  assumes "ring_ok h s" and "unat (ev_Rev ev) = Suc (length h)" and "Suc (length h) < 2 ^ 63"
  shows "appendLogLocked s ev = Some
    (s\<lparr>logStart := (if log_full s then logStart s + 1 else logStart s),
       logSize := (if log_full s then logSize s else logSize s + 1),
       clog := (clog s)[length h mod nat (logCap s) := ev]\<rparr>)"
proof -
  have cap: "0 < logCap s" "length (clog s) = nat (logCap s)" "logCap s < 2 ^ 63"
    and size: "0 \<le> logSize s" "logSize s \<le> logCap s"
    using assms(1) by (auto simp: ring_ok_def)
  have idx: "log_index s (ev_Rev ev) = int (length h mod nat (logCap s))"
    using log_index_nat [OF assms(2)] assms(3) cap(1) by simp
  have "length h mod nat (logCap s) < length (clog s)"
    using cap by simp
  then show ?thesis
    using cap size
    by (simp add: appendLogLocked_def idx log_full_def Let_def go_update_nat go_int_id)
qed

lemma ring_ok_append:
  assumes ring: "ring_ok h s" and "Suc (length h) < 2 ^ 63"
    and fields: "logCap s' = logCap s"
      "logStart s' = (if log_full s then logStart s + 1 else logStart s)"
      "logSize s' = (if log_full s then logSize s else logSize s + 1)"
      "clog s' = (clog s)[length h mod nat (logCap s) := ev]"
  shows "ring_ok (h @ [ev]) s'"
proof -
  let ?c = "nat (logCap s)" and ?n = "length h"
  have cap: "16 \<le> logCap s" "0 < ?c" "length (clog s) = ?c"
    and sum: "int (unat (logStart s)) + logSize s = int ?n"
    and size: "0 \<le> logSize s" "logSize s \<le> logCap s"
    and win: "\<And>i. i < ?n \<Longrightarrow> ?n \<le> i + ?c \<Longrightarrow> clog s ! (i mod ?c) = h ! i"
    and slot: "\<And>j. j < ?c \<Longrightarrow> clog s ! j \<in> insert zeroEvent (set h)"
    using ring by (auto simp: ring_ok_def)
  have "unat (logStart s) \<le> ?n" using sum size by linarith
  then have start: "unat (logStart s + 1) = Suc (unat (logStart s))"
    using assms(2) by (intro unat_plus1) simp
  then have start': "uint (logStart s + 1) = uint (logStart s) + 1" by (simp only: uint_nat)
  have "clog s' ! (i mod ?c) = (h @ [ev]) ! i" if "i < Suc ?n" "Suc ?n \<le> i + ?c" for i
  proof (cases "i = ?n")
    case True
    then show ?thesis using cap by (simp add: fields)
  next
    case False
    with that have i: "i < ?n" "?n \<le> i + ?c" by auto
    have "i mod ?c \<noteq> ?n mod ?c"
      using mod_window_inj [of i ?c ?n "Suc ?n"] that False cap(2) by auto
    with i win [OF i] show ?thesis by (simp add: fields nth_append)
  qed
  moreover have "clog s' ! j \<in> insert zeroEvent (set (h @ [ev]))" if "j < ?c" for j
    using slot [OF that] that cap by (auto simp: fields nth_list_update)
  moreover have "int (unat (logStart s')) + logSize s' = int (Suc ?n)"
    using sum start' by (simp add: fields)
  moreover have "0 \<le> logSize s' \<and> logSize s' \<le> logCap s"
    using size by (auto simp: fields log_full_def)
  ultimately show ?thesis
    using ring by (simp add: ring_ok_def fields)
qed

lemma ring_slot:
  assumes "ring_ok h s" and "wf_history h" and "i < length h" and "unat r = Suc i"
  shows "\<exists>e. go_index (clog s) (log_index s r) = Some e \<and>
     (ev_Rev e = r \<longleftrightarrow> e = h ! i) \<and> (length h \<le> i + nat (logCap s) \<longleftrightarrow> e = h ! i)"
proof -
  let ?c = "nat (logCap s)"
  let ?e = "clog s ! (i mod ?c)"
  have n: "length h < 2 ^ 63" using assms(2) by (simp add: wf_history_def)
  have cap: "0 < logCap s" "length (clog s) = ?c" using assms(1) by (auto simp: ring_ok_def)
  have idx: "log_index s r = int (i mod ?c)"
    using log_index_nat [OF assms(4)] assms(3) n cap(1) by simp
  have get: "go_index (clog s) (log_index s r) = Some ?e"
    using cap by (simp add: idx go_index_nat)
  have rev_i: "ev_Rev (h ! i) = r"
    using wf_history_unat [OF assms(2,3)] assms(4) by (simp add: word_unat_eq_iff)
  have uniq: "e = h ! i" if "e \<in> insert zeroEvent (set h)" "ev_Rev e = r" for e
  proof -
    have "e \<noteq> zeroEvent" using that(2) assms(4) by (auto simp: zeroEvent_def)
    with that(1) obtain j where j: "j < length h" "e = h ! j" by (auto simp: in_set_conv_nth)
    with that(2) wf_history_unat [OF assms(2) j(1)] assms(4) show ?thesis by simp
  qed
  have slot: "?e \<in> insert zeroEvent (set h)"
    using assms(1) cap by (simp add: ring_ok_def)
  have win: "clog s ! (j mod ?c) = h ! j" if "j < length h" "length h \<le> j + ?c" for j
    using assms(1) that by (simp add: ring_ok_def)
  have "length h \<le> i + ?c" if "?e = h ! i"
  proof (rule ccontr)
    assume "\<not> length h \<le> i + ?c"
    then have far: "i + ?c < length h" by simp
    define q where "q = (length h - 1 - i) div ?c"
    have qc: "q * ?c \<le> length h - 1 - i" "length h - 1 - i < q * ?c + ?c"
      unfolding q_def using cap(1) dividend_less_div_times [of ?c "length h - 1 - i"]
      by (simp_all add: div_times_less_eq_dividend add.commute)
    have "0 < q * ?c" using far qc(2) by linarith
    let ?j = "i + q * ?c"
    have "?j < length h" "length h \<le> ?j + ?c" using far qc by linarith+
    then have "clog s ! (?j mod ?c) = h ! ?j" by (rule win)
    then have "h ! ?j = h ! i" using that by simp
    then have "Suc ?j = Suc i"
      using wf_history_unat [OF assms(2,3)] wf_history_unat [OF assms(2) \<open>?j < length h\<close>] by simp
    with \<open>0 < q * ?c\<close> show False by simp
  qed
  moreover have "?e = h ! i" if "length h \<le> i + ?c" using win [OF assms(3) that] .
  moreover have "ev_Rev ?e = r \<longleftrightarrow> ?e = h ! i" using uniq [OF slot] rev_i by auto
  ultimately show ?thesis using get by blast
qed

lemma log_scan_drop:
  assumes "ring_ok h s" and "wf_history h"
  shows "i + n = length h \<Longrightarrow> length h \<le> i + nat (logCap s) \<Longrightarrow> unat r = Suc i \<Longrightarrow>
     log_scan s r n = Some (drop i h)"
proof (induction n arbitrary: i r)
  case 0
  then show ?case by simp
next
  case (Suc n)
  have i: "i < length h" using Suc.prems by simp
  obtain e where e: "go_index (clog s) (log_index s r) = Some e" "ev_Rev e = r" "e = h ! i"
    using ring_slot [OF assms i Suc.prems(3)] Suc.prems(2) by blast
  have "unat (r + 1) = Suc (Suc i)"
    using Suc.prems(3) i assms(2) by (subst unat_plus1) (simp_all add: wf_history_def)
  with Suc.IH [of "Suc i" "r + 1"] Suc.prems have
    "log_scan s (r + 1) n = Some (drop (Suc i) h)" by simp
  with e i show ?case by (simp add: Cons_nth_drop_Suc)
qed

lemma logEventsLocked_inside:
  assumes "ring_ok h s" and "wf_history h" and "unat (head s) = length h"
    and "logStart s \<le> after"
  shows "logEventsLocked s after = Some (drop (unat after) h)"
proof (cases "head s \<le> after")
  case True
  then have "length h \<le> unat after" using assms(3) by (simp add: word_le_nat_alt)
  with True show ?thesis by (simp add: logEventsLocked_def)
next
  case False
  then have lt: "unat after < length h" using assms(3) by (simp add: word_le_nat_alt)
  have sum: "int (unat (logStart s)) + logSize s = int (length h)" and "logSize s \<le> logCap s"
    using assms(1) by (auto simp: ring_ok_def)
  moreover have "unat (logStart s) \<le> unat after" using assms(4) by (simp add: word_le_nat_alt)
  ultimately have "length h \<le> unat after + nat (logCap s)" and "logSize s \<noteq> 0"
    using lt by linarith+
  moreover have "unat (after + 1) = Suc (unat after)"
    using lt assms(2) by (intro unat_plus1) (simp add: wf_history_def)
  ultimately show ?thesis
    using False assms(3,4) lt log_scan_drop [OF assms(1,2), of "unat after" "length h - unat after" "after + 1"]
    by (simp add: logEventsLocked_def)
qed

text \<open>
  Below the window the scan starts at \<open>logStart\<close>, one event before the window: that event is
  still in the ring unless the log is full.
\<close>

lemma logEventsLocked_below:
  assumes "ring_ok h s" and "wf_history h" and "unat (head s) = length h"
    and "after < logStart s" and "0 < logSize s"
  shows "logEventsLocked s after =
    Some (drop (if log_full s then unat (logStart s) else unat (logStart s) - 1) h)"
proof -
  define i where "i = unat (logStart s) - 1"
  have "unat after < unat (logStart s)" using assms(4) by (simp add: word_less_nat_alt)
  then have Suc_i: "unat (logStart s) = Suc i" by (simp add: i_def)
  have sum: "int (unat (logStart s)) + logSize s = int (length h)" and cap: "logSize s \<le> logCap s" "16 \<le> logCap s"
    using assms(1) by (auto simp: ring_ok_def)
  then have i: "i < length h" using Suc_i assms(5) by linarith
  have n: "Suc (length h) - unat (logStart s) = Suc (length h - Suc i)"
    using Suc_i i by simp
  have "\<not> head s \<le> after"
    using assms(3) \<open>unat after < unat (logStart s)\<close> i Suc_i by (simp add: word_le_nat_alt)
  then have scan: "logEventsLocked s after = log_scan s (logStart s) (Suc (length h - Suc i))"
    using linorder_not_le [THEN iffD2, OF assms(4)] assms(3,5) n
    by (simp add: logEventsLocked_def Let_def del: log_scan.simps)
  show ?thesis
  proof (cases "log_full s")
    case False
    then have "length h \<le> i + nat (logCap s)"
      using sum cap Suc_i by (simp add: log_full_def)
    then have "log_scan s (logStart s) (Suc (length h - Suc i)) = Some (drop i h)"
      using log_scan_drop [OF assms(1,2)] i Suc_i by (simp del: log_scan.simps)
    with False scan show ?thesis by (simp add: i_def)
  next
    case True
    then have far: "\<not> length h \<le> i + nat (logCap s)" "length h \<le> Suc i + nat (logCap s)"
      using sum cap Suc_i by (auto simp add: log_full_def)
    obtain e where e: "go_index (clog s) (log_index s (logStart s)) = Some e" "ev_Rev e \<noteq> logStart s"
      using ring_slot [OF assms(1,2) i Suc_i] far(1) by blast
    have "unat (logStart s + 1) = Suc (Suc i)"
      using Suc_i i assms(2) by (subst unat_plus1) (simp_all add: wf_history_def)
    then have "log_scan s (logStart s + 1) (length h - Suc i) = Some (drop (Suc i) h)"
      using log_scan_drop [OF assms(1,2) _ far(2)] i by simp
    with e scan True Suc_i show ?thesis by simp
  qed
qed

section \<open>Records\<close>

definition recs_of :: "Store \<Rightarrow> Key \<Rightarrow> version list" where
  "recs_of s k = (case map_of (records s) k of None \<Rightarrow> [] | Some vs \<Rightarrow> vs)"

definition records_ok :: "Event list \<Rightarrow> Store \<Rightarrow> bool" where
  "records_ok h s \<longleftrightarrow> mwf (records s) \<and> (\<forall>k. map_of (records s) k \<noteq> Some [])
     \<and> (\<forall>k. suffix (recs_of s k) (versions_of h k) \<and> (recs_of s k = [] \<longrightarrow> versions_of h k = []))"

lemma append_version_sel [simp]:
  "head (append_version s k v) = head s" "clog (append_version s k v) = clog s"
  "logStart (append_version s k v) = logStart s" "logSize (append_version s k v) = logSize s"
  "logCap (append_version s k v) = logCap s" "streams (append_version s k v) = streams s"
  "streamHeap (append_version s k v) = streamHeap s" "readers (append_version s k v) = readers s"
  by (simp_all add: append_version_def recordForLocked_def split: option.split)

lemma lookup_append_version:
  "map_of (records (append_version s k v)) = (map_of (records s))(k \<mapsto> recs_of s k @ [v])"
  by (auto simp: append_version_def recordForLocked_def recs_of_def split: option.split)

lemma mwf_append_version: "mwf (records s) \<Longrightarrow> mwf (records (append_version s k v))"
  by (simp add: append_version_def recordForLocked_def split: option.split)

lemma recs_of_append_version:
  "recs_of (append_version s k v) k' = (if k' = k then recs_of s k @ [v] else recs_of s k')"
  by (simp add: recs_of_def lookup_append_version)

lemma records_ok_append:
  assumes "records_ok h s" and "records s' = records (append_version s (ev_Key ev) (event_version ev))"
  shows "records_ok (h @ [ev]) s'"
proof -
  have "recs_of s' k = recs_of (append_version s (ev_Key ev) (event_version ev)) k" for k
    by (simp add: recs_of_def assms(2))
  then show ?thesis
    using assms(1)
    by (auto simp: records_ok_def assms(2) mwf_append_version recs_of_append_version
        lookup_append_version suffix_snoc)
qed

section \<open>Streams\<close>

definition stream_ok :: "Event list \<Rightarrow> Stream \<Rightarrow> bool" where
  "stream_ok h st \<longleftrightarrow> \<not> st_closed st \<and> \<not> st_ChClosed st \<and> length (st_Ch st) \<le> streamBuffer
     \<and> unat (st_Start st) \<le> length h \<and> suffix (st_Ch st) (drop (unat (st_Start st)) h)"

definition streams_ok :: "Event list \<Rightarrow> Store \<Rightarrow> bool" where
  "streams_ok h s \<longleftrightarrow> mwf (streamHeap s) \<and> distinct (streams s)
     \<and> (\<forall>i \<in> set (streams s). \<exists>st. map_of (streamHeap s) i = Some st \<and> stream_ok h st)"

text \<open>What one broadcast does to a registered stream.\<close>

definition stream_after :: "Event \<Rightarrow> Stream \<Rightarrow> Stream" where
  "stream_after ev st =
     (if length (st_Ch st) < streamBuffer then st\<lparr>st_Ch := st_Ch st @ [ev]\<rparr>
      else closeLocked st)"

definition has_room :: "Store \<Rightarrow> uint64 \<Rightarrow> bool" where
  "has_room s i \<longleftrightarrow> (\<exists>st. map_of (streamHeap s) i = Some st \<and> length (st_Ch st) < streamBuffer)"

definition core :: "Store \<Rightarrow> Store" where
  "core s = s\<lparr>streams := [], streamHeap := []\<rparr>"

lemma core_eqD:
  assumes "core s' = core s"
  shows "records s' = records s" "head s' = head s" "clog s' = clog s" "logStart s' = logStart s"
    "logSize s' = logSize s" "logCap s' = logCap s" "readers s' = readers s"
    "nextReader s' = nextReader s" "nextStream s' = nextStream s"
  using assms by (cases s; cases s'; simp add: core_def)+

lemma core_simps [simp]:
  "core (set_stream s i st) = core s" "core (unregister s i) = core s"
  "streams (set_stream s i st) = streams s"
  "streamHeap (set_stream s i st) = mput i st (streamHeap s)"
  "streams (unregister s i) = filter (\<lambda>j. j \<noteq> i) (streams s)"
  "streamHeap (unregister s i) = streamHeap s"
  by (simp_all add: core_def set_stream_def unregister_def)

lemma broadcast_to_eq:
  "\<lbrakk>\<forall>i \<in> set is. \<exists>st. map_of (streamHeap s) i = Some st \<and> \<not> st_ChClosed st \<and> st_Start st < ev_Rev ev;
    distinct is; mwf (streamHeap s)\<rbrakk> \<Longrightarrow>
   \<exists>s'. broadcast_to is ev s = Some s' \<and> core s' = core s \<and> mwf (streamHeap s')
     \<and> streams s' = filter (\<lambda>i. i \<in> set is \<longrightarrow> has_room s i) (streams s)
     \<and> (\<forall>i. map_of (streamHeap s') i =
            (if i \<in> set is then map_option (stream_after ev) (map_of (streamHeap s) i)
             else map_of (streamHeap s) i))"
proof (induction "is" arbitrary: s)
  case Nil
  then show ?case by simp
next
  case (Cons i "is")
  obtain st where st: "map_of (streamHeap s) i = Some st" "\<not> st_ChClosed st" "st_Start st < ev_Rev ev"
    using Cons.prems(1) by auto
  define s1 where "s1 = (if length (st_Ch st) < streamBuffer
    then set_stream s i (st\<lparr>st_Ch := st_Ch st @ [ev]\<rparr>)
    else unregister (set_stream s i (closeLocked st)) i)"
  have step: "broadcast_to (i # is) ev s = broadcast_to is ev s1"
    using st(1,2) linorder_not_le [THEN iffD2, OF st(3)] by (simp add: s1_def try_send_def)
  have heap: "map_of (streamHeap s1) = (map_of (streamHeap s))(i \<mapsto> stream_after ev st)"
    by (simp add: s1_def stream_after_def)
  have "\<forall>j \<in> set is. \<exists>st. map_of (streamHeap s1) j = Some st \<and> \<not> st_ChClosed st \<and> st_Start st < ev_Rev ev"
    using Cons.prems(1,2) by (auto simp: heap)
  moreover have "mwf (streamHeap s1)" using Cons.prems(3) by (simp add: s1_def)
  ultimately obtain s' where s': "broadcast_to is ev s1 = Some s'" "core s' = core s1"
    "mwf (streamHeap s')" "streams s' = filter (\<lambda>j. j \<in> set is \<longrightarrow> has_room s1 j) (streams s1)"
    "\<forall>j. map_of (streamHeap s') j =
       (if j \<in> set is then map_option (stream_after ev) (map_of (streamHeap s1) j)
        else map_of (streamHeap s1) j)"
    using Cons.IH [of s1] Cons.prems(2) by auto
  have room: "has_room s1 j = has_room s j" if "j \<noteq> i" for j
    using that by (simp add: has_room_def heap)
  have "streams s' = filter (\<lambda>j. j \<in> set (i # is) \<longrightarrow> has_room s j) (streams s)"
    using s'(4) Cons.prems(2) st(1) room
    by (auto simp: s1_def has_room_def heap intro!: filter_cong)
  moreover have "core s' = core s" using s'(2) by (simp add: s1_def)
  ultimately show ?case
    using s'(1,3,5) step Cons.prems(2) st(1) by (auto simp: heap)
qed

section \<open>The refinement relation\<close>

definition readers_ok :: "Store \<Rightarrow> bool" where
  "readers_ok s \<longleftrightarrow> mwf (readers s) \<and> (\<forall>i r. map_of (readers s) i = Some r \<longrightarrow>
     rd_id r = i \<and> rd_minRev r = rd_rev r \<and> rd_rev r \<le> head s \<and> \<not> rd_closed r)"

definition tracks :: "Event list \<Rightarrow> Store \<Rightarrow> bool" where
  "tracks h s \<longleftrightarrow> wf_history h \<and> unat (head s) = length h \<and> records_ok h s \<and> ring_ok h s
     \<and> streams_ok h s \<and> readers_ok s"

lemma tracks_New: "cap < 2 ^ 63 \<Longrightarrow> tracks [] (New cap)"
  by (simp add: tracks_def New_def wf_history_def records_ok_def recs_of_def versions_of_def
      ring_ok_def streams_ok_def readers_ok_def nth_append Let_def)

lemma stream_ok_after:
  assumes "stream_ok h st" and "length (st_Ch st) < streamBuffer"
  shows "stream_ok (h @ [ev]) (stream_after ev st)"
  using assms by (auto simp: stream_ok_def stream_after_def suffix_snoc)

lemma streams_ok_broadcast:
  assumes ok: "streams_ok h s" and rev: "unat (ev_Rev ev) = Suc (length h)"
  shows "\<exists>s'. broadcastLocked s ev = Some s' \<and> core s' = core s \<and> streams_ok (h @ [ev]) s'
     \<and> streams s' = filter (has_room s) (streams s)
     \<and> (\<forall>i. map_of (streamHeap s') i =
            (if i \<in> set (streams s) then map_option (stream_after ev) (map_of (streamHeap s) i)
             else map_of (streamHeap s) i))"
proof -
  have "\<exists>st. map_of (streamHeap s) i = Some st \<and> \<not> st_ChClosed st \<and> st_Start st < ev_Rev ev"
    if "i \<in> set (streams s)" for i
    using ok that rev by (fastforce simp: streams_ok_def stream_ok_def word_less_nat_alt)
  then obtain s' where s': "broadcastLocked s ev = Some s'" "core s' = core s" "mwf (streamHeap s')"
    "streams s' = filter (\<lambda>i. i \<in> set (streams s) \<longrightarrow> has_room s i) (streams s)"
    "\<forall>i. map_of (streamHeap s') i =
       (if i \<in> set (streams s) then map_option (stream_after ev) (map_of (streamHeap s) i)
        else map_of (streamHeap s) i)"
    using broadcast_to_eq [of "streams s" s ev] ok by (auto simp: broadcastLocked_def streams_ok_def)
  have reg: "streams s' = filter (has_room s) (streams s)"
    by (simp add: s'(4) cong: filter_cong)
  have "\<exists>st. map_of (streamHeap s') i = Some st \<and> stream_ok (h @ [ev]) st"
    if "i \<in> set (streams s')" for i
  proof -
    have i: "i \<in> set (streams s)" "has_room s i" using that by (auto simp: reg)
    then obtain st where "map_of (streamHeap s) i = Some st" "stream_ok h st"
      "length (st_Ch st) < streamBuffer"
      using ok by (fastforce simp: streams_ok_def has_room_def)
    with i(1) stream_ok_after s'(5) show ?thesis by simp
  qed
  then have "streams_ok (h @ [ev]) s'"
    using ok s'(3) by (simp add: streams_ok_def reg)
  with s' reg show ?thesis by blast
qed

text \<open>The common tail of \<open>Put\<close> and \<open>Delete\<close>.\<close>

lemma write_tracks:
  assumes tr: "tracks h s" and room: "Suc (length h) < 2 ^ 63"
    and ev: "ev_Rev ev = head s + 1"
  shows "\<exists>s'. do {
       s3 \<leftarrow> appendLogLocked (append_version (s\<lparr>head := head s + 1\<rparr>) (ev_Key ev) (event_version ev)) ev;
       broadcastLocked s3 ev } = Some s'
     \<and> tracks (h @ [ev]) s' \<and> head s' = head s + 1
     \<and> nextStream s' = nextStream s \<and> readers s' = readers s \<and> logCap s' = logCap s
     \<and> records s' = records (append_version s (ev_Key ev) (event_version ev))
     \<and> streams s' = filter (has_room s) (streams s)
     \<and> (\<forall>i. map_of (streamHeap s') i =
            (if i \<in> set (streams s) then map_option (stream_after ev) (map_of (streamHeap s) i)
             else map_of (streamHeap s) i))"
proof -
  define s2 where "s2 = append_version (s\<lparr>head := head s + 1\<rparr>) (ev_Key ev) (event_version ev)"
  have wf: "wf_history h" and hd: "unat (head s) = length h" and rec: "records_ok h s"
    and ring: "ring_ok h s" and str: "streams_ok h s" and rds: "readers_ok s"
    using tr by (auto simp: tracks_def)
  have unat_ev: "unat (ev_Rev ev) = Suc (length h)"
    using hd room unat_plus1 [of "head s"] by (simp add: ev)
  then have of_nat_ev: "ev_Rev ev = of_nat (Suc (length h))"
    by (metis of_nat_unat ucast_id)
  have ring2: "ring_ok h s2" using ring by (simp add: ring_ok_def s2_def)
  obtain s3 where s3: "appendLogLocked s2 ev = Some s3" and
    eq3: "s3 = s2\<lparr>logStart := (if log_full s2 then logStart s2 + 1 else logStart s2),
       logSize := (if log_full s2 then logSize s2 else logSize s2 + 1),
       clog := (clog s2)[length h mod nat (logCap s2) := ev]\<rparr>"
    using appendLogLocked_eq [OF ring2 unat_ev room] by blast
  have ring3: "ring_ok (h @ [ev]) s3"
    by (rule ring_ok_append [OF ring2 room]) (simp_all add: eq3)
  have heap3: "streams s3 = streams s" "streamHeap s3 = streamHeap s"
    by (simp_all add: eq3 s2_def)
  then have "streams_ok h s3" using str by (simp add: streams_ok_def)
  from streams_ok_broadcast [OF this unat_ev] obtain s4 where
    s4: "broadcastLocked s3 ev = Some s4" "core s4 = core s3" "streams_ok (h @ [ev]) s4"
      "streams s4 = filter (has_room s3) (streams s3)"
      "\<forall>i. map_of (streamHeap s4) i =
         (if i \<in> set (streams s3) then map_option (stream_after ev) (map_of (streamHeap s3) i)
          else map_of (streamHeap s3) i)"
    by blast
  note core4 = core_eqD [OF s4(2)]
  have recs: "records s4 = records (append_version s (ev_Key ev) (event_version ev))"
    by (simp add: core4 eq3 s2_def append_version_def recordForLocked_def split: option.split)
  have "head s \<le> head s + 1"
    using hd room unat_plus1 [of "head s"] by (simp add: word_le_nat_alt)
  then have "readers_ok s4"
    using rds by (auto simp: readers_ok_def core4 eq3 s2_def intro: order_trans)
  moreover have "ring_ok (h @ [ev]) s4" using ring3 by (simp add: ring_ok_def core4)
  moreover have "wf_history (h @ [ev])"
    by (rule wf_history_snoc [OF wf room of_nat_ev])
  moreover have "head s4 = head s + 1" by (simp add: core4 eq3 s2_def)
  ultimately have "tracks (h @ [ev]) s4"
    using records_ok_append [OF rec recs] s4(3) unat_ev ev by (simp add: tracks_def)
  moreover have "has_room s3 = has_room s" by (simp add: fun_eq_iff has_room_def heap3)
  moreover have "nextStream s2 = nextStream s"
    by (simp add: s2_def append_version_def recordForLocked_def split: option.split)
  ultimately show ?thesis
    using s3 s4 heap3 recs \<open>head s4 = head s + 1\<close>
    by (auto simp: s2_def [symmetric] core4 eq3) (simp_all add: s2_def)
qed

end
