(* ===== verification/StoreProps.thy ===== *)
theory StoreProps
  imports StoreSpec
begin

text \<open>
  Every operation of the store seen through the relation \<open>tracks\<close>: writes append to the history,
  reads answer from it, reclaiming forgets old versions only, and opening a stream replays an
  end of the history.
\<close>

lemma last_opt_SomeD: "last_opt xs = Some v \<Longrightarrow> v \<in> set xs"
  by (auto simp: last_opt_def split: if_splits)

section \<open>Writes\<close>

lemma Put_refines:
  assumes "tracks h s" and "Suc (length h) < 2 ^ 63"
  shows "\<exists>s'. Put s k (Some b) = Some (s', Inr (head s + 1))
    \<and> tracks (h @ [NewPut k (Some b) (head s + 1)]) s'
    \<and> readers s' = readers s \<and> streams s' = filter (has_room s) (streams s)
    \<and> (\<forall>i. map_of (streamHeap s') i =
         (if i \<in> set (streams s)
          then map_option (stream_after (NewPut k (Some b) (head s + 1))) (map_of (streamHeap s) i)
          else map_of (streamHeap s) i))"
proof -
  let ?ev = "NewPut k (Some b) (head s + 1)"
  obtain s3 s4 where "appendLogLocked (append_version (s\<lparr>head := head s + 1\<rparr>) k (event_version ?ev)) ?ev = Some s3"
    and "broadcastLocked s3 ?ev = Some s4" and "tracks (h @ [?ev]) s4" "head s4 = head s + 1"
    "readers s4 = readers s" "streams s4 = filter (has_room s) (streams s)"
    "\<forall>i. map_of (streamHeap s4) i =
       (if i \<in> set (streams s) then map_option (stream_after ?ev) (map_of (streamHeap s) i)
        else map_of (streamHeap s) i)"
    using write_tracks [OF assms, of ?ev] by (auto simp: bind_eq_Some_conv)
  moreover have "event_version ?ev = \<lparr>ver_rev = head s + 1, ver_value = Some b, ver_deleted = False\<rparr>"
    by (simp add: event_version_def)
  ultimately show ?thesis by (simp add: Put_def Let_def)
qed

lemma Delete_refines:
  assumes "tracks h s" and "Suc (length h) < 2 ^ 63"
  shows "\<exists>s'. Delete s k = Some (s', Inr (head s + 1))
    \<and> tracks (h @ [NewDelete k (head s + 1)]) s'
    \<and> readers s' = readers s \<and> streams s' = filter (has_room s) (streams s)
    \<and> (\<forall>i. map_of (streamHeap s') i =
         (if i \<in> set (streams s)
          then map_option (stream_after (NewDelete k (head s + 1))) (map_of (streamHeap s) i)
          else map_of (streamHeap s) i))"
proof -
  let ?ev = "NewDelete k (head s + 1)"
  obtain s3 s4 where "appendLogLocked (append_version (s\<lparr>head := head s + 1\<rparr>) k (event_version ?ev)) ?ev = Some s3"
    and "broadcastLocked s3 ?ev = Some s4" and "tracks (h @ [?ev]) s4" "head s4 = head s + 1"
    "readers s4 = readers s" "streams s4 = filter (has_room s) (streams s)"
    "\<forall>i. map_of (streamHeap s4) i =
       (if i \<in> set (streams s) then map_option (stream_after ?ev) (map_of (streamHeap s) i)
        else map_of (streamHeap s) i)"
    using write_tracks [OF assms, of ?ev] by (auto simp: bind_eq_Some_conv)
  moreover have "event_version ?ev = \<lparr>ver_rev = head s + 1, ver_value = None, ver_deleted = True\<rparr>"
    by (simp add: event_version_def)
  ultimately show ?thesis by (simp add: Delete_def Let_def)
qed

section \<open>Reads\<close>

lemma recs_of_suffix: "tracks h s \<Longrightarrow> suffix (recs_of s k) (versions_of h k)"
  by (simp add: tracks_def records_ok_def)

lemma recs_of_sorted: "tracks h s \<Longrightarrow> sorted (map ver_rev (recs_of s k))"
  by (meson recs_of_suffix sorted_suffix sorted_versions_of tracks_def)

lemma recs_of_last: "tracks h s \<Longrightarrow> last_opt (recs_of s k) = last_opt (versions_of h k)"
  by (cases "recs_of s k = []")
    (auto simp: tracks_def records_ok_def last_opt_def dest!: last_opt_suffix_ne)

text \<open>The newest event of a key decides what \<open>Get\<close> answers.\<close>

definition spec_get :: "Event list \<Rightarrow> Key \<Rightarrow> (Value \<times> Revision) option" where
  "spec_get h k =
     (case filter (\<lambda>e. ev_Key e = k) (List.rev h) of
        [] \<Rightarrow> None
      | e # _ \<Rightarrow> if ev_Type e = EventDelete then None else Some (ev_Value e, ev_Rev e))"

lemma spec_get_last_opt:
  "spec_get h k =
     (case last_opt (versions_of h k) of None \<Rightarrow> None
      | Some v \<Rightarrow> if ver_deleted v then None else Some (ver_value v, ver_rev v))"
proof (cases "filter (\<lambda>e. ev_Key e = k) h" rule: rev_cases)
  case Nil
  then show ?thesis
    by (simp add: spec_get_def last_opt_def versions_of_def rev_filter [symmetric])
next
  case (snoc es e)
  then show ?thesis
    by (simp add: spec_get_def last_opt_def versions_of_def rev_filter [symmetric])
qed

lemma Get_recs: "Get s k =
   (case last_opt (recs_of s k) of None \<Rightarrow> None
    | Some v \<Rightarrow> if ver_deleted v then None else Some (ver_value v, ver_rev v))"
  by (simp add: Get_def recs_of_def last_opt_def last_conv_nth Let_def split: option.split)

lemma Get_spec: "tracks h s \<Longrightarrow> Get s k = spec_get h k"
  by (simp add: Get_recs recs_of_last spec_get_last_opt)

lemma spec_get_snoc [simp]:
  "spec_get (h @ [e]) k =
     (if ev_Key e = k then if ev_Type e = EventDelete then None else Some (ev_Value e, ev_Rev e)
      else spec_get h k)"
  by (simp add: spec_get_def)

subsection \<open>Snapshots\<close>

lemma snapshot_rows_None: "map_of m k = None \<Longrightarrow> map_of (snapshot_rows r m) k = None"
  by (induction m) (auto split: if_splits option.splits)

lemma lookup_snapshot_rows:
  "mwf m \<Longrightarrow> map_of (snapshot_rows r m) k =
     (case map_of m k of None \<Rightarrow> None | Some vs \<Rightarrow> snapshot_row r vs)"
proof (induction m)
  case (Cons p m)
  obtain k' vs where p: "p = (k', vs)" by (cases p)
  have "map_of (snapshot_rows r m) k' = None"
    using Cons.prems by (intro snapshot_rows_None) (simp add: p mwf_def map_of_eq_None_iff)
  with Cons show ?case by (auto simp: p mwf_def split: option.split)
qed simp

lemma snapshot_row_Nil [simp]: "snapshot_row r [] = None"
  by (simp add: snapshot_row_def)

lemma lookup_snapshot:
  assumes "tracks h s"
  shows "map_of (snapshotLocked s r) k =
     map_option version_view (last_opt (filter (\<lambda>v. ver_rev v \<le> min r (head s)) (recs_of s k)))"
proof -
  have "mwf (records s)" using assms by (simp add: tracks_def records_ok_def)
  then have "map_of (snapshotLocked s r) k = snapshot_row (min r (head s)) (recs_of s k)"
    by (auto simp: snapshotLocked_def lookup_snapshot_rows recs_of_def min_def not_less split: option.split)
  then show ?thesis by (simp add: snapshot_row_eq [OF recs_of_sorted [OF assms]])
qed

lemma versions_of_bounded:
  assumes "tracks h s" and "v \<in> set (versions_of h k)"
  shows "ver_rev v \<le> head s"
proof -
  obtain i where "i < length h" "ver_rev v = ev_Rev (h ! i)"
    using assms(2) by (auto simp: versions_of_def in_set_conv_nth)
  with assms(1) wf_history_unat show ?thesis
    by (fastforce simp: tracks_def word_le_nat_alt)
qed

lemma spec_at_min: "tracks h s \<Longrightarrow> spec_at h k (min r (head s)) = spec_at h k r"
  unfolding spec_at_def by (rule arg_cong [where f = last_opt], rule filter_cong) (auto dest: versions_of_bounded)

lemma snapshot_sound:
  assumes "tracks h s" and "map_of (snapshotLocked s r) k = Some vv"
  shows "\<exists>v. spec_at h k r = Some v \<and> vv = version_view v"
proof -
  let ?p = "\<lambda>v. ver_rev v \<le> min r (head s)"
  have "suffix (filter ?p (recs_of s k)) (filter ?p (versions_of h k))"
    by (rule suffix_filter [OF recs_of_suffix [OF assms(1)]])
  from last_opt_suffix [OF this] assms(2) have
    "vv \<in> version_view ` set_option (spec_at h k (min r (head s)))"
    by (auto simp: lookup_snapshot [OF assms(1)] spec_at_def)
  then show ?thesis by (auto simp: spec_at_min [OF assms(1)])
qed

lemma snapshot_complete:
  assumes "tracks h s" and "recs_of s k = versions_of h k \<or> head s \<le> r"
  shows "map_of (snapshotLocked s r) k = map_option version_view (spec_at h k r)"
proof -
  have "last_opt (filter (\<lambda>v. ver_rev v \<le> min r (head s)) (recs_of s k)) = spec_at h k (min r (head s))"
    using assms(2)
  proof
    assume "head s \<le> r"
    moreover have "v \<in> set (versions_of h k)" if "v \<in> set (recs_of s k)" for v
      using recs_of_suffix [OF assms(1)] that by (meson set_mono_suffix subsetD)
    ultimately have "filter (\<lambda>v. ver_rev v \<le> min r (head s)) (recs_of s k) = recs_of s k"
      and "filter (\<lambda>v. ver_rev v \<le> min r (head s)) (versions_of h k) = versions_of h k"
      using versions_of_bounded [OF assms(1)] by (auto intro!: filter_True simp: min_absorb2)
    then show ?thesis
      using recs_of_last [OF assms(1), of k] by (simp add: spec_at_def)
  qed (simp add: spec_at_def)
  then show ?thesis by (simp add: lookup_snapshot [OF assms(1)] spec_at_min [OF assms(1)])
qed

subsection \<open>Readers\<close>

text \<open>A read transaction answers only for the key written by exactly the pinned revision.\<close>

lemma GetAt_exact:
  assumes "tracks h s" and "\<not> rd_closed r" and "rd_minRev r = rd_rev r"
  shows "GetAt r s k = Inr vv \<longleftrightarrow>
     (\<exists>v. last_opt (filter (\<lambda>v. ver_rev v \<le> rd_rev r) (recs_of s k)) = Some v
        \<and> ver_rev v = rd_rev r \<and> vv = version_view v)"
proof (cases "map_of (records s) k")
  case None
  then show ?thesis using assms(2) by (simp add: GetAt_def recs_of_def last_opt_def)
next
  case (Some vs)
  then have vs: "recs_of s k = vs" by (simp add: recs_of_def)
  have srt: "sorted (map ver_rev vs)" using recs_of_sorted [OF assms(1), of k] by (simp add: vs)
  show ?thesis
  proof (cases "version_search vs (rd_rev r) = 0")
    case True
    then have "filter (\<lambda>v. ver_rev v \<le> rd_rev r) vs = []"
      using version_search_eq [OF srt, of "rd_rev r"] by simp
    with True Some assms(2) show ?thesis by (simp add: GetAt_def vs last_opt_def)
  next
    case False
    let ?fs = "filter (\<lambda>v. ver_rev v \<le> rd_rev r) vs"
    have ne: "?fs \<noteq> []" using version_search_eq [OF srt, of "rd_rev r"] False by auto
    then have le: "ver_rev (last ?fs) \<le> rd_rev r" using last_in_set by fastforce
    have "vs ! (version_search vs (rd_rev r) - 1) = last ?fs"
      by (rule version_search_nth [OF srt False])
    with False Some assms(2,3) ne le show ?thesis
      by (auto simp: GetAt_def vs last_opt_def Let_def version_view_def not_less)
  qed
qed

section \<open>Reclaiming\<close>

lemma reclaim_versions_all:
  "\<forall>v \<in> set vs. b < ver_rev v \<or> f \<le> ver_rev v \<Longrightarrow> reclaim_versions b f vs = (vs, 0)"
  by (induction vs) auto

lemma reclaim_versions_sorted:
  assumes "sorted (map ver_rev vs)"
  shows "suffix (fst (reclaim_versions b f vs)) vs
    \<and> (fst (reclaim_versions b f vs) = [] \<longleftrightarrow> vs = [])
    \<and> snd (reclaim_versions b f vs) = int (length vs) - int (length (fst (reclaim_versions b f vs)))
    \<and> (\<forall>v \<in> set vs. b < ver_rev v \<or> f \<le> ver_rev v \<longrightarrow> v \<in> set (fst (reclaim_versions b f vs)))"
  using assms
proof (induction vs)
  case (Cons v vs)
  show ?case
  proof (cases "b < ver_rev v \<or> f \<le> ver_rev v")
    case True
    then have "\<forall>w \<in> set (v # vs). b < ver_rev w \<or> f \<le> ver_rev w"
      using Cons.prems by fastforce
    then have "reclaim_versions b f (v # vs) = (v # vs, 0)" by (rule reclaim_versions_all)
    then show ?thesis by simp
  next
    case False
    then have "reclaim_versions b f (v # vs) =
        (if vs = [] then ([v], 0)
         else (fst (reclaim_versions b f vs), snd (reclaim_versions b f vs) + 1))"
      by (simp add: split_beta)
    with False Cons show ?thesis by (auto simp: suffix_ConsI)
  qed
qed simp

lemma lookup_reclaim_records:
  "mwf m \<Longrightarrow> map_of (fst (reclaim_records b f m)) k =
     (case map_of m k of None \<Rightarrow> None
      | Some vs \<Rightarrow> (let kept = fst (reclaim_versions b f vs) in if kept = [] then None else Some kept))"
proof (induction m)
  case (Cons p m)
  obtain k' vs where p: "p = (k', vs)" by (cases p)
  have "map_of m k' = None" using Cons.prems by (simp add: p mwf_def map_of_eq_None_iff)
  with Cons show ?case by (auto simp: p mwf_def split_beta Let_def split: option.split)
qed simp

lemma keys_reclaim_records: "set (map fst (fst (reclaim_records b f m))) \<subseteq> set (map fst m)"
proof (induction m)
  case (Cons p m)
  then show ?case by (cases p) (simp add: split_beta Let_def, blast)
qed simp

lemma mwf_reclaim_records: "mwf m \<Longrightarrow> mwf (fst (reclaim_records b f m))"
proof (induction m)
  case (Cons p m)
  then show ?case
    using keys_reclaim_records [of b f m]
    by (cases p) (auto simp: mwf_def split_beta Let_def split: if_splits)
qed simp

lemma foldl_floor:
  "foldl (\<lambda>floor (i, r). if rd_rev r < floor then rd_rev r else floor) x rs \<le> (x :: uint64)
   \<and> (\<forall>(i, r) \<in> set rs.
        foldl (\<lambda>floor (i, r). if rd_rev r < floor then rd_rev r else floor) x rs \<le> rd_rev r)"
proof (induction rs arbitrary: x)
  case (Cons p rs)
  obtain i r where p: "p = (i, r)" by (cases p)
  let ?x = "if rd_rev r < x then rd_rev r else x"
  have "?x \<le> x \<and> ?x \<le> rd_rev r" by auto
  with Cons [of ?x] show ?case by (force simp: p)
qed simp

lemma minActiveRev_le_reader:
  "map_of (readers s) i = Some r \<Longrightarrow> minActiveRevLocked s \<le> rd_rev r"
  using foldl_floor [of "head s" "readers s"]
  by (auto simp: minActiveRevLocked_def dest: map_of_SomeD)

lemma reclaim_log_sel [simp]:
  "records (reclaim_log s b) = records s" "head (reclaim_log s b) = head s"
  "clog (reclaim_log s b) = clog s" "logCap (reclaim_log s b) = logCap s"
  "readers (reclaim_log s b) = readers s" "streams (reclaim_log s b) = streams s"
  "streamHeap (reclaim_log s b) = streamHeap s" "nextStream (reclaim_log s b) = nextStream s"
  by (simp_all add: reclaim_log_def Let_def)

lemma Reclaim_sel [simp]:
  "head (fst (Reclaim s b)) = head s" "clog (fst (Reclaim s b)) = clog s"
  "logCap (fst (Reclaim s b)) = logCap s" "readers (fst (Reclaim s b)) = readers s"
  "streams (fst (Reclaim s b)) = streams s" "streamHeap (fst (Reclaim s b)) = streamHeap s"
  "nextStream (fst (Reclaim s b)) = nextStream s"
  "logStart (fst (Reclaim s b)) = logStart (reclaim_log s b)"
  "logSize (fst (Reclaim s b)) = logSize (reclaim_log s b)"
  "records (fst (Reclaim s b)) = fst (reclaim_records b (minActiveRevLocked s) (records s))"
  by (simp_all add: Reclaim_def split_beta Let_def minActiveRevLocked_def)

lemma recs_of_Reclaim:
  assumes "tracks h s"
  shows "recs_of (fst (Reclaim s b)) k =
    fst (reclaim_versions b (minActiveRevLocked s) (recs_of s k))"
proof -
  have "mwf (records s)" using assms by (simp add: tracks_def records_ok_def)
  then show ?thesis by (simp add: recs_of_def lookup_reclaim_records Let_def split: option.split)
qed

lemma Reclaim_window:
  assumes "ring_ok h s" and "length h < 2 ^ 63" and "Suc (unat b) < 2 ^ 63"
  shows "unat (logStart (reclaim_log s b)) = max (unat (logStart s)) (min (Suc (unat b)) (length h))
    \<and> int (unat (logStart (reclaim_log s b))) + logSize (reclaim_log s b) = int (length h)
    \<and> 0 \<le> logSize (reclaim_log s b) \<and> logSize (reclaim_log s b) \<le> logSize s"
proof -
  define l where "l = nat (logSize s)"
  have "0 \<le> logSize s" and sum: "int (unat (logStart s)) + logSize s = int (length h)"
    using assms(1) unfolding ring_ok_def by blast+
  then have size: "logSize s = int l" by (simp add: l_def)
  then have lh: "unat (logStart s) + l = length h" using sum by linarith
  show ?thesis
  proof (cases "0 < logSize s \<and> logStart s \<le> b")
    case False
    then have "reclaim_log s b = s" by (auto simp: reclaim_log_def)
    moreover have "l = 0 \<or> \<not> unat (logStart s) \<le> unat b"
      using False by (auto simp: word_le_nat_alt size)
    moreover have "int (unat (logStart s)) + int l = int (length h)" using lh by linarith
    ultimately show ?thesis using lh size by (auto simp: max_def min_def)
  next
    case True
    then have le: "unat (logStart s) \<le> unat b" by (simp add: word_le_nat_alt)
    define d0 where "d0 = b - logStart s + 1"
    define d1 where "d1 = (if logSize s < sint d0 then of_int (logSize s) else d0)"
    have "unat (b - logStart s) = unat b - unat (logStart s)"
      using True by (simp add: unat_sub)
    then have d0: "unat d0 = Suc (unat b) - unat (logStart s)"
      using assms(3) le unat_plus1 [of "b - logStart s"] by (simp add: d0_def Suc_diff_le)
    then have sd0: "sint d0 = int (unat d0)"
      using assms(3) by (intro sint_unat) simp
    have "unat (of_nat l :: uint64) = l"
      using lh assms(2) by (intro unat_of_nat_small) simp
    then have d1: "unat d1 = min l (unat d0)"
      unfolding d1_def sd0 size by (simp only: of_nat_less_iff of_int_of_nat_eq split: if_split) auto
    then have sd1: "sint d1 = int (min l (unat d0))"
      using lh assms(2) sint_unat [of d1] by simp
    have "unat (logStart s + d1) = unat (logStart s) + unat d1"
      using d1 lh assms(2) by (simp add: unat_word_ariths)
    moreover have "go_int (logSize s - sint d1) = int (l - min l (unat d0))"
      using lh assms(2) by (simp add: sd1 size go_int_id)
    moreover have "logStart (reclaim_log s b) = logStart s + d1"
      "logSize (reclaim_log s b) = go_int (logSize s - sint d1)"
      using True by (simp_all add: reclaim_log_def Let_def d1_def d0_def)
    moreover have "unat (logStart s) + min l (unat d0) = min (Suc (unat b)) (length h)"
      and "unat (logStart s) \<le> min (Suc (unat b)) (length h)"
      using lh le d0 by (auto simp: min_def)
    ultimately show ?thesis
      using d1 lh size by (simp only: max_absorb2) linarith
  qed
qed

lemma Reclaim_tracks:
  assumes tr: "tracks h s" and "Suc (unat b) < 2 ^ 63"
  shows "tracks h (fst (Reclaim s b))"
proof -
  let ?s = "fst (Reclaim s b)" and ?f = "minActiveRevLocked s"
  have wf: "wf_history h" and ring: "ring_ok h s" and rec: "records_ok h s"
    using tr by (auto simp: tracks_def)
  have len: "length h < 2 ^ 63" using wf by (simp add: wf_history_def)
  have "int (unat (logStart (reclaim_log s b))) + logSize (reclaim_log s b) = int (length h)"
    and "0 \<le> logSize (reclaim_log s b)" and "logSize (reclaim_log s b) \<le> logSize s"
    using Reclaim_window [OF ring len assms(2)] by blast+
  then have "ring_ok h ?s"
    using ring by (simp add: ring_ok_def)
  moreover have "records_ok h ?s"
  proof -
    have "suffix (recs_of ?s k) (versions_of h k) \<and> (recs_of ?s k = [] \<longrightarrow> versions_of h k = [])" for k
      using reclaim_versions_sorted [OF recs_of_sorted [OF tr, of k], of b ?f] rec
      by (auto simp: recs_of_Reclaim [OF tr] records_ok_def intro: suffix_order.trans)
    then show ?thesis
      using rec by (auto simp: records_ok_def mwf_reclaim_records lookup_reclaim_records Let_def
          split: option.split)
  qed
  ultimately show ?thesis
    using tr by (simp add: tracks_def streams_ok_def readers_ok_def)
qed

text \<open>Reclaiming never changes what an open read transaction successfully reads.\<close>

lemma Reclaim_keeps_reads:
  assumes tr: "tracks h s" and "Suc (unat b) < 2 ^ 63" and r: "map_of (readers s) i = Some r"
    and get: "GetAt r s k = Inr vv"
  shows "GetAt r (fst (Reclaim s b)) k = Inr vv"
proof -
  let ?s = "fst (Reclaim s b)" and ?f = "minActiveRevLocked s"
  let ?p = "\<lambda>v. ver_rev v \<le> rd_rev r"
  have open_r: "\<not> rd_closed r" "rd_minRev r = rd_rev r"
    using tr r by (auto simp: tracks_def readers_ok_def)
  obtain v where v: "last_opt (filter ?p (recs_of s k)) = Some v" "ver_rev v = rd_rev r" "vv = version_view v"
    using GetAt_exact [OF tr open_r] get by auto
  then have mem: "v \<in> set (recs_of s k)" by (auto dest: last_opt_SomeD)
  note rc = reclaim_versions_sorted [OF recs_of_sorted [OF tr, of k], of b ?f]
  have "?f \<le> ver_rev v" using minActiveRev_le_reader [OF r] v(2) by simp
  then have "v \<in> set (filter ?p (recs_of ?s k))"
    using rc mem v(2) by (simp add: recs_of_Reclaim [OF tr])
  then have ne: "filter ?p (recs_of ?s k) \<noteq> []" by force
  have "suffix (recs_of ?s k) (recs_of s k)" using rc by (simp add: recs_of_Reclaim [OF tr])
  from suffix_filter [OF this, of ?p] have "last_opt (filter ?p (recs_of ?s k)) = Some v"
    by (simp only: last_opt_suffix_ne [OF _ ne] v(1))
  with v(2,3) show ?thesis
    using GetAt_exact [OF Reclaim_tracks [OF tr assms(2)] open_r] by blast
qed

lemma Reclaim_Get: 
  assumes "tracks h s" and "Suc (unat b) < 2 ^ 63"
  shows "Get (fst (Reclaim s b)) k = Get s k"
  using Get_spec [OF assms(1)] Get_spec [OF Reclaim_tracks [OF assms]] by simp

section \<open>Opening and closing streams\<close>

lemma mput_mput [simp]: "mput k v (mput k w m) = mput k v m"
  by (induction m) auto

lemma replay_fits:
  assumes "map_of (streamHeap s) i = Some st" and "\<not> st_ChClosed st"
    and "length (st_Ch st) + length evs \<le> streamBuffer" and "mwf (streamHeap s)"
  shows "\<exists>s'. replay s i evs = Some (s', Inr i) \<and> core s' = core s \<and> streams s' = streams s
    \<and> mwf (streamHeap s')
    \<and> (\<forall>j. map_of (streamHeap s') j =
         (if j = i then Some (st\<lparr>st_Ch := st_Ch st @ evs\<rparr>) else map_of (streamHeap s) j))"
  using assms
proof (induction evs arbitrary: s st)
  case Nil
  then show ?case by simp
next
  case (Cons ev evs)
  let ?st = "st\<lparr>st_Ch := st_Ch st @ [ev]\<rparr>"
  have step: "replay s i (ev # evs) = replay (set_stream s i ?st) i evs"
    using Cons.prems by (simp add: try_send_def)
  have "map_of (streamHeap (set_stream s i ?st)) i = Some ?st" by simp
  from Cons.IH [OF this] Cons.prems show ?case unfolding step by force
qed

lemma replay_overflows:
  assumes "map_of (streamHeap s) i = Some st" and "\<not> st_ChClosed st" and "mwf (streamHeap s)"
    and "length (st_Ch st) \<le> streamBuffer" and "streamBuffer < length (st_Ch st) + length evs"
  shows "\<exists>s'. replay s i evs = Some (s', Inl ErrVersionReclaimed) \<and> core s' = core s
    \<and> streams s' = filter (\<lambda>j. j \<noteq> i) (streams s) \<and> mwf (streamHeap s') \<and> map_of (streamHeap s') i \<noteq> None
    \<and> (\<forall>j. j \<noteq> i \<longrightarrow> map_of (streamHeap s') j = map_of (streamHeap s) j)"
  using assms
proof (induction evs arbitrary: s st)
  case Nil
  then show ?case by simp
next
  case (Cons ev evs)
  let ?st = "st\<lparr>st_Ch := st_Ch st @ [ev]\<rparr>"
  show ?case
  proof (cases "length (st_Ch st) < streamBuffer")
    case True
    then have step: "replay s i (ev # evs) = replay (set_stream s i ?st) i evs"
      using Cons.prems by (simp add: try_send_def)
    have "map_of (streamHeap (set_stream s i ?st)) i = Some ?st" by simp
    from Cons.IH [OF this] Cons.prems True show ?thesis unfolding step by force
  next
    case False
    with Cons.prems show ?thesis by (simp add: try_send_def closeLocked_def)
  qed
qed

definition stream_start :: "Store \<Rightarrow> Revision \<Rightarrow> Revision" where
  "stream_start s rv = (if 0 < logSize s \<and> rv + 1 < logStart s then logStart s - 1 else rv)"

text \<open>The events that \<open>OpenStream\<close> replays, in terms of the history.\<close>

definition stream_events :: "Event list \<Rightarrow> Store \<Rightarrow> Revision \<Rightarrow> Event list" where
  "stream_events h s rv =
     (if logStart s \<le> rv then drop (unat rv) h
      else if logSize s = 0 then []
      else drop (if log_full s then unat (logStart s) else unat (logStart s) - 1) h)"

lemma stream_start_cases:
  assumes "tracks h s" and "rv \<le> head s"
  shows "stream_start s rv = (if logStart s \<le> rv \<or> logSize s = 0 then rv else logStart s - 1)"
proof -
  have len: "unat (head s) = length h" "length h < 2 ^ 63" and size: "0 \<le> logSize s"
    using assms(1) unfolding tracks_def wf_history_def ring_ok_def by blast+
  then have "unat rv < 2 ^ 64 - 1" using assms(2) by (simp add: word_le_nat_alt)
  then have "unat (rv + 1) = Suc (unat rv)" by (rule unat_plus1)
  moreover have "rv = logStart s - 1" if "unat (logStart s) = Suc (unat rv)"
  proof -
    have "logStart s \<noteq> 0" using that by auto
    then have "unat (logStart s - 1) = unat rv" using that by (simp add: unat_minus1)
    then show ?thesis by (simp add: word_unat_eq_iff)
  qed
  ultimately show ?thesis
    using size by (auto simp: stream_start_def word_less_nat_alt word_le_nat_alt)
qed

lemma logEvents_stream:
  assumes "tracks h s" and "rv \<le> head s"
  shows "logEventsLocked s (stream_start s rv) = Some (stream_events h s rv)"
proof -
  have wf: "wf_history h" and hd: "unat (head s) = length h" and ring: "ring_ok h s"
    using assms(1) by (auto simp: tracks_def)
  have size: "0 \<le> logSize s" using ring by (simp add: ring_ok_def)
  consider "logStart s \<le> rv" | "\<not> logStart s \<le> rv" "logSize s = 0"
    | "rv < logStart s" "0 < logSize s" using size by fastforce
  then show ?thesis
  proof cases
    case 1
    then show ?thesis
      by (simp add: stream_start_cases [OF assms] stream_events_def
          logEventsLocked_inside [OF ring wf hd])
  next
    case 2
    then show ?thesis
      by (simp add: stream_start_cases [OF assms] stream_events_def logEventsLocked_def)
  next
    case 3
    then have lt: "logStart s - 1 < logStart s"
      by (subst word_less_nat_alt, subst unat_minus1) (auto simp: word_less_nat_alt)
    from 3 have "\<not> logStart s \<le> rv" by simp
    with 3 show ?thesis
      by (simp add: stream_start_cases [OF assms] stream_events_def
          logEventsLocked_below [OF ring wf hd lt])
  qed
qed

lemma suffix_stream_events:
  assumes "tracks h s" and "rv \<le> head s"
  shows "suffix (stream_events h s rv) (drop (unat (stream_start s rv)) h)"
proof -
  have "suffix (drop m h) (drop n h)" if "n \<le> m" for m n
    using that by (metis le_add_diff_inverse2 drop_drop suffix_drop)
  moreover have "unat (logStart s - 1) = unat (logStart s) - 1" if "\<not> logStart s \<le> rv"
    using that by (intro unat_minus1) auto
  ultimately show ?thesis
    by (auto simp: stream_start_cases [OF assms] stream_events_def)
qed

lemma stream_start_le: 
  assumes "tracks h s" and "rv \<le> head s"
  shows "unat (stream_start s rv) \<le> length h"
proof -
  have hd: "unat (head s) = length h" and "int (unat (logStart s)) + logSize s = int (length h)"
    and "0 \<le> logSize s"
    using assms(1) unfolding tracks_def ring_ok_def by blast+
  then have "unat (logStart s) \<le> length h" by linarith
  moreover have "unat (logStart s - 1) \<le> unat (logStart s)" if "\<not> logStart s \<le> rv"
    using that by (subst unat_minus1) auto
  ultimately show ?thesis
    using assms(2) hd by (auto simp: stream_start_cases [OF assms] word_le_nat_alt)
qed

definition fresh_stream :: "Store \<Rightarrow> Revision \<Rightarrow> Event list \<Rightarrow> Stream" where
  "fresh_stream s start evs =
     \<lparr>st_ID = nextStream s + 1, st_Snapshot = snapshotLocked s start, st_Start = start,
      st_Ch = evs, st_ChClosed = False, st_closed = False\<rparr>"

lemma newStreamLocked_eq:
  assumes "tracks h s"
  shows "\<exists>s1. newStreamLocked s start = (s1, nextStream s + 1)
    \<and> core s1 = core (s\<lparr>nextStream := nextStream s + 1\<rparr>)
    \<and> streams s1 = filter (\<lambda>j. j \<noteq> nextStream s + 1) (streams s) @ [nextStream s + 1]
    \<and> mwf (streamHeap s1)
    \<and> (\<forall>j. map_of (streamHeap s1) j = (if j = nextStream s + 1
         then Some (fresh_stream s start []) else map_of (streamHeap s) j))"
  using assms
  by (simp add: newStreamLocked_def Let_def core_def tracks_def streams_ok_def fresh_stream_def)

lemma tracks_core:
  assumes "tracks h s" and core: "core s' = core (s\<lparr>nextStream := n\<rparr>)" and "streams_ok h s'"
  shows "tracks h s'"
  using assms(1,3) core_eqD [OF core]
  by (simp add: tracks_def records_ok_def recs_of_def ring_ok_def readers_ok_def)

lemma streams_ok_add:
  assumes "streams_ok h s" and "stream_ok h st" and "mwf (streamHeap s')"
    and "streams s' = filter (\<lambda>j. j \<noteq> i) (streams s) @ [i]"
    and "\<forall>j. map_of (streamHeap s') j = (if j = i then Some st else map_of (streamHeap s) j)"
  shows "streams_ok h s'"
  using assms by (auto simp: streams_ok_def)

lemma streams_ok_remove:
  assumes "streams_ok h s" and "mwf (streamHeap s')"
    and "streams s' = filter (\<lambda>j. j \<noteq> i) (streams s)"
    and "\<forall>j. j \<noteq> i \<longrightarrow> map_of (streamHeap s') j = map_of (streamHeap s) j"
  shows "streams_ok h s'"
  using assms by (auto simp: streams_ok_def)

lemma OpenStream_refused: "head s < rv \<Longrightarrow> OpenStream s rv = Some (s, Inl ErrVersionReclaimed)"
  by (simp add: OpenStream_def)

lemma OpenStream_unfold:
  assumes "tracks h s" and "rv \<le> head s" and new: "newStreamLocked s (stream_start s rv) = (s1, i)"
    and core: "core s1 = core (s\<lparr>nextStream := n\<rparr>)"
  shows "OpenStream s rv = replay s1 i (stream_events h s rv)"
proof -
  have "log_scan s1 r n = log_scan s r n" for r n
    by (induction n arbitrary: r) (simp_all add: log_index_def core_eqD [OF core])
  then have "logEventsLocked s1 after = logEventsLocked s after" for after
    by (simp add: logEventsLocked_def core_eqD [OF core])
  with assms show ?thesis
    using logEvents_stream [OF assms(1,2)] linorder_not_less [THEN iffD2, OF assms(2)]
    by (simp add: OpenStream_def stream_start_def Let_def)
qed

lemma OpenStream_opens:
  assumes tr: "tracks h s" and le: "rv \<le> head s"
    and fits: "length (stream_events h s rv) \<le> streamBuffer"
  shows "\<exists>s'. OpenStream s rv = Some (s', Inr (nextStream s + 1)) \<and> tracks h s'
    \<and> core s' = core (s\<lparr>nextStream := nextStream s + 1\<rparr>)
    \<and> streams s' = filter (\<lambda>j. j \<noteq> nextStream s + 1) (streams s) @ [nextStream s + 1]
    \<and> (\<forall>j. map_of (streamHeap s') j = (if j = nextStream s + 1
         then Some (fresh_stream s (stream_start s rv) (stream_events h s rv))
         else map_of (streamHeap s) j))"
proof -
  let ?i = "nextStream s + 1" and ?evs = "stream_events h s rv" and ?start = "stream_start s rv"
  obtain s1 where s1: "newStreamLocked s ?start = (s1, ?i)"
      "core s1 = core (s\<lparr>nextStream := ?i\<rparr>)"
      "streams s1 = filter (\<lambda>j. j \<noteq> ?i) (streams s) @ [?i]" "mwf (streamHeap s1)"
      "\<forall>j. map_of (streamHeap s1) j =
         (if j = ?i then Some (fresh_stream s ?start []) else map_of (streamHeap s) j)"
    using newStreamLocked_eq [OF tr] by blast
  have at: "map_of (streamHeap s1) ?i = Some (fresh_stream s ?start [])" using s1(5) by simp
  have "\<not> st_ChClosed (fresh_stream s ?start [])"
    "length (st_Ch (fresh_stream s ?start [])) + length ?evs \<le> streamBuffer"
    using fits by (simp_all add: fresh_stream_def)
  from replay_fits [OF at this s1(4)] obtain s' where
    s': "replay s1 ?i ?evs = Some (s', Inr ?i)" "core s' = core s1"
      "streams s' = streams s1" "mwf (streamHeap s')"
      "\<forall>j. map_of (streamHeap s') j =
         (if j = ?i then Some (fresh_stream s ?start ?evs) else map_of (streamHeap s) j)"
    using s1(5) by (auto simp: fresh_stream_def)
  have "streams_ok h s'"
  proof (rule streams_ok_add [OF _ _ s'(4) _ s'(5)])
    show "streams_ok h s" using tr by (simp add: tracks_def)
    show "streams s' = filter (\<lambda>j. j \<noteq> ?i) (streams s) @ [?i]" by (simp add: s' s1)
    show "stream_ok h (fresh_stream s ?start ?evs)"
      using fits by (simp add: stream_ok_def fresh_stream_def stream_start_le [OF tr le]
          suffix_stream_events [OF tr le])
  qed
  moreover have core': "core s' = core (s\<lparr>nextStream := ?i\<rparr>)" using s'(2) s1(2) by simp
  ultimately have "tracks h s'" by (rule tracks_core [OF tr _, rotated])
  with s' s1 core' OpenStream_unfold [OF tr le s1(1,2)] show ?thesis by simp
qed

lemma OpenStream_overflows:
  assumes tr: "tracks h s" and le: "rv \<le> head s"
    and long: "streamBuffer < length (stream_events h s rv)"
  shows "\<exists>s'. OpenStream s rv = Some (s', Inl ErrVersionReclaimed) \<and> tracks h s'
    \<and> core s' = core (s\<lparr>nextStream := nextStream s + 1\<rparr>)
    \<and> streams s' = filter (\<lambda>j. j \<noteq> nextStream s + 1) (streams s)
    \<and> map_of (streamHeap s') (nextStream s + 1) \<noteq> None
    \<and> (\<forall>j. j \<noteq> nextStream s + 1 \<longrightarrow> map_of (streamHeap s') j = map_of (streamHeap s) j)"
proof -
  let ?i = "nextStream s + 1" and ?evs = "stream_events h s rv" and ?start = "stream_start s rv"
  obtain s1 where s1: "newStreamLocked s ?start = (s1, ?i)"
      "core s1 = core (s\<lparr>nextStream := ?i\<rparr>)"
      "streams s1 = filter (\<lambda>j. j \<noteq> ?i) (streams s) @ [?i]" "mwf (streamHeap s1)"
      "\<forall>j. map_of (streamHeap s1) j =
         (if j = ?i then Some (fresh_stream s ?start []) else map_of (streamHeap s) j)"
    using newStreamLocked_eq [OF tr] by blast
  have at: "map_of (streamHeap s1) ?i = Some (fresh_stream s ?start [])" using s1(5) by simp
  have "\<not> st_ChClosed (fresh_stream s ?start [])"
    by (simp add: fresh_stream_def)
  from replay_overflows [OF at this s1(4), of ?evs] long obtain s' where
    s': "replay s1 ?i ?evs = Some (s', Inl ErrVersionReclaimed)" "core s' = core s1"
      "streams s' = filter (\<lambda>j. j \<noteq> ?i) (streams s1)" "mwf (streamHeap s')" "map_of (streamHeap s') ?i \<noteq> None"
      "\<forall>j. j \<noteq> ?i \<longrightarrow> map_of (streamHeap s') j = map_of (streamHeap s) j"
    using s1(5) by (auto simp: fresh_stream_def)
  have reg: "streams s' = filter (\<lambda>j. j \<noteq> ?i) (streams s)" by (simp add: s' s1)
  have "streams_ok h s'"
    by (rule streams_ok_remove [OF _ s'(4) reg s'(6)]) (use tr in \<open>simp add: tracks_def\<close>)
  moreover have core': "core s' = core (s\<lparr>nextStream := ?i\<rparr>)" using s'(2) s1(2) by simp
  ultimately have "tracks h s'" by (rule tracks_core [OF tr _, rotated])
  with s' reg core' OpenStream_unfold [OF tr le s1(1,2)] show ?thesis by simp
qed

end
