(* ===== verification/StoreRuns.thy ===== *)
theory StoreRuns
  imports StoreProps
begin

text \<open>
  The store as a state machine: every operation that can change a store is a step, and the
  invariant of a run (the store represents its history, and every subscriber opened inside the
  log's window receives the history in order) is kept by each of them.
\<close>

section \<open>The remaining operations keep the relation\<close>

lemma tracks_frame:
  assumes "tracks h s" and "records s' = records s" "head s' = head s" "clog s' = clog s"
    "logStart s' = logStart s" "logSize s' = logSize s" "logCap s' = logCap s"
    and "streams_ok h s'" and "readers_ok s'"
  shows "tracks h s'"
  using assms by (simp add: tracks_def records_ok_def recs_of_def ring_ok_def)

lemma BeginRead_tracks:
  assumes "tracks h s" shows "tracks h (fst (BeginRead s rv))"
proof (cases "head s < rv")
  case False
  then have le: "rv \<le> head s" by simp
  have ok: "streams_ok h s" "readers_ok s" using assms by (auto simp: tracks_def)
  have "readers_ok (fst (BeginRead s rv))"
    using ok(2) le False unfolding readers_ok_def by (simp add: BeginRead_def Let_def)
  moreover have "streams_ok h (fst (BeginRead s rv))"
    using ok(1) by (simp add: BeginRead_def Let_def streams_ok_def)
  ultimately show ?thesis
    by (intro tracks_frame [OF assms]) (simp_all add: BeginRead_def Let_def)
qed (simp add: BeginRead_def assms)

lemma Reader_Close_tracks:
  assumes "tracks h s" shows "tracks h (snd (Reader_Close r s))"
proof -
  have "streams_ok h s" "readers_ok s" using assms by (auto simp: tracks_def)
  then show ?thesis
    by (intro tracks_frame [OF assms])
      (auto simp: Reader_Close_def streams_ok_def readers_ok_def split: if_splits)
qed

lemma OpenLiveStream_tracks:
  assumes tr: "tracks h s"
  shows "\<exists>s'. OpenLiveStream s = (s', nextStream s + 1) \<and> tracks h s'
    \<and> core s' = core (s\<lparr>nextStream := nextStream s + 1\<rparr>)
    \<and> streams s' = filter (\<lambda>j. j \<noteq> nextStream s + 1) (streams s) @ [nextStream s + 1]
    \<and> (\<forall>j. map_of (streamHeap s') j = (if j = nextStream s + 1
         then Some (fresh_stream s (head s) []) else map_of (streamHeap s) j))"
proof -
  obtain s1 where s1: "newStreamLocked s (head s) = (s1, nextStream s + 1)"
    "core s1 = core (s\<lparr>nextStream := nextStream s + 1\<rparr>)"
    "streams s1 = filter (\<lambda>j. j \<noteq> nextStream s + 1) (streams s) @ [nextStream s + 1]"
    "mwf (streamHeap s1)"
    "\<forall>j. map_of (streamHeap s1) j = (if j = nextStream s + 1
         then Some (fresh_stream s (head s) []) else map_of (streamHeap s) j)"
    using newStreamLocked_eq [OF tr] by blast
  have "streams_ok h s1"
    by (rule streams_ok_add [OF _ _ s1(4,3,5)])
      (use tr in \<open>simp_all add: tracks_def stream_ok_def fresh_stream_def\<close>)
  with tracks_core [OF tr s1(2)] s1 show ?thesis by (simp add: OpenLiveStream_def)
qed

text \<open>Closing a live stream unregisters it and closes its channel; closing again does nothing.\<close>

lemma Stream_Close_tracks:
  assumes tr: "tracks h s" and close: "Stream_Close s i = Some s'"
  shows "tracks h s' \<and> core s' = core s \<and> set (streams s') \<subseteq> set (streams s)
    \<and> (\<forall>j. map_option st_Ch (map_of (streamHeap s') j) = map_option st_Ch (map_of (streamHeap s) j)
         \<and> map_option st_Start (map_of (streamHeap s') j) = map_option st_Start (map_of (streamHeap s) j))"
proof -
  obtain st where st: "map_of (streamHeap s) i = Some st"
    using close by (auto simp: Stream_Close_def bind_eq_Some_conv)
  have ok: "streams_ok h s" "mwf (streamHeap s)" using tr by (auto simp: tracks_def streams_ok_def)
  have not_reg: "i \<notin> set (streams s)" if "st_closed st"
    using ok(1) st that by (auto simp: streams_ok_def stream_ok_def)
  consider "st_closed st" "s' = s"
    | "\<not> st_closed st" "i \<in> set (streams s)"
      "s' = set_stream (unregister (set_stream s i (st\<lparr>st_closed := True\<rparr>)) i) i
              (st\<lparr>st_closed := True, st_ChClosed := True\<rparr>)"
    | "\<not> st_closed st" "i \<notin> set (streams s)" "s' = set_stream s i (st\<lparr>st_closed := True\<rparr>)"
    using close st by (auto simp: Stream_Close_def Let_def split: if_splits)
  then have core': "core s' = core s" and reg: "streams s' = (if \<not> st_closed st \<and> i \<in> set (streams s)
      then filter (\<lambda>j. j \<noteq> i) (streams s) else streams s)"
    and wf: "mwf (streamHeap s')"
    and heap: "\<forall>j. map_of (streamHeap s') j =
      (if j = i then Some (st\<lparr>st_closed := True,
           st_ChClosed := st_ChClosed st \<or> \<not> st_closed st \<and> i \<in> set (streams s)\<rparr>)
       else map_of (streamHeap s) j)"
    using ok st by (cases; force)+
  have "streams_ok h s'"
    using ok(1) not_reg wf by (auto simp: streams_ok_def reg heap)
  moreover have "core s' = core (s\<lparr>nextStream := nextStream s\<rparr>)" using core' by simp
  ultimately have "tracks h s'" by (intro tracks_core [OF tr])
  with core' reg heap st show ?thesis by auto
qed

lemma stream_recv_tracks:
  assumes tr: "tracks h s" and recv: "stream_recv s i = Some (s', r)"
  shows "tracks h s' \<and> core s' = core s \<and> streams s' = streams s
    \<and> (case r of
         Received ev \<Rightarrow> \<exists>st evs. map_of (streamHeap s) i = Some st \<and> st_Ch st = ev # evs
           \<and> (\<forall>j. map_of (streamHeap s') j =
                (if j = i then Some (st\<lparr>st_Ch := evs\<rparr>) else map_of (streamHeap s) j))
       | _ \<Rightarrow> s' = s)"
proof -
  obtain st where st: "map_of (streamHeap s) i = Some st"
    using recv by (auto simp: stream_recv_def bind_eq_Some_conv)
  show ?thesis
  proof (cases "st_Ch st")
    case Nil
    with recv st tr show ?thesis by (auto simp: stream_recv_def)
  next
    case (Cons ev evs)
    then have s': "s' = set_stream s i (st\<lparr>st_Ch := evs\<rparr>)" "r = Received ev"
      using recv st by (auto simp: stream_recv_def)
    have ok: "streams_ok h s" using tr by (simp add: tracks_def)
    have "stream_ok h (st\<lparr>st_Ch := evs\<rparr>)" if "stream_ok h st"
      using that Cons by (auto simp: stream_ok_def dest: suffix_ConsD)
    with ok st have "streams_ok h s'" by (auto simp: streams_ok_def s')
    moreover have "core s' = core (s\<lparr>nextStream := nextStream s\<rparr>)" by (simp add: s')
    ultimately have "tracks h s'" by (intro tracks_core [OF tr])
    with Cons st show ?thesis by (auto simp: s')
  qed
qed

section \<open>Runs of the store\<close>

text \<open>
  A run keeps, next to the store, the history of its writes and, for every stream opened
  inside the retained window of the log, the events its subscriber has received. The bound
  \<open>2 ^ 62\<close> on the number of writes stands for "the revision counter does not reach the sign
  bit of \<^verbatim>\<open>int\<close>".
\<close>

record srun =
  hist :: "Event list"
  sto :: Store
  got :: "uint64 \<Rightarrow> Event list option"

definition max_writes :: nat where "max_writes = 2 ^ 62"

inductive store_step :: "srun \<Rightarrow> srun \<Rightarrow> bool" where
  put: "Put (sto r) k (Some b) = Some (s', Inr rv) \<Longrightarrow> length (hist r) < max_writes \<Longrightarrow>
    store_step r (r\<lparr>hist := hist r @ [NewPut k (Some b) rv], sto := s'\<rparr>)"
| delete: "Delete (sto r) k = Some (s', Inr rv) \<Longrightarrow> length (hist r) < max_writes \<Longrightarrow>
    store_step r (r\<lparr>hist := hist r @ [NewDelete k rv], sto := s'\<rparr>)"
| open_window: "OpenStream (sto r) rv = Some (s', Inr i) \<Longrightarrow> logStart (sto r) \<le> rv \<Longrightarrow>
    store_step r (r\<lparr>sto := s', got := (got r)(i := Some [])\<rparr>)"
| open_below: "OpenStream (sto r) rv = Some (s', Inr i) \<Longrightarrow> \<not> logStart (sto r) \<le> rv \<Longrightarrow>
    store_step r (r\<lparr>sto := s', got := (got r)(i := None)\<rparr>)"
| open_refused: "OpenStream (sto r) rv = Some (s', Inl e) \<Longrightarrow>
    store_step r (r\<lparr>sto := s',
      got := (if s' = sto r then got r else (got r)(nextStream (sto r) + 1 := None))\<rparr>)"
| open_live: "OpenLiveStream (sto r) = (s', i) \<Longrightarrow>
    store_step r (r\<lparr>sto := s', got := (got r)(i := Some [])\<rparr>)"
| receive: "stream_recv (sto r) i = Some (s', Received ev) \<Longrightarrow>
    store_step r (r\<lparr>sto := s', got := (got r)(i := map_option (\<lambda>g. g @ [ev]) (got r i))\<rparr>)"
| close_stream: "Stream_Close (sto r) i = Some s' \<Longrightarrow> store_step r (r\<lparr>sto := s'\<rparr>)"
| begin_read: "BeginRead (sto r) rv = (s', res) \<Longrightarrow> store_step r (r\<lparr>sto := s'\<rparr>)"
| end_read: "Reader_Close rd (sto r) = (rd', s') \<Longrightarrow> store_step r (r\<lparr>sto := s'\<rparr>)"
| reclaim: "Reclaim (sto r) b = (s', n) \<Longrightarrow> Suc (unat b) < 2 ^ 63 \<Longrightarrow>
    store_step r (r\<lparr>sto := s'\<rparr>)"

definition store_start :: "srun \<Rightarrow> bool" where
  "store_start r \<longleftrightarrow> hist r = [] \<and> (\<exists>cap < 2 ^ 63. sto r = New cap) \<and> got r = (\<lambda>_. None)"

definition delivery_ok :: "srun \<Rightarrow> bool" where
  "delivery_ok r \<longleftrightarrow> (\<forall>i g st. got r i = Some g \<longrightarrow> map_of (streamHeap (sto r)) i = Some st \<longrightarrow>
     prefix (g @ st_Ch st) (drop (unat (st_Start st)) (hist r))
     \<and> (i \<in> set (streams (sto r)) \<longrightarrow> g @ st_Ch st = drop (unat (st_Start st)) (hist r)))"

definition store_inv :: "srun \<Rightarrow> bool" where
  "store_inv r \<longleftrightarrow> tracks (hist r) (sto r) \<and> delivery_ok r"

lemma delivery_ok_write:
  assumes del: "delivery_ok r" and tr: "tracks (hist r) (sto r)"
    and reg: "streams s' = filter (has_room (sto r)) (streams (sto r))"
    and heap: "\<forall>i. map_of (streamHeap s') i =
      (if i \<in> set (streams (sto r)) then map_option (stream_after ev) (map_of (streamHeap (sto r)) i)
       else map_of (streamHeap (sto r)) i)"
  shows "delivery_ok (r\<lparr>hist := hist r @ [ev], sto := s'\<rparr>)"
proof -
  have "prefix (g @ st_Ch st') (drop (unat (st_Start st')) (hist r @ [ev]))
     \<and> (i \<in> set (streams s') \<longrightarrow> g @ st_Ch st' = drop (unat (st_Start st')) (hist r @ [ev]))"
    if g: "got r i = Some g" and st': "map_of (streamHeap s') i = Some st'" for i g st'
  proof (cases "i \<in> set (streams (sto r))")
    case False
    then have "map_of (streamHeap (sto r)) i = Some st'" using st' heap by simp
    then have "prefix (g @ st_Ch st') (drop (unat (st_Start st')) (hist r))"
      using del g by (simp add: delivery_ok_def)
    then show ?thesis using False by (auto simp: reg prefix_def)
  next
    case True
    then obtain st where st: "map_of (streamHeap (sto r)) i = Some st" "st' = stream_after ev st"
      using st' heap by auto
    have eq: "g @ st_Ch st = drop (unat (st_Start st)) (hist r)"
      using del g st(1) True by (simp add: delivery_ok_def)
    have le: "unat (st_Start st) \<le> length (hist r)"
      using tr True st(1) by (auto simp: tracks_def streams_ok_def stream_ok_def)
    show ?thesis
    proof (cases "length (st_Ch st) < streamBuffer")
      case True
      then show ?thesis using eq le by (simp add: st(2) stream_after_def)
    next
      case False
      then have "i \<notin> set (streams s')" using st(1) by (simp add: reg has_room_def)
      then show ?thesis
        using False eq le by (simp add: st(2) stream_after_def closeLocked_def)
    qed
  qed
  then show ?thesis by (simp add: delivery_ok_def)
qed

lemma delivery_ok_opened:
  assumes "delivery_ok r" and "streams s' = filter (\<lambda>j. j \<noteq> i) (streams (sto r)) @ [i]"
    and "\<forall>j. map_of (streamHeap s') j = (if j = i then Some st else map_of (streamHeap (sto r)) j)"
    and "g = None \<or> g = Some [] \<and> st_Ch st = drop (unat (st_Start st)) (hist r)"
  shows "delivery_ok (r\<lparr>sto := s', got := (got r)(i := g)\<rparr>)"
  using assms by (auto simp: delivery_ok_def)

lemma delivery_ok_same:
  assumes "delivery_ok r" and "set (streams s') \<subseteq> set (streams (sto r))"
    and "\<forall>j. map_option st_Ch (map_of (streamHeap s') j) = map_option st_Ch (map_of (streamHeap (sto r)) j)
       \<and> map_option st_Start (map_of (streamHeap s') j) = map_option st_Start (map_of (streamHeap (sto r)) j)"
  shows "delivery_ok (r\<lparr>sto := s'\<rparr>)"
proof -
  have "\<exists>st. map_of (streamHeap (sto r)) i = Some st \<and> st_Ch st = st_Ch st' \<and> st_Start st = st_Start st'"
    if "map_of (streamHeap s') i = Some st'" for i st'
    using that spec [OF assms(3), of i] by (auto simp: map_option_case split: option.splits)
  with assms(1,2) show ?thesis unfolding delivery_ok_def by fastforce
qed

lemma store_invD:
  assumes "store_inv r"
  shows "tracks (hist r) (sto r)" "delivery_ok r"
  using assms by (simp_all add: store_inv_def)

text \<open>What the kinds of steps do to the invariant: writing, opening a stream, refusing one, receiving.\<close>

lemma store_inv_write:
  assumes inv: "store_inv r" and "tracks (hist r @ [ev]) s'"
    and "streams s' = filter (has_room (sto r)) (streams (sto r))"
    and "\<forall>i. map_of (streamHeap s') i =
         (if i \<in> set (streams (sto r)) then map_option (stream_after ev) (map_of (streamHeap (sto r)) i)
          else map_of (streamHeap (sto r)) i)"
  shows "store_inv (r\<lparr>hist := hist r @ [ev], sto := s'\<rparr>)"
  using delivery_ok_write [OF store_invD(2,1) [OF inv] assms(3,4)] inv assms(2) by (simp add: store_inv_def)

lemma opened_in_window:
  assumes "tracks h s" and "OpenStream s rv = Some (s', Inr i)"
  shows "rv \<le> head s" "length (stream_events h s rv) \<le> streamBuffer"
  using assms(2) OpenStream_refused [of s rv] OpenStream_overflows [OF assms(1), of rv]
  by (auto simp: not_less [symmetric])

lemma store_inv_refused:
  assumes inv: "store_inv r" and refused: "OpenStream (sto r) rv = Some (s', Inl e)"
  shows "store_inv (r\<lparr>sto := s', got := (if s' = sto r then got r else (got r)(nextStream (sto r) + 1 := None))\<rparr>)"
proof (cases "head (sto r) < rv")
  case True
  with refused OpenStream_refused [OF True] have "s' = sto r" by simp
  with inv show ?thesis by simp
next
  case False
  then have le: "rv \<le> head (sto r)" by simp
  note tr = store_invD(1) [OF inv]
  have "\<not> length (stream_events (hist r) (sto r) rv) \<le> streamBuffer"
    using refused OpenStream_opens [OF tr le] by auto
  then obtain s2 where "s' = s2" "tracks (hist r) s'"
    "streams s' = filter (\<lambda>j. j \<noteq> nextStream (sto r) + 1) (streams (sto r))"
    "\<forall>j. j \<noteq> nextStream (sto r) + 1 \<longrightarrow> map_of (streamHeap s') j = map_of (streamHeap (sto r)) j"
    using OpenStream_overflows [OF tr le] refused by auto
  with store_invD(2) [OF inv] show ?thesis by (auto simp: store_inv_def delivery_ok_def)
qed

lemma store_inv_receive:
  assumes inv: "store_inv r" and recv: "stream_recv (sto r) i = Some (s', Received ev)"
  shows "store_inv (r\<lparr>sto := s', got := (got r)(i := map_option (\<lambda>g. g @ [ev]) (got r i))\<rparr>)"
proof -
  obtain st evs where st: "map_of (streamHeap (sto r)) i = Some st" "st_Ch st = ev # evs"
    "\<forall>j. map_of (streamHeap s') j = (if j = i then Some (st\<lparr>st_Ch := evs\<rparr>) else map_of (streamHeap (sto r)) j)"
    and "tracks (hist r) s'" "streams s' = streams (sto r)"
    using stream_recv_tracks [OF store_invD(1) [OF inv] recv] by auto
  moreover have "prefix (g @ ev # evs) (drop (unat (st_Start st)) (hist r))
     \<and> (i \<in> set (streams (sto r)) \<longrightarrow> g @ ev # evs = drop (unat (st_Start st)) (hist r))"
    if "got r i = Some g" for g
    using store_invD(2) [OF inv] that st(1) unfolding delivery_ok_def st(2) [symmetric] by blast
  ultimately show ?thesis
    using store_invD(2) [OF inv] by (auto simp: store_inv_def delivery_ok_def)
qed

lemma store_inv_same_streams:
  assumes "store_inv r" and "tracks (hist r) s'"
    and "streams s' = streams (sto r)" and "streamHeap s' = streamHeap (sto r)"
  shows "store_inv (r\<lparr>sto := s'\<rparr>)"
  using assms delivery_ok_same [OF store_invD(2) [OF assms(1)], of s'] by (simp add: store_inv_def)

lemma store_step_inv:
  assumes inv: "store_inv r" and step: "store_step r r'"
  shows "store_inv r'"
proof -
  note tr = store_invD(1) [OF inv] and del = store_invD(2) [OF inv]
  have room: "Suc (length (hist r)) < 2 ^ 63" if "length (hist r) < max_writes"
    using that by (simp add: max_writes_def)
  from step show ?thesis
  proof cases
    case (put k b s' rv)
    with Put_refines [OF tr room [OF put(3)], of k b] show ?thesis by (auto intro: store_inv_write [OF inv])
  next
    case (delete k s' rv)
    with Delete_refines [OF tr room [OF delete(3)], of k] show ?thesis by (auto intro: store_inv_write [OF inv])
  next
    case (open_window rv s' i)
    note win = opened_in_window [OF tr open_window(2)]
    have "stream_start (sto r) rv = rv" "stream_events (hist r) (sto r) rv = drop (unat rv) (hist r)"
      using open_window(3) by (simp_all add: stream_start_cases [OF tr win(1)] stream_events_def)
    with OpenStream_opens [OF tr win] open_window delivery_ok_opened [OF del]
    show ?thesis by (fastforce simp: store_inv_def fresh_stream_def)
  next
    case (open_below rv s' i)
    with OpenStream_opens [OF tr opened_in_window [OF tr open_below(2)]] delivery_ok_opened [OF del]
    show ?thesis by (fastforce simp: store_inv_def)
  next
    case (open_refused rv s' e)
    then show ?thesis using store_inv_refused [OF inv] by simp
  next
    case (open_live s' i)
    with OpenLiveStream_tracks [OF tr] delivery_ok_opened [OF del] tr show ?thesis
      by (fastforce simp: store_inv_def fresh_stream_def tracks_def)
  next
    case (receive i s' ev)
    then show ?thesis using store_inv_receive [OF inv] by simp
  next
    case (close_stream i s')
    with Stream_Close_tracks [OF tr] delivery_ok_same [OF del] show ?thesis by (simp add: store_inv_def)
  next
    case (begin_read rv s' res)
    then have "s' = fst (BeginRead (sto r) rv)" by simp
    with inv begin_read(1) BeginRead_tracks [OF tr, of rv] show ?thesis
      by (auto intro!: store_inv_same_streams [OF inv] simp: BeginRead_def Let_def)
  next
    case (end_read rd rd' s')
    then have "s' = snd (Reader_Close rd (sto r))" by simp
    with inv end_read(1) Reader_Close_tracks [OF tr, of rd] show ?thesis
      by (auto intro!: store_inv_same_streams [OF inv] simp: Reader_Close_def)
  next
    case (reclaim b s' n)
    then have "s' = fst (Reclaim (sto r) b)" by simp
    with Reclaim_tracks [OF tr reclaim(3)] reclaim(1) delivery_ok_same [OF del] show ?thesis
      by (simp add: store_inv_def)
  qed
qed

lemma store_start_inv: "store_start r \<Longrightarrow> store_inv r"
  by (auto simp: store_start_def store_inv_def delivery_ok_def tracks_New)

interpretation runs: invariant_system store_start store_step store_inv
  by unfold_locales (auto intro: store_start_inv store_step_inv)

end
