(* ===== verification/StoreTheorems.thy ===== *)
theory StoreTheorems
  imports StoreRuns
begin

text \<open>
  The properties of the store: what each operation does to the history that the store
  represents, what the reads see of it, and where the code falls short of what it promises.
\<close>

section \<open>Lock states\<close>

lemma NUL_notin_Itoa: "0 \<le> x \<Longrightarrow> NUL \<notin> set (Itoa x)"
  using set_decimal [of NUL "nat x"] by (auto simp: Itoa_def NUL_def)

lemma Itoa_byte: "Atoi (Itoa (uint (b :: uint8))) = Some (uint b)"
proof (rule Atoi_Itoa)
  show "uint b < 2 ^ 63"
    using uint_lt2p [of b] by (rule order_less_le_trans) simp
qed simp

text \<open>The three fields come back exactly when neither string has the separator in it.\<close>

lemma SplitN_payload:
  assumes "NUL \<notin> set ho" "NUL \<notin> set le"
  shows "SplitN NUL 3 (ho @ NUL # le @ NUL # st) = [ho, le, st]"
  using SplitN_field [OF assms(1), of 1] SplitN_field [OF assms(2), of 0]
  by (simp add: eval_nat_numeral del: SplitN.simps(3))

lemma SplitN_payload_NUL:
  assumes "NUL \<in> set ho \<or> NUL \<in> set le"
  shows "SplitN NUL 3 (ho @ NUL # le @ NUL # st) ! 0 \<noteq> ho
    \<or> SplitN NUL 3 (ho @ NUL # le @ NUL # st) ! 1 \<noteq> le"
proof (cases "NUL \<in> set ho")
  case True
  then obtain a b where ho: "ho = a @ NUL # b" "NUL \<notin> set a"
    by (meson split_list_first)
  have "SplitN NUL 3 (a @ NUL # (b @ NUL # le @ NUL # st)) ! 0 = a"
    using SplitN_field [OF ho(2), of 1 "b @ NUL # le @ NUL # st"]
    by (simp add: eval_nat_numeral del: SplitN.simps(3))
  then show ?thesis by (auto simp: ho(1) simp del: SplitN.simps)
next
  case False
  with assms obtain a b where le: "le = a @ NUL # b" "NUL \<notin> set a"
    by (meson split_list_first)
  have "SplitN NUL 3 (ho @ NUL # (a @ NUL # (b @ NUL # st))) ! 1 = a"
    using SplitN_field [OF False, of 1] SplitN_field [OF le(2), of 0]
    by (simp add: eval_nat_numeral del: SplitN.simps(3))
  then show ?thesis by (auto simp: le(1) simp del: SplitN.simps)
qed

lemma LockState_byte_int: "LockState_of_byte (of_int (uint (b :: uint8))) = LockState_of_byte b"
  by simp

lemma GetLockState_payload:
  assumes "Get s (lockKey i) = Some (Some (lock_payload r), rv)"
    and named: "LockState_of_byte (byte_of_LockState (ls_State r)) = ls_State r"
  shows "GetLockState s i = Some (r\<lparr>ls_ID := i, ls_Rev := rv\<rparr>) \<longleftrightarrow>
    NUL \<notin> set (ls_Holder r) \<and> NUL \<notin> set (ls_Lease r)"
proof (cases "NUL \<in> set (ls_Holder r) \<or> NUL \<in> set (ls_Lease r)")
  case True
  have "ls_Holder r' \<noteq> ls_Holder r \<or> ls_Lease r' \<noteq> ls_Lease r" if "GetLockState s i = Some r'" for r'
    using that assms(1) SplitN_payload_NUL [OF True]
    by (auto simp: GetLockState_def Let_def lock_payload_def split: if_splits option.splits)
  with True show ?thesis by fastforce
next
  case False
  then show ?thesis
    using assms
    by (cases r) (simp add: GetLockState_def lock_payload_def SplitN_payload Itoa_byte Let_def)
qed

lemma tracks_New16: "tracks [] (New 16)"
  by (rule tracks_New) simp

lemma head_New [simp]: "head (New cap) = 0"
  by (simp add: New_def)

section \<open>More on histories and reclaiming\<close>

lemma drop_revs:
  assumes "wf_history h" and "e \<in> set (drop (unat r) h)"
  shows "r < ev_Rev e"
proof -
  obtain j where j: "j < length h - unat r" "e = h ! (unat r + j)"
    using assms(2) by (auto simp: in_set_conv_nth)
  then show ?thesis
    using wf_history_unat [OF assms(1), of "unat r + j"] by (simp add: word_less_nat_alt)
qed

lemma snapshot_row_le:
  assumes "tracks h s" and "map_of (snapshotLocked s r) k = Some vv"
  shows "vv_Rev vv \<le> r"
proof -
  obtain v where "spec_at h k r = Some v" "vv = version_view v"
    using snapshot_sound [OF assms] by blast
  then show ?thesis by (auto simp: spec_at_def version_view_def dest!: last_opt_SomeD)
qed

lemma wf_history_inj:
  assumes "wf_history h" and "e \<in> set h" "e' \<in> set h" "ev_Rev e = ev_Rev e'"
  shows "e = e'"
proof -
  obtain i j where ij: "i < length h" "e = h ! i" "j < length h" "e' = h ! j"
    using assms(2,3) unfolding in_set_conv_nth by blast
  have "unat (ev_Rev e) = Suc i" "unat (ev_Rev e') = Suc j"
    unfolding ij using wf_history_unat [OF assms(1)] ij(1,3) by blast+
  with assms(4) ij(2,4) show ?thesis by simp
qed

lemma spec_at_event:
  assumes "spec_at h k r = Some v"
  shows "\<exists>e. e \<in> set h \<and> ev_Key e = k \<and> ev_Rev e = ver_rev v"
proof -
  have "v \<in> set (versions_of h k)"
    using last_opt_SomeD [OF assms [unfolded spec_at_def]] by simp
  then show ?thesis by (auto simp: versions_of_def)
qed

definition version_count :: "Store \<Rightarrow> int" where
  "version_count s = (\<Sum>(k, vs) \<leftarrow> records s. int (length vs))"

lemma reclaim_records_count:
  "\<forall>(k, vs) \<in> set m. sorted (map ver_rev vs) \<Longrightarrow> snd (reclaim_records b f m) =
     (\<Sum>(k, vs) \<leftarrow> m. int (length vs)) - (\<Sum>(k, vs) \<leftarrow> fst (reclaim_records b f m). int (length vs))"
proof (induction m)
  case (Cons p m)
  obtain k vs where p: "p = (k, vs)" by (cases p)
  with Cons reclaim_versions_sorted [of vs b f] show ?case
    by (auto simp: split_beta Let_def)
qed simp

lemma Reclaim_count:
  assumes "tracks h s"
  shows "snd (Reclaim s b) = version_count s - version_count (fst (Reclaim s b))"
proof -
  have "sorted (map ver_rev vs)" if "(k, vs) \<in> set (records s)" for k vs
  proof -
    have "map_of (records s) k = Some vs"
      using assms that by (simp add: tracks_def records_ok_def mwf_in_iff)
    then show ?thesis using recs_of_sorted [OF assms, of k] by (simp add: recs_of_def)
  qed
  then have "snd (reclaim_records b (minActiveRevLocked s) (records s)) =
     (\<Sum>(k, vs) \<leftarrow> records s. int (length vs)) -
     (\<Sum>(k, vs) \<leftarrow> fst (reclaim_records b (minActiveRevLocked s) (records s)). int (length vs))"
    by (intro reclaim_records_count) auto
  moreover have "snd (Reclaim s b) = snd (reclaim_records b (minActiveRevLocked s) (records s))"
    by (simp add: Reclaim_def split_beta Let_def minActiveRevLocked_def)
  ultimately show ?thesis by (simp add: version_count_def)
qed

text \<open>A store after \<open>n\<close> writes of one key, for the witnesses.\<close>

fun fill :: "nat \<Rightarrow> Store \<Rightarrow> Store" where
  "fill 0 s = s"
| "fill (Suc n) s = (case Put (fill n s) ''k'' (Some ''v'') of None \<Rightarrow> s | Some (s', _) \<Rightarrow> s')"

lemma fill_tracks:
  assumes "tracks h s" and "length h + n < 2 ^ 63"
  shows "\<exists>h'. tracks h' (fill n s) \<and> length h' = length h + n"
  using assms(2)
proof (induction n)
  case 0
  then show ?case using assms(1) by auto
next
  case (Suc n)
  then obtain h' where h': "tracks h' (fill n s)" "length h' = length h + n" by auto
  with Suc.prems Put_refines [OF h'(1), of "''k''" "''v''"] show ?case by fastforce
qed

section \<open>Properties\<close>

text \<open>C1: A write never panics below revision \<open>2 ^ 63\<close>: it takes the next revision and appends
  exactly one event to the history, whatever was reclaimed or streamed before; a nil value is
  refused and changes nothing.\<close>

theorem store_write_refines:
  assumes "tracks h s" and "Suc (length h) < 2 ^ 63"
  shows "(\<exists>s'. Put s k (Some b) = Some (s', Inr (head s + 1))
            \<and> tracks (h @ [NewPut k (Some b) (head s + 1)]) s')
    \<and> (\<exists>s'. Delete s k = Some (s', Inr (head s + 1)) \<and> tracks (h @ [NewDelete k (head s + 1)]) s')
    \<and> Put s k None = Some (s, Inl ErrNilValue)"
proof (intro conjI)
  show "\<exists>s'. Put s k (Some b) = Some (s', Inr (head s + 1))
      \<and> tracks (h @ [NewPut k (Some b) (head s + 1)]) s'"
    using Put_refines [OF assms] by blast
  show "\<exists>s'. Delete s k = Some (s', Inr (head s + 1)) \<and> tracks (h @ [NewDelete k (head s + 1)]) s'"
    using Delete_refines [OF assms] by blast
qed (simp add: Put_def)

theorem store_write_refines_witness:
  "\<exists>s'. Put (New 16) ''a'' (Some ''x'') = Some (s', Inr 1) \<and> tracks [NewPut ''a'' (Some ''x'') 1] s'"
proof -
  have "Suc (length ([] :: Event list)) < 2 ^ 63" by simp
  from store_write_refines [OF tracks_New16 this, of "''a''" "''x''"] show ?thesis by simp
qed

text \<open>C18: \<open>Get\<close> answers with the newest event of the key in the history: a write is visible at
  once, under the revision it was given, and no other key changes.\<close>

theorem get_newest_write:
  assumes "tracks h s" and "Suc (length h) < 2 ^ 63"
    and "Put s k (Some b) = Some (s1, r1)" and "Delete s k = Some (s2, r2)"
  shows "Get s k' = spec_get h k'
    \<and> Get s1 k' = (if k' = k then Some (Some b, head s + 1) else Get s k')
    \<and> Get s2 k' = (if k' = k then None else Get s k')"
proof -
  have t1: "tracks (h @ [NewPut k (Some b) (head s + 1)]) s1"
    using Put_refines [OF assms(1,2), of k b] assms(3) by auto
  have t2: "tracks (h @ [NewDelete k (head s + 1)]) s2"
    using Delete_refines [OF assms(1,2), of k] assms(4) by auto
  show ?thesis
    by (simp add: Get_spec [OF assms(1)] Get_spec [OF t1] Get_spec [OF t2])
qed

theorem get_newest_write_witness:
  "\<exists>s1. Put (New 16) ''a'' (Some ''x'') = Some (s1, Inr 1) \<and> Get s1 ''a'' = Some (Some ''x'', 1)
     \<and> Get s1 ''b'' = Get (New 16) ''b''"
proof -
  have len: "Suc (length ([] :: Event list)) < 2 ^ 63" by simp
  obtain s1 s2 where s1: "Put (New 16) ''a'' (Some ''x'') = Some (s1, Inr (head (New 16) + 1))"
    and s2: "Delete (New 16) ''a'' = Some (s2, Inr (head (New 16) + 1))"
    using Put_refines [OF tracks_New16 len] Delete_refines [OF tracks_New16 len] by blast
  have "''b'' \<noteq> ''a''" by simp
  with s1 get_newest_write [OF tracks_New16 len s1 s2] show ?thesis by simp
qed



text \<open>C15: Every store that a run of the server's operations reaches represents the history of its
  writes: no interleaving of writes, subscriptions, receives, readers and reclaims breaks it.\<close>

theorem reachable_store_tracks:
  assumes "store_start r0" and "store_step\<^sup>*\<^sup>* r0 r"
  shows "tracks (hist r) (sto r)"
  using runs.reachable_inv [OF assms] by (simp add: store_inv_def)

definition start16 :: srun where
  "start16 = \<lparr>hist = [], sto = New 16, got = (\<lambda>_. None)\<rparr>"

lemma start16_start: "store_start start16"
  by (auto simp: store_start_def start16_def intro!: exI [of _ 16])

lemma start16_put:
  "\<exists>s'. store_step start16 (start16\<lparr>hist := [NewPut ''a'' (Some ''x'') 1], sto := s'\<rparr>)"
proof -
  have "Suc (length ([] :: Event list)) < 2 ^ 63" by simp
  from Put_refines [OF tracks_New16 this, of "''a''" "''x''"]
  obtain s' where "Put (New 16) ''a'' (Some ''x'') = Some (s', Inr 1)" by auto
  then have "store_step start16 (start16\<lparr>hist := hist start16 @ [NewPut ''a'' (Some ''x'') 1], sto := s'\<rparr>)"
    by (intro store_step.put) (simp_all add: start16_def max_writes_def)
  then show ?thesis by (auto simp: start16_def)
qed

theorem reachable_store_tracks_witness:
  "\<exists>s'. store_step\<^sup>*\<^sup>* start16 (start16\<lparr>hist := [NewPut ''a'' (Some ''x'') 1], sto := s'\<rparr>)
     \<and> tracks [NewPut ''a'' (Some ''x'') 1] s'"
proof -
  obtain s' where s': "store_step start16 (start16\<lparr>hist := [NewPut ''a'' (Some ''x'') 1], sto := s'\<rparr>)"
    using start16_put by blast
  then have "store_step\<^sup>*\<^sup>* start16 (start16\<lparr>hist := [NewPut ''a'' (Some ''x'') 1], sto := s'\<rparr>)" by blast
  with reachable_store_tracks [OF start16_start this] show ?thesis by auto
qed


definition opened16 :: srun where
  "opened16 = (case OpenLiveStream (New 16) of (s', i) \<Rightarrow>
     start16\<lparr>sto := s', got := (got start16)(i := Some [])\<rparr>)"





text \<open>Below a full log's window the promise fails: the stream starts at \<open>logStart - 1\<close>, whose
  snapshot ends there, and the replay begins at \<open>logStart + 1\<close>. The event of revision
  \<open>logStart\<close> is in the history and in neither of the two.\<close>

theorem open_stream_loses_event:
  assumes "tracks h s" and "rv < logStart s" and "log_full s" and "logCap s \<le> int streamBuffer"
  shows "\<exists>s' st. OpenStream s rv = Some (s', Inr (nextStream s + 1))
    \<and> map_of (streamHeap s') (nextStream s + 1) = Some st
    \<and> (\<exists>e \<in> set h. ev_Rev e = logStart s)
    \<and> (\<forall>k vv. map_of (st_Snapshot st) k = Some vv \<longrightarrow> vv_Rev vv < logStart s)
    \<and> (\<forall>e \<in> set (st_Ch st). logStart s < ev_Rev e)"
proof -
  have wf: "wf_history h" and hd: "unat (head s) = length h"
    and sum: "int (unat (logStart s)) + logSize s = int (length h)" and cap: "16 \<le> logCap s"
    using assms(1) unfolding tracks_def ring_ok_def by blast+
  have size: "logSize s = logCap s" using assms(3) by (simp add: log_full_def)
  have "unat rv < unat (logStart s)" using assms(2) by (simp add: word_less_nat_alt)
  then obtain n where n: "unat (logStart s) = Suc n" by (cases "unat (logStart s)") auto
  have lt: "unat (logStart s) < length h" using sum size cap by linarith
  then have le: "rv \<le> head s" using \<open>unat rv < _\<close> hd by (simp add: word_le_nat_alt)
  have not_le: "\<not> logStart s \<le> rv" using assms(2) by simp
  have start: "stream_start s rv = logStart s - 1"
    and evs: "stream_events h s rv = drop (unat (logStart s)) h"
    using not_le cap size assms(3)
    by (simp_all add: stream_start_cases [OF assms(1) le] stream_events_def)
  have "length h - unat (logStart s) \<le> streamBuffer"
    using sum size assms(4) by linarith
  then have "length (stream_events h s rv) \<le> streamBuffer" by (simp add: evs)
  from OpenStream_opens [OF assms(1) le this] obtain s' where
    s': "OpenStream s rv = Some (s', Inr (nextStream s + 1))"
      "map_of (streamHeap s') (nextStream s + 1) =
         Some (fresh_stream s (logStart s - 1) (drop (unat (logStart s)) h))"
    by (auto simp: start evs)
  have "ev_Rev (h ! n) = logStart s"
    using wf_history_unat [OF wf, of n] lt n by (simp add: word_unat_eq_iff)
  moreover have "h ! n \<in> set h" using lt n by simp
  moreover have "vv_Rev vv < logStart s" if "map_of (snapshotLocked s (logStart s - 1)) k = Some vv" for k vv
  proof -
    have "vv_Rev vv \<le> logStart s - 1" by (rule snapshot_row_le [OF assms(1) that])
    moreover have "unat (logStart s - 1) = n" using n by (subst unat_minus1) auto
    ultimately show ?thesis using n by (simp add: word_le_nat_alt word_less_nat_alt)
  qed
  moreover have "logStart s < ev_Rev e" if "e \<in> set (drop (unat (logStart s)) h)" for e
    by (rule drop_revs [OF wf that])
  ultimately show ?thesis using s' by (auto simp: fresh_stream_def)
qed

theorem open_stream_loses_event_witness:
  "\<exists>s' st. OpenStream (fill 17 (New 16)) 0 = Some (s', Inr 1)
    \<and> map_of (streamHeap s') 1 = Some st \<and> (\<forall>e \<in> set (st_Ch st). 1 < ev_Rev e)"
proof -
  obtain h where tr: "tracks h (fill 17 (New 16))"
    using fill_tracks [OF tracks_New16, of 17] by auto
  have eval: "logStart (fill 17 (New 16)) = 1 \<and> log_full (fill 17 (New 16))
    \<and> logCap (fill 17 (New 16)) = 16 \<and> nextStream (fill 17 (New 16)) = 0"
    by code_simp
  then have "0 < logStart (fill 17 (New 16))" "log_full (fill 17 (New 16))"
    "logCap (fill 17 (New 16)) \<le> int streamBuffer"
    by (simp_all add: streamBuffer_def)
  from open_stream_loses_event [OF tr this] eval show ?thesis by auto
qed

text \<open>A read transaction answers for a key only when the key was written by exactly the
  pinned revision, and then with that version: at most one key of the whole store is readable,
  although the newest version at or below the pinned revision is promised.\<close>

theorem GetAt_only_exact_revision:
  assumes "tracks h s" and "BeginRead s rv = (s', Inr r)"
  shows "(GetAt r s' k = Inr vv \<longleftrightarrow>
      (\<exists>v. spec_at h k rv = Some v \<and> ver_rev v = rv \<and> v \<in> set (recs_of s k) \<and> vv = version_view v))
    \<and> (GetAt r s' k = Inr vv \<and> GetAt r s' k' = Inr vv' \<longrightarrow> k = k')"
proof -
  have r: "\<not> rd_closed r" "rd_minRev r = rd_rev r" "rd_rev r = rv" and recs: "recs_of s' k = recs_of s k" for k
    using assms(2) by (auto simp: BeginRead_def Let_def recs_of_def split: if_splits)
  have tr: "tracks h s'" using BeginRead_tracks [OF assms(1), of rv] assms(2) by simp
  let ?p = "\<lambda>v. ver_rev v \<le> rv"
  have eq: "last_opt (filter ?p (recs_of s k)) = Some v \<longleftrightarrow> spec_at h k rv = Some v \<and> v \<in> set (recs_of s k)"
    if "ver_rev v = rv" for v k
  proof -
  have sub: "suffix (filter ?p (recs_of s k)) (filter ?p (versions_of h k))"
    by (rule suffix_filter [OF recs_of_suffix [OF assms(1)]])
  show ?thesis
  proof
    assume l: "last_opt (filter ?p (recs_of s k)) = Some v"
    then have "filter ?p (recs_of s k) \<noteq> []" by (auto simp: last_opt_def split: if_splits)
    with l last_opt_suffix_ne [OF sub] last_opt_SomeD [OF l] show
      "spec_at h k rv = Some v \<and> v \<in> set (recs_of s k)" by (simp add: spec_at_def)
  next
    assume l: "spec_at h k rv = Some v \<and> v \<in> set (recs_of s k)"
    with that have "filter ?p (recs_of s k) \<noteq> []" by (auto simp: filter_empty_conv)
    with l last_opt_suffix_ne [OF sub] show "last_opt (filter ?p (recs_of s k)) = Some v"
      by (simp add: spec_at_def)
  qed
  qed
  have iff: "GetAt r s' k = Inr vv \<longleftrightarrow>
      (\<exists>v. spec_at h k rv = Some v \<and> ver_rev v = rv \<and> v \<in> set (recs_of s k) \<and> vv = version_view v)"
    for k vv
    unfolding GetAt_exact [OF tr r(1,2)] r(3) recs using eq by metis
  moreover have "k = k'" if both: "GetAt r s' k = Inr vv" "GetAt r s' k' = Inr vv'"
  proof -
    obtain v v' where v: "spec_at h k rv = Some v" "ver_rev v = rv"
        "spec_at h k' rv = Some v'" "ver_rev v' = rv"
      using both unfolding iff by blast
    obtain e where "e \<in> set h" "ev_Key e = k" "ev_Rev e = rv"
      using spec_at_event [OF v(1)] v(2) by blast
    moreover obtain e' where "e' \<in> set h" "ev_Key e' = k'" "ev_Rev e' = rv"
      using spec_at_event [OF v(3)] v(4) by blast
    moreover have "wf_history h" using assms(1) by (simp add: tracks_def)
    ultimately show ?thesis using wf_history_inj [of h e e'] by simp
  qed
  ultimately show ?thesis by blast
qed

theorem GetAt_only_exact_revision_witness:
  "\<exists>s r. BeginRead (fill 2 (New 16)) 1 = (s, Inr r)
     \<and> (GetAt r s ''k'' = Inr \<lparr>vv_Value = Some ''v'', vv_Rev = 1, vv_Deleted = False\<rparr>)
     \<and> (\<forall>vv. GetAt r s ''z'' \<noteq> Inr vv)"
proof -
  obtain h where tr: "tracks h (fill 2 (New 16))"
    using fill_tracks [OF tracks_New16, of 2] by auto
  obtain s r where r: "BeginRead (fill 2 (New 16)) 1 = (s, Inr r)"
    and "GetAt r s ''k'' = Inr \<lparr>vv_Value = Some ''v'', vv_Rev = 1, vv_Deleted = False\<rparr>"
  proof -
    have "(case BeginRead (fill 2 (New 16)) 1 of (s, Inr r) \<Rightarrow>
        GetAt r s ''k'' = Inr \<lparr>vv_Value = Some ''v'', vv_Rev = 1, vv_Deleted = False\<rparr> | _ \<Rightarrow> False)"
      by code_simp
    then show thesis by (auto split: prod.splits sum.splits intro: that)
  qed
  moreover have "recs_of (fill 2 (New 16)) ''z'' = []" by code_simp
  then have "GetAt r s ''z'' \<noteq> Inr vv" for vv
    using GetAt_only_exact_revision [OF tr r, of "''z''"] by simp
  ultimately show ?thesis by blast
qed


text \<open>C17: Reclaiming up to a revision moves the log window, never loses the newest version of a
  key, never changes what an open read transaction successfully reads, reports how many
  versions it removed, and leaves a store that still represents the same history.\<close>

theorem reclaim_safe:
  assumes "tracks h s" and "Suc (unat b) < 2 ^ 63" and "Reclaim s b = (s', n)"
  shows "tracks h s' \<and> n = version_count s - version_count s' \<and> 0 \<le> n
    \<and> (\<forall>k. Get s' k = Get s k)
    \<and> (\<forall>i r k vv. map_of (readers s) i = Some r \<and> GetAt r s k = Inr vv \<longrightarrow> GetAt r s' k = Inr vv)
    \<and> unat (logStart s') = max (unat (logStart s)) (min (Suc (unat b)) (length h))"
proof -
  have s': "s' = fst (Reclaim s b)" and n: "n = snd (Reclaim s b)" using assms(3) by simp_all
  have "ring_ok h s" "length h < 2 ^ 63" using assms(1) by (auto simp: tracks_def wf_history_def)
  note window = Reclaim_window [OF this assms(2), THEN conjunct1]
  have "0 \<le> snd (reclaim_versions b f vs)" for f vs
    by (induction vs) (auto simp: split_beta Let_def)
  then have "0 \<le> snd (reclaim_records b f m)" for f m
    by (induction m) (auto simp: split_beta Let_def)
  then have "0 \<le> n" by (simp add: n Reclaim_def split_beta Let_def)
  then show ?thesis
    using Reclaim_tracks [OF assms(1,2)] Reclaim_Get [OF assms(1,2)]
      Reclaim_keeps_reads [OF assms(1,2)] Reclaim_count [OF assms(1), of b] window
    unfolding s' n by (auto simp del: Reclaim_sel(10))
qed

theorem reclaim_safe_witness:
  "\<exists>s' n. Reclaim (fill 3 (New 16)) 2 = (s', n) \<and> n = 2 \<and> Get s' ''k'' = Get (fill 3 (New 16)) ''k''"
proof -
  obtain h where tr: "tracks h (fill 3 (New 16))"
    using fill_tracks [OF tracks_New16, of 3] by auto
  obtain s' n where r: "Reclaim (fill 3 (New 16)) 2 = (s', n)" by fastforce
  have "snd (Reclaim (fill 3 (New 16)) 2) = 2" by code_simp
  with r reclaim_safe [OF tr _ r] show ?thesis by simp
qed

definition aba :: Store where
  "aba = (case Put (New 16) ''a'' (Some ''1'') of Some (s1, _) \<Rightarrow>
     (case Put s1 ''b'' (Some ''2'') of Some (s2, _) \<Rightarrow>
       (case Put s2 ''a'' (Some ''3'') of Some (s3, _) \<Rightarrow> s3)))"

text \<open>Reclaiming does break point-in-time reads above its bound: after \<open>a\<close>, \<open>b\<close>, \<open>a\<close> are
  written and versions at or below revision 1 are reclaimed, the snapshot at revision 2 has
  lost \<open>a\<close>, whose version 1 it showed before.\<close>

theorem reclaim_breaks_snapshot:
  "map_of (Snapshot aba 2) ''a'' = Some \<lparr>vv_Value = Some ''1'', vv_Rev = 1, vv_Deleted = False\<rparr>
   \<and> map_of (Snapshot (fst (Reclaim aba 1)) 2) ''a'' = None
   \<and> map_of (Snapshot (fst (Reclaim aba 1)) 2) ''b'' \<noteq> None"
  by code_simp

text \<open>A subscriber that falls behind by a full buffer is dropped without notice: the write
  succeeds and unregisters the stream, but its channel is never closed, not even when the
  subscriber closes the stream afterwards, so after the buffered events it waits forever.\<close>

theorem slow_subscriber_dropped_silently:
  assumes "tracks h s" and "Suc (length h) < 2 ^ 63" and "i \<in> set (streams s)"
    and "map_of (streamHeap s) i = Some st" and "length (st_Ch st) = streamBuffer"
  shows "\<exists>s' st'. Put s k (Some b) = Some (s', Inr (head s + 1)) \<and> i \<notin> set (streams s')
    \<and> map_of (streamHeap s') i = Some st' \<and> st_Ch st' = st_Ch st
    \<and> st_closed st' \<and> \<not> st_ChClosed st' \<and> Stream_Close s' i = Some s'"
proof -
  obtain s' where s': "Put s k (Some b) = Some (s', Inr (head s + 1))"
    "streams s' = filter (has_room s) (streams s)"
    "\<forall>j. map_of (streamHeap s') j =
       (if j \<in> set (streams s)
        then map_option (stream_after (NewPut k (Some b) (head s + 1))) (map_of (streamHeap s) j)
        else map_of (streamHeap s) j)"
    using Put_refines [OF assms(1,2), of k b] by blast
  have "\<not> st_closed st" "\<not> st_ChClosed st"
    using assms(1,3,4) by (auto simp: tracks_def streams_ok_def stream_ok_def)
  moreover have "i \<notin> set (streams s')" using assms(4,5) by (simp add: s'(2) has_room_def)
  moreover have "map_of (streamHeap s') i = Some (st\<lparr>st_closed := True\<rparr>)"
    using s'(3) assms(3-5) calculation(1) by (simp add: stream_after_def closeLocked_def)
  ultimately show ?thesis
    using s'(1) by (auto simp: Stream_Close_def)
qed

lemma fill_stream:
  assumes "tracks h s" and "1 \<in> set (streams s)" and "map_of (streamHeap s) 1 = Some st"
    and "st_Ch st = []"
  shows "n \<le> streamBuffer \<Longrightarrow> length h + n < 2 ^ 63 \<Longrightarrow> \<exists>h' st'. tracks h' (fill n s)
     \<and> length h' = length h + n \<and> 1 \<in> set (streams (fill n s))
     \<and> map_of (streamHeap (fill n s)) 1 = Some st' \<and> length (st_Ch st') = n"
proof (induction n)
  case 0
  then show ?case using assms by auto
next
  case (Suc n)
  then obtain h' st' where st': "tracks h' (fill n s)" "length h' = length h + n"
    "1 \<in> set (streams (fill n s))" "map_of (streamHeap (fill n s)) 1 = Some st'"
    "length (st_Ch st') = n" by auto
  obtain s' where "Put (fill n s) ''k'' (Some ''v'') = Some (s', Inr (head (fill n s) + 1))"
    "tracks (h' @ [NewPut ''k'' (Some ''v'') (head (fill n s) + 1)]) s'"
    "streams s' = filter (has_room (fill n s)) (streams (fill n s))"
    "map_of (streamHeap s') 1 = Some (stream_after (NewPut ''k'' (Some ''v'') (head (fill n s) + 1)) st')"
    using Put_refines [OF st'(1), of "''k''" "''v''"] st'(2-4) Suc.prems(2) by auto
  with st' Suc.prems show ?case
    by (intro exI [of _ "h' @ [_]"]) (auto simp: stream_after_def has_room_def)
qed

theorem slow_subscriber_dropped_silently_witness:
  "\<exists>s st s'. length (st_Ch st) = 512 \<and> map_of (streamHeap s) 1 = Some st
     \<and> Put s ''k'' (Some ''w'') = Some (s', Inr (head s + 1))
     \<and> 1 \<in> set (streams s) \<and> 1 \<notin> set (streams s')"
proof -
  obtain s0 where "tracks [] s0" "1 \<in> set (streams s0)"
    "map_of (streamHeap s0) 1 = Some (fresh_stream (New 16) 0 [])"
    using OpenLiveStream_tracks [OF tracks_New16] by (auto simp: New_def)
  from fill_stream [OF this, of streamBuffer] obtain h st where
    st: "tracks h (fill streamBuffer s0)" "length h = streamBuffer"
      "1 \<in> set (streams (fill streamBuffer s0))"
      "map_of (streamHeap (fill streamBuffer s0)) 1 = Some st" "length (st_Ch st) = streamBuffer"
    by (auto simp: fresh_stream_def streamBuffer_def)
  have "Suc (length h) < 2 ^ 63" by (simp add: st(2) streamBuffer_def)
  from slow_subscriber_dropped_silently [OF st(1) this st(3-5), of "''k''" "''w''"]
  obtain s' where "Put (fill streamBuffer s0) ''k'' (Some ''w'') = Some (s', Inr (head (fill streamBuffer s0) + 1))"
    "1 \<notin> set (streams s')" by blast
  with st(3-5) show ?thesis
    by (intro exI [of _ "fill streamBuffer s0"] exI [of _ st] exI [of _ s']) (simp add: streamBuffer_def)
qed

text \<open>C26: The state of a lock that is written to the store reads back unchanged, under the
  revision of the write, exactly when neither the holder nor the lease has the separator byte
  in it; with one in the name the record comes back altered or not at all.\<close>

theorem lock_state_roundtrip:
  assumes "tracks h s" and "Suc (length h) < 2 ^ 63" and "named_LockState (ls_State r)"
    and "PutLockState s i r = Some (s', res)"
  shows "GetLockState s' i = Some (r\<lparr>ls_ID := i, ls_Rev := head s + 1\<rparr>) \<longleftrightarrow>
    NUL \<notin> set (ls_Holder r) \<and> NUL \<notin> set (ls_Lease r)"
proof -
  have "tracks (h @ [NewPut (lockKey i) (Some (lock_payload r)) (head s + 1)]) s'"
    using Put_refines [OF assms(1,2), of "lockKey i" "lock_payload r"] assms(4)
    by (auto simp: PutLockState_def)
  then have "Get s' (lockKey i) = Some (Some (lock_payload r), head s + 1)"
    by (simp add: Get_spec)
  from GetLockState_payload [OF this LockState_of_byte_of [OF assms(3)]] show ?thesis .
qed

definition held_by_a :: LockStateRecord where
  "held_by_a = \<lparr>ls_ID = ''l'', ls_Holder = ''a'', ls_Lease = ''e'', ls_State = LockHeld, ls_Rev = 0\<rparr>"

theorem lock_state_roundtrip_witness:
  "\<exists>s' res. PutLockState (New 16) ''l'' held_by_a = Some (s', res)
     \<and> GetLockState s' ''l'' = Some (held_by_a\<lparr>ls_Rev := 1\<rparr>)"
proof -
  have len: "Suc (length ([] :: Event list)) < 2 ^ 63" by simp
  obtain s' where put: "PutLockState (New 16) ''l'' held_by_a = Some (s', Inr (head (New 16) + 1))"
    using Put_refines [OF tracks_New16 len] unfolding PutLockState_def by blast
  have "named_LockState (ls_State held_by_a)" by (simp add: named_LockState_def held_by_a_def)
  from lock_state_roundtrip [OF tracks_New16 len this put] put show ?thesis
    by (simp add: held_by_a_def NUL_def)
qed

end
