(* ===== verification/Locks.thy ===== *)
theory Locks
  imports Store
begin

text \<open>
  The lock manager of \<^verbatim>\<open>internal/lock\<close>: \<^verbatim>\<open>lock.go\<close>, \<^verbatim>\<open>queue.go\<close>, \<^verbatim>\<open>release.go\<close> and
  \<^verbatim>\<open>wakeup.go\<close>. A waiter is a heap object that the queue of an entry, the map \<^verbatim>\<open>m.waiters\<close> and
  the waiting \<^verbatim>\<open>Acquire\<close> call all point to; its address is its position in \<open>wheap\<close>, the list
  of all waiters allocated so far. The lease checker may be nil (\<open>None\<close>), the store too. The
  \<^verbatim>\<open>now\<close> arguments, which the code passes on and never reads, are left out.
\<close>

section \<open>State\<close>

datatype LockError = ErrUnlocked | ErrNotHolder | ErrTimedOut | errEntryGone

record waiter =
  w_request :: LockRequest
  w_doneClosed :: bool
  w_granted :: bool

record lockEntry =
  le_id :: LockID
  le_holder :: string
  le_holderLease :: LeaseID
  le_state :: LockState
  le_queue :: "nat list"

record LockMgr =
  locks :: "(LockID, lockEntry) gomap"
  waiters :: "(uint64, nat) gomap"
  lock_seq :: uint64
  wheap :: "waiter list"

type_synonym LeaseChecker = "LeaseID \<Rightarrow> bool"
type_synonym lock_world = "LockMgr \<times> Store option"

definition NewLockMgr :: LockMgr where
  "NewLockMgr = \<lparr>locks = [], waiters = [], lock_seq = 0, wheap = []\<rparr>"

text \<open>Assignments through the entry pointer and through a waiter pointer.\<close>

definition put_entry :: "LockMgr \<Rightarrow> lockEntry \<Rightarrow> LockMgr" where
  "put_entry m e = m\<lparr>locks := mput (le_id e) e (locks m)\<rparr>"

definition set_waiter :: "LockMgr \<Rightarrow> nat \<Rightarrow> waiter \<Rightarrow> LockMgr" where
  "set_waiter m a w = m\<lparr>wheap := (wheap m)[a := w]\<rparr>"

definition request :: "LockMgr \<Rightarrow> nat \<Rightarrow> LockRequest" where
  "request m a = w_request (wheap m ! a)"

definition set_request_state :: "LockMgr \<Rightarrow> nat \<Rightarrow> LockState \<Rightarrow> LockMgr" where
  "set_request_state m a st =
     set_waiter m a ((wheap m ! a)\<lparr>w_request := (request m a)\<lparr>rq_State := st\<rparr>\<rparr>)"

text \<open>\<^verbatim>\<open>close(w.done)\<close> panics on a closed channel.\<close>

definition close_done :: "LockMgr \<Rightarrow> nat \<Rightarrow> LockMgr option" where
  "close_done m a =
     (if w_doneClosed (wheap m ! a) then None
      else Some (set_waiter m a ((wheap m ! a)\<lparr>w_doneClosed := True\<rparr>)))"

section \<open>Persisting an entry\<close>

definition entry_record :: "lockEntry \<Rightarrow> LockStateRecord" where
  "entry_record e = \<lparr>ls_ID = le_id e, ls_Holder = le_holder e, ls_Lease = le_holderLease e,
                     ls_State = le_state e, ls_Rev = 0\<rparr>"

definition persistLocked :: "Store option \<Rightarrow> lockEntry \<Rightarrow> Store option option" where
  "persistLocked st e =
     (case st of None \<Rightarrow> Some None
      | Some s \<Rightarrow> map_option (Some \<circ> fst) (PutLockState s (le_id e) (entry_record e)))"

definition lock_removeLocked :: "lock_world \<Rightarrow> lockEntry \<Rightarrow> lock_world option" where
  "lock_removeLocked w e =
     (let (m, st) = w; m' = m\<lparr>locks := mdel (le_id e) (locks m)\<rparr>
      in case st of None \<Rightarrow> Some (m', None)
         | Some s \<Rightarrow> map_option (\<lambda>(s', _). (m', Some s')) (DeleteLockState s (le_id e)))"

section \<open>Acquiring and queueing\<close>

definition TryAcquire ::
  "lock_world \<Rightarrow> LockID \<Rightarrow> string \<Rightarrow> LeaseID \<Rightarrow> (lock_world \<times> bool \<times> LockError option) option" where
  "TryAcquire w i client leaseID =
     (let (m, st) = w;
          (m1, e) = (case map_of (locks m) i of
              Some e \<Rightarrow> (m, e)
            | None \<Rightarrow>
                let e = \<lparr>le_id = i, le_holder = [], le_holderLease = [], le_state = LockWaiting,
                         le_queue = []\<rparr>
                in (m\<lparr>locks := mput i e (locks m)\<rparr>, e))
      in if le_state e = LockHeld \<or> le_state e = LockReleasing \<or> le_state e = LockGranted
         then Some ((m1, st), False, None)
         else if le_holder e \<noteq> [] then Some ((m1, st), False, None)
         else
           let e' = e\<lparr>le_state := LockHeld, le_holder := client, le_holderLease := leaseID\<rparr>
           in do {
             st' \<leftarrow> persistLocked st e';
             Some ((put_entry m1 e', st'), True, None)
           })"

definition enqueue :: "LockMgr \<Rightarrow> LockID \<Rightarrow> string \<Rightarrow> LeaseID \<Rightarrow> LockMgr \<times> (LockError + nat)" where
  "enqueue m i client leaseID =
     (case map_of (locks m) i of
        None \<Rightarrow> (m, Inl errEntryGone)
      | Some e \<Rightarrow>
          let q = lock_seq m + 1;
              w = \<lparr>w_request = \<lparr>rq_ID = i, rq_Client = client, rq_LeaseID = leaseID, rq_Seq = q,
                                rq_State = LockWaiting\<rparr>,
                   w_doneClosed = False, w_granted = False\<rparr>;
              a = length (wheap m)
          in (put_entry (m\<lparr>lock_seq := q, waiters := mput q a (waiters m), wheap := wheap m @ [w]\<rparr>)
                (e\<lparr>le_queue := le_queue e @ [a]\<rparr>), Inr a))"

section \<open>Waking the next waiter\<close>

text \<open>
  The scan of \<^verbatim>\<open>earliestWaiter\<close>: the best waiting request so far and its index in the queue.
\<close>

fun earliest_scan :: "LockMgr \<Rightarrow> nat list \<Rightarrow> nat \<Rightarrow> (nat \<times> nat) option \<Rightarrow> (nat \<times> nat) option" where
  "earliest_scan m [] i best = best"
| "earliest_scan m (a # as) i best =
     earliest_scan m as (i + 1)
       (if rq_State (request m a) \<noteq> LockWaiting then best
        else case best of
            None \<Rightarrow> Some (a, i)
          | Some (b, _) \<Rightarrow> if rq_Seq (request m a) < rq_Seq (request m b) then Some (a, i) else best)"

definition earliestWaiter :: "LockMgr \<Rightarrow> lockEntry \<Rightarrow> lockEntry \<times> nat option" where
  "earliestWaiter m e =
     (case earliest_scan m (le_queue e) 0 None of
        None \<Rightarrow> (e, None)
      | Some (a, i) \<Rightarrow>
          (e\<lparr>le_queue := take i (le_queue e) @ drop (i + 1) (le_queue e)\<rparr>, Some a))"

definition signal :: "LockMgr \<Rightarrow> nat \<Rightarrow> LockMgr option" where
  "signal m a =
     (case map_of (waiters m) (rq_Seq (request m a)) of
        None \<Rightarrow> Some m
      | Some b \<Rightarrow>
          let m1 = m\<lparr>waiters := mdel (rq_Seq (request m a)) (waiters m)\<rparr>;
              m2 = set_waiter m1 b ((wheap m1 ! b)\<lparr>w_granted := True\<rparr>)
          in close_done m2 b)"

lemma earliest_scan_index:
  "earliest_scan m q i best = Some (a, j) \<Longrightarrow> best = Some (a, j) \<or> (i \<le> j \<and> j < i + length q)"
proof (induction q arbitrary: i best)
  case (Cons b q)
  show ?case using Cons.IH [OF Cons.prems [unfolded earliest_scan.simps]]
    by (auto split: if_splits option.splits prod.splits)
qed simp

lemma earliestWaiter_shorter:
  "earliestWaiter m e = (e', Some a) \<Longrightarrow> length (le_queue e') < length (le_queue e)"
  by (auto simp: earliestWaiter_def dest!: earliest_scan_index split: option.splits)

text \<open>The loop of \<^verbatim>\<open>wakeNext\<close>: every round takes one request off the queue.\<close>

function wakeNext :: "LeaseChecker option \<Rightarrow> lock_world \<Rightarrow> lockEntry \<Rightarrow> lock_world option" where
  "wakeNext alive (m, st) e =
     (case earliestWaiter m e of
        (e1, None) \<Rightarrow>
          let e2 = e1\<lparr>le_state := LockWaiting, le_holder := [], le_holderLease := []\<rparr>
          in do {
            st' \<leftarrow> persistLocked st e2;
            lock_removeLocked (put_entry m e2, st') e2
          }
      | (e1, Some a) \<Rightarrow>
          if alive \<noteq> None \<and> rq_LeaseID (request m a) \<noteq> [] \<and> \<not> the alive (rq_LeaseID (request m a))
          then wakeNext alive (m, st) e1
          else
            let e2 = e1\<lparr>le_state := LockHeld, le_holder := rq_Client (request m a),
                        le_holderLease := rq_LeaseID (request m a)\<rparr>;
                m1 = set_request_state (put_entry m e2) a LockGranted
            in do {
              st' \<leftarrow> persistLocked st e2;
              m2 \<leftarrow> signal m1 a;
              Some (m2, st')
            })"
  by pat_completeness auto
termination
  by (relation "measure (\<lambda>(alive, w, e). length (le_queue e))") (auto dest!: earliestWaiter_shorter [OF sym])

declare wakeNext.simps [simp del]

section \<open>Releasing and cancelling\<close>

definition releaseLocked :: "LeaseChecker option \<Rightarrow> lock_world \<Rightarrow> lockEntry \<Rightarrow> lock_world option" where
  "releaseLocked alive w e =
     (let (m, st) = w;
          e1 = e\<lparr>le_state := LockReleasing, le_holder := [], le_holderLease := []\<rparr>
      in do {
        st' \<leftarrow> persistLocked st e1;
        wakeNext alive (put_entry m e1, st') e1
      })"

definition Release ::
  "LeaseChecker option \<Rightarrow> lock_world \<Rightarrow> LockID \<Rightarrow> string \<Rightarrow> (lock_world \<times> LockError option) option" where
  "Release alive w i client =
     (case map_of (locks (fst w)) i of
        None \<Rightarrow> Some (w, Some ErrUnlocked)
      | Some e \<Rightarrow>
          if le_state e = LockWaiting then Some (w, Some ErrUnlocked)
          else if le_holder e \<noteq> client then Some (w, Some ErrNotHolder)
          else map_option (\<lambda>w'. (w', None)) (releaseLocked alive w e))"

fun release_ids :: "LeaseChecker option \<Rightarrow> LockID list \<Rightarrow> lock_world \<Rightarrow> lock_world option" where
  "release_ids alive [] w = Some w"
| "release_ids alive (i # is) w =
     (case map_of (locks (fst w)) i of
        None \<Rightarrow> release_ids alive is w
      | Some e \<Rightarrow> do {
          w' \<leftarrow> releaseLocked alive w e;
          release_ids alive is w'
        })"

definition affected :: "LeaseID \<Rightarrow> (LockID, lockEntry) gomap \<Rightarrow> LockID list" where
  "affected leaseID ls =
     map fst (filter (\<lambda>(i, e). le_holderLease e = leaseID
       \<and> (le_state e = LockHeld \<or> le_state e = LockGranted)) ls)"

definition ReleaseByLease :: "LeaseChecker option \<Rightarrow> lock_world \<Rightarrow> LeaseID \<Rightarrow> lock_world option" where
  "ReleaseByLease alive w leaseID =
     (if alive \<noteq> None \<and> \<not> the alive leaseID then Some w
      else release_ids alive (affected leaseID (locks (fst w))) w)"

text \<open>The loop of \<^verbatim>\<open>Cancel\<close> over the queue, with the requests it keeps.\<close>

fun cancel_scan :: "string \<Rightarrow> nat list \<Rightarrow> LockMgr \<Rightarrow> (LockMgr \<times> nat list) option" where
  "cancel_scan client [] m = Some (m, [])"
| "cancel_scan client (a # as) m =
     (if rq_Client (request m a) = client then
        let m1 = set_request_state m a LockCancelled
        in do {
          m2 \<leftarrow> (case map_of (waiters m1) (rq_Seq (request m1 a)) of
                   None \<Rightarrow> Some m1
                 | Some b \<Rightarrow> close_done (m1\<lparr>waiters := mdel (rq_Seq (request m1 a)) (waiters m1)\<rparr>) b);
          cancel_scan client as m2
        }
      else do {
        (m', kept) \<leftarrow> cancel_scan client as m;
        Some (m', a # kept)
      })"

definition Cancel :: "LockMgr \<Rightarrow> LockID \<Rightarrow> string \<Rightarrow> LockMgr option" where
  "Cancel m i client =
     (case map_of (locks m) i of
        None \<Rightarrow> Some m
      | Some e \<Rightarrow> do {
          (m', kept) \<leftarrow> cancel_scan client (le_queue e) m;
          Some (put_entry m' (e\<lparr>le_queue := kept\<rparr>))
        })"

definition LockSnapshot :: "LockMgr \<Rightarrow> LockStateRecord list" where
  "LockSnapshot m = map (\<lambda>(i, e). (entry_record e)\<lparr>ls_ID := i\<rparr>) (locks m)"

definition LockCount :: "LockMgr \<Rightarrow> nat" where
  "LockCount m = length (locks m)"

section \<open>The Acquire loop\<close>

text \<open>
  A call of \<^verbatim>\<open>Acquire\<close> is between two critical sections of the manager most of the time. Its
  program points: about to try, about to enqueue, in the \<^verbatim>\<open>select\<close> on its waiter, returned. In the
  \<^verbatim>\<open>select\<close> the runtime picks any ready case, so the step has two rules there.
\<close>

datatype acquire_pc = Attempt | Enqueue | WaitFor nat | Returned "LockError option"

inductive acquire_step ::
  "LockID \<Rightarrow> string \<Rightarrow> LeaseID \<Rightarrow> lock_world \<times> acquire_pc \<Rightarrow> lock_world \<times> acquire_pc \<Rightarrow> bool"
  for i client leaseID where
  attempt_failed: "TryAcquire w i client leaseID = Some (w', granted, Some err) \<Longrightarrow>
    acquire_step i client leaseID (w, Attempt) (w', Returned (Some err))"
| attempt_granted: "TryAcquire w i client leaseID = Some (w', True, None) \<Longrightarrow>
    acquire_step i client leaseID (w, Attempt) (w', Returned None)"
| attempt_busy: "TryAcquire w i client leaseID = Some (w', False, None) \<Longrightarrow>
    acquire_step i client leaseID (w, Attempt) (w', Enqueue)"
| enqueue_gone: "enqueue m i client leaseID = (m', Inl errEntryGone) \<Longrightarrow>
    acquire_step i client leaseID ((m, st), Enqueue) ((m', st), Attempt)"
| enqueue_failed: "enqueue m i client leaseID = (m', Inl err) \<Longrightarrow> err \<noteq> errEntryGone \<Longrightarrow>
    acquire_step i client leaseID ((m, st), Enqueue) ((m', st), Returned (Some err))"
| enqueued: "enqueue m i client leaseID = (m', Inr a) \<Longrightarrow>
    acquire_step i client leaseID ((m, st), Enqueue) ((m', st), WaitFor a)"
| done_chosen: "w_doneClosed (wheap m ! a) \<Longrightarrow>
    acquire_step i client leaseID ((m, st), WaitFor a)
      ((m, st), Returned (if w_granted (wheap m ! a) then None else Some ErrTimedOut))"
| ctx_chosen: "Cancel m i client = Some m' \<Longrightarrow>
    acquire_step i client leaseID ((m, st), WaitFor a) ((m', st), Returned (Some ErrTimedOut))"

end
