(* ===== verification/KeyValue.thy ===== *)
theory KeyValue
  imports StoreProps
begin

text \<open>
  The store as its clients see it. The lock manager and the expiry handler only write keys and
  delete them; what they rely on is the contract \<open>kv_store\<close>: writes succeed while there is room
  for them, the readable value of every key changes as in a map, and what was written before
  stays in the history. The store's model is an instance of the contract.
\<close>

section \<open>The contract\<close>

datatype kv_op = WPut Key string | WDel Key

fun write_effect :: "kv_op \<Rightarrow> (Key \<rightharpoonup> string) \<Rightarrow> (Key \<rightharpoonup> string)" where
  "write_effect (WPut k b) f = f(k \<mapsto> b)"
| "write_effect (WDel k) f = f(k := None)"

lemma fold_WDel: "fold write_effect (map WDel ks) f = (\<lambda>k. if k \<in> set ks then None else f k)"
  by (induction ks arbitrary: f) auto

locale kv_store =
  fixes do_op :: "kv_op \<Rightarrow> 's \<Rightarrow> 's option"
    and view :: "'s \<Rightarrow> Key \<rightharpoonup> string"
    and ready :: "nat \<Rightarrow> 's \<Rightarrow> bool"
    and extends :: "'s \<Rightarrow> 's \<Rightarrow> bool"
  assumes write_runs: "ready (Suc n) s \<Longrightarrow>
      \<exists>s'. do_op x s = Some s' \<and> ready n s' \<and> view s' = write_effect x (view s) \<and> extends s s'"
    and ready_less: "ready n s \<Longrightarrow> k \<le> n \<Longrightarrow> ready k s"
    and extends_refl: "extends s s"
    and extends_trans: "extends s s1 \<Longrightarrow> extends s1 s2 \<Longrightarrow> extends s s2"
begin

fun run_writes :: "kv_op list \<Rightarrow> 's \<Rightarrow> 's option" where
  "run_writes [] s = Some s"
| "run_writes (x # xs) s = (case do_op x s of None \<Rightarrow> None | Some s' \<Rightarrow> run_writes xs s')"

lemma writes_run:
  "ready (n + length xs) s \<Longrightarrow>
   \<exists>s'. run_writes xs s = Some s' \<and> ready n s' \<and> view s' = fold write_effect xs (view s) \<and> extends s s'"
proof (induction xs arbitrary: s)
  case (Cons x xs)
  then have "ready (Suc (n + length xs)) s" by simp
  from write_runs [OF this, of x] obtain s1 where
    "do_op x s = Some s1" "ready (n + length xs) s1" "view s1 = write_effect x (view s)" "extends s s1" by blast
  with Cons.IH [of s1] extends_trans [of s s1] show ?case by auto
qed (simp add: extends_refl)

end

section \<open>The store keeps the contract\<close>

text \<open>The readable bytes of a key, and a store with room for \<open>n\<close> more writes.\<close>

definition stored :: "Store \<Rightarrow> Key \<rightharpoonup> string" where
  "stored s k = (case Get s k of None \<Rightarrow> None
     | Some (v, _) \<Rightarrow> Some (case v of None \<Rightarrow> [] | Some b \<Rightarrow> b))"

definition store_ready :: "nat \<Rightarrow> Store \<Rightarrow> bool" where
  "store_ready n s \<longleftrightarrow> (\<exists>h. tracks h s) \<and> unat (head s) + n < 2 ^ 63"

text \<open>The history of a store is extended, never rewritten.\<close>

definition log_extends :: "Store \<Rightarrow> Store \<Rightarrow> bool" where
  "log_extends s s' \<longleftrightarrow> (\<forall>h. tracks h s \<longrightarrow> (\<exists>h'. tracks h' s' \<and> prefix h h'))"

lemma log_extends_refl [simp]: "log_extends s s"
  by (auto simp: log_extends_def)

lemma log_extends_trans: "log_extends s s1 \<Longrightarrow> log_extends s1 s2 \<Longrightarrow> log_extends s s2"
  unfolding log_extends_def by (meson prefix_order.trans)

lemma log_same: "(\<And>h. tracks h s \<Longrightarrow> tracks h s') \<Longrightarrow> log_extends s s'"
  by (auto simp: log_extends_def)

fun store_write :: "kv_op \<Rightarrow> Store \<Rightarrow> Store option" where
  "store_write (WPut k b) s = map_option fst (Put s k (Some b))"
| "store_write (WDel k) s = map_option fst (Delete s k)"

lemma store_write_extends:
  assumes "store_write x s = Some s'" and "Suc (unat (head s)) < 2 ^ 63"
  shows "log_extends s s'"
  unfolding log_extends_def
proof (intro allI impI)
  fix h assume h: "tracks h s"
  then have room: "Suc (length h) < 2 ^ 63" using assms(2) by (simp add: tracks_def)
  have "\<exists>ev. tracks (h @ [ev]) s'"
  proof (cases x)
    case (WPut k b)
    then show ?thesis using assms(1) Put_refines [OF h room, of k b] by auto
  next
    case (WDel k)
    then show ?thesis using assms(1) Delete_refines [OF h room, of k] by auto
  qed
  then show "\<exists>h'. tracks h' s' \<and> prefix h h'" by (auto intro: prefixI)
qed

lemma store_write_runs:
  assumes "store_ready (Suc n) s"
  shows "\<exists>s'. store_write x s = Some s' \<and> store_ready n s' \<and> stored s' = write_effect x (stored s)
    \<and> log_extends s s'"
proof -
  have keep: "log_extends s s'" if "store_write x s = Some s'" for s'
    using store_write_extends [OF that] assms by (simp add: store_ready_def)
  obtain h where h: "tracks h s" and room: "Suc (length h) + n < 2 ^ 63"
    using assms by (auto simp: store_ready_def tracks_def)
  have len: "unat (head t) = length g" if "tracks g t" for g t using that by (simp add: tracks_def)
  show ?thesis
  proof (cases x)
    case (WPut k b)
    obtain s' where s': "Put s k (Some b) = Some (s', Inr (head s + 1))"
      "tracks (h @ [NewPut k (Some b) (head s + 1)]) s'"
      using Put_refines [OF h, of k b] room by auto
    have "stored s' = (stored s)(k \<mapsto> b)"
      by (rule ext) (simp add: stored_def Get_spec [OF h] Get_spec [OF s'(2)])
    then show ?thesis using s' room len [OF s'(2)] keep by (auto simp: WPut store_ready_def)
  next
    case (WDel k)
    obtain s' where s': "Delete s k = Some (s', Inr (head s + 1))"
      "tracks (h @ [NewDelete k (head s + 1)]) s'"
      using Delete_refines [OF h, of k] room by auto
    have "stored s' = (stored s)(k := None)"
      by (rule ext) (simp add: stored_def Get_spec [OF h] Get_spec [OF s'(2)])
    then show ?thesis using s' room len [OF s'(2)] keep by (auto simp: WDel store_ready_def)
  qed
qed

interpretation kv: kv_store store_write stored store_ready log_extends
  by (unfold_locales, erule store_write_runs, auto simp: store_ready_def intro: log_extends_trans)

lemma store_ready_New: "0 \<le> cap \<Longrightarrow> cap < 2 ^ 63 \<Longrightarrow> n < 2 ^ 63 \<Longrightarrow> store_ready n (New cap)"
  using tracks_New [of cap] by (auto simp: store_ready_def New_def Let_def)

lemma stored_New: "stored (New cap) = (\<lambda>k. None)"
  by (rule ext) (simp add: stored_def Get_def New_def Let_def)

end
