(* ===== verification/LockSpec.thy ===== *)
theory LockSpec
  imports Locks KeyValue
begin

text \<open>
  What the lock manager promises: a table of locks, each with its holder and a queue of waiters
  served in order of arrival, and the answers given to waiters so far. Below it the
  representation invariant of the model and the abstraction into this specification.
\<close>

section \<open>The abstract lock service\<close>

type_synonym claimant = "string \<times> LeaseID"

record lock_service =
  table :: "LockID \<Rightarrow> (claimant \<times> (nat \<times> claimant) list) option"
  answer :: "nat \<Rightarrow> bool option"
  tickets :: nat

definition dead :: "LeaseChecker option \<Rightarrow> LeaseID \<Rightarrow> bool" where
  "dead alive l \<longleftrightarrow> alive \<noteq> None \<and> l \<noteq> [] \<and> \<not> the alive l"

definition spec_try :: "LockID \<Rightarrow> claimant \<Rightarrow> lock_service \<Rightarrow> lock_service \<times> bool" where
  "spec_try i c F =
     (if table F i = None then (F\<lparr>table := (table F)(i \<mapsto> (c, []))\<rparr>, True) else (F, False))"

definition spec_enqueue :: "LockID \<Rightarrow> claimant \<Rightarrow> lock_service \<Rightarrow> lock_service \<times> nat option" where
  "spec_enqueue i c F =
     (case table F i of
        None \<Rightarrow> (F, None)
      | Some (h, q) \<Rightarrow>
          (F\<lparr>table := (table F)(i \<mapsto> (h, q @ [(tickets F, c)])), tickets := Suc (tickets F)\<rparr>,
           Some (tickets F)))"

text \<open>The first waiter in the queue whose lease is not dead gets the lock.\<close>

definition hand_over ::
  "LeaseChecker option \<Rightarrow> LockID \<Rightarrow> (nat \<times> claimant) list \<Rightarrow> lock_service \<Rightarrow> lock_service" where
  "hand_over alive i q F =
     (case dropWhile (\<lambda>(a, c, l). dead alive l) q of
        [] \<Rightarrow> F\<lparr>table := (table F)(i := None)\<rparr>
      | (a, c) # q' \<Rightarrow>
          F\<lparr>table := (table F)(i \<mapsto> (c, q')), answer := (answer F)(a \<mapsto> True)\<rparr>)"

definition spec_release ::
  "LeaseChecker option \<Rightarrow> LockID \<Rightarrow> string \<Rightarrow> lock_service \<Rightarrow> lock_service \<times> LockError option" where
  "spec_release alive i client F =
     (case table F i of
        None \<Rightarrow> (F, Some ErrUnlocked)
      | Some ((c, l), q) \<Rightarrow>
          if c \<noteq> client then (F, Some ErrNotHolder) else (hand_over alive i q F, None))"

definition spec_cancel :: "LockID \<Rightarrow> string \<Rightarrow> lock_service \<Rightarrow> lock_service" where
  "spec_cancel i client F =
     (case table F i of
        None \<Rightarrow> F
      | Some (h, q) \<Rightarrow>
          F\<lparr>table := (table F)(i \<mapsto> (h, filter (\<lambda>(a, c, l). c \<noteq> client) q)),
            answer := (\<lambda>a. if \<exists>c l. (a, c, l) \<in> set q \<and> c = client then Some False else answer F a)\<rparr>)"

definition hand_over_lock :: "LeaseChecker option \<Rightarrow> LockID \<Rightarrow> lock_service \<Rightarrow> lock_service" where
  "hand_over_lock alive i F =
     (case table F i of None \<Rightarrow> F | Some (h, q) \<Rightarrow> hand_over alive i q F)"

section \<open>The representation invariant\<close>

definition queue_ok :: "LockMgr \<Rightarrow> LockID \<Rightarrow> nat list \<Rightarrow> bool" where
  "queue_ok m i q \<longleftrightarrow> sorted_wrt (<) q
     \<and> (\<forall>a \<in> set q. a < length (wheap m) \<and> rq_ID (request m a) = i
          \<and> rq_State (request m a) = LockWaiting
          \<and> map_of (waiters m) (rq_Seq (request m a)) = Some a)"

definition heap_ok :: "LockMgr \<Rightarrow> bool" where
  "heap_ok m \<longleftrightarrow> unat (lock_seq m) = length (wheap m)
     \<and> (\<forall>a < length (wheap m). rq_Seq (request m a) = of_nat (Suc a)
          \<and> (w_granted (wheap m ! a) \<longrightarrow> w_doneClosed (wheap m ! a)))
     \<and> mwf (waiters m)
     \<and> (\<forall>q a. map_of (waiters m) q = Some a \<longrightarrow>
          a < length (wheap m) \<and> rq_Seq (request m a) = q \<and> \<not> w_doneClosed (wheap m ! a))"

definition entry_ok :: "LockMgr \<Rightarrow> LockID \<Rightarrow> lockEntry \<Rightarrow> bool" where
  "entry_ok m i e \<longleftrightarrow> le_id e = i \<and> le_state e = LockHeld \<and> queue_ok m i (le_queue e)"

definition lock_ok_but :: "LockID set \<Rightarrow> LockMgr \<Rightarrow> bool" where
  "lock_ok_but X m \<longleftrightarrow> heap_ok m \<and> mwf (locks m)
     \<and> (\<forall>i e. i \<notin> X \<longrightarrow> map_of (locks m) i = Some e \<longrightarrow> entry_ok m i e)"

definition lock_ok :: "LockMgr \<Rightarrow> bool" where
  "lock_ok m \<longleftrightarrow> lock_ok_but {} m"

section \<open>The abstraction\<close>

definition ticket :: "LockMgr \<Rightarrow> nat \<Rightarrow> nat \<times> claimant" where
  "ticket m a = (a, rq_Client (request m a), rq_LeaseID (request m a))"

definition abs_entry :: "LockMgr \<Rightarrow> lockEntry \<Rightarrow> claimant \<times> (nat \<times> claimant) list" where
  "abs_entry m e = ((le_holder e, le_holderLease e), map (ticket m) (le_queue e))"

definition abs_locks :: "LockMgr \<Rightarrow> lock_service" where
  "abs_locks m =
     \<lparr>table = (\<lambda>i. map_option (abs_entry m) (map_of (locks m) i)),
      answer = (\<lambda>a. if a < length (wheap m) \<and> w_doneClosed (wheap m ! a)
                    then Some (w_granted (wheap m ! a)) else None),
      tickets = length (wheap m)\<rparr>"

lemma table_abs [simp]: "table (abs_locks m) i = map_option (abs_entry m) (map_of (locks m) i)"
  by (simp add: abs_locks_def)

lemma tickets_abs [simp]: "tickets (abs_locks m) = length (wheap m)"
  by (simp add: abs_locks_def)

text \<open>The readable state of a lock in the store, and what it should be.\<close>

definition oview :: "Store option \<Rightarrow> Key \<Rightarrow> string option" where
  "oview st k = (case st of None \<Rightarrow> None | Some s \<Rightarrow> stored s k)"

definition oready :: "nat \<Rightarrow> Store option \<Rightarrow> bool" where
  "oready n st = (case st of None \<Rightarrow> True | Some s \<Rightarrow> store_ready n s)"

definition entry_payload :: "lockEntry \<Rightarrow> string" where
  "entry_payload e = lock_payload (entry_record e)"

definition persisted :: "LockMgr \<Rightarrow> Store option \<Rightarrow> bool" where
  "persisted m st \<longleftrightarrow> st \<noteq> None \<longrightarrow>
     (\<forall>i. oview st (lockKey i) = map_option entry_payload (map_of (locks m) i))"

section \<open>Basic facts\<close>

named_theorems lock_simps \<open>how the parts of the lock manager change\<close>

lemma lockKey_inject [simp]: "lockKey i = lockKey j \<longleftrightarrow> i = j"
  by (simp add: lockKey_def)

lemma put_entry_sel [lock_simps, simp]:
  "locks (put_entry m e) = mput (le_id e) e (locks m)"
  "waiters (put_entry m e) = waiters m" "lock_seq (put_entry m e) = lock_seq m"
  "wheap (put_entry m e) = wheap m" "request (put_entry m e) = request m"
  by (simp_all add: put_entry_def request_def fun_eq_iff)

lemma set_waiter_sel [lock_simps, simp]:
  "locks (set_waiter m a w) = locks m" "waiters (set_waiter m a w) = waiters m"
  "lock_seq (set_waiter m a w) = lock_seq m" "wheap (set_waiter m a w) = (wheap m)[a := w]"
  by (simp_all add: set_waiter_def)

lemma set_request_state_sel [lock_simps, simp]:
  "locks (set_request_state m a s) = locks m" "waiters (set_request_state m a s) = waiters m"
  "lock_seq (set_request_state m a s) = lock_seq m"
  "wheap (set_request_state m a s) =
     (wheap m)[a := (wheap m ! a)\<lparr>w_request := (request m a)\<lparr>rq_State := s\<rparr>\<rparr>]"
  by (simp_all add: set_request_state_def)

lemma request_cong [simp]:
  "request (m\<lparr>locks := x\<rparr>) = request m" "request (m\<lparr>waiters := y\<rparr>) = request m"
  "request (m\<lparr>lock_seq := z\<rparr>) = request m"
  by (simp_all add: request_def fun_eq_iff)

text \<open>Sequence numbers order the waiters as their addresses do.\<close>

lemma heap_okD:
  assumes "heap_ok m"
  shows "unat (lock_seq m) = length (wheap m)"
    and "a < length (wheap m) \<Longrightarrow> rq_Seq (request m a) = of_nat (Suc a)"
    and "a < length (wheap m) \<Longrightarrow> w_granted (wheap m ! a) \<Longrightarrow> w_doneClosed (wheap m ! a)"
    and "mwf (waiters m)"
    and "map_of (waiters m) q = Some a \<Longrightarrow>
      a < length (wheap m) \<and> rq_Seq (request m a) = q \<and> \<not> w_doneClosed (wheap m ! a)"
  using assms unfolding heap_ok_def by blast+

lemma unat_seq:
  assumes "heap_ok m" "a < length (wheap m)"
  shows "unat (rq_Seq (request m a)) = Suc a"
proof -
  have "unat (lock_seq m) < 2 ^ LENGTH(64)" by (rule unsigned_less)
  then have "length (wheap m) < 2 ^ 64" by (simp add: heap_okD(1) [OF assms(1)])
  then show ?thesis using assms(2) by (simp add: heap_okD(2) [OF assms] unat_of_nat_small del: of_nat_Suc)
qed

lemma seq_inj:
  "heap_ok m \<Longrightarrow> a < length (wheap m) \<Longrightarrow> b < length (wheap m) \<Longrightarrow>
   rq_Seq (request m a) = rq_Seq (request m b) \<longleftrightarrow> a = b"
  by (metis unat_seq nat.inject)

lemma seq_less:
  "heap_ok m \<Longrightarrow> a < length (wheap m) \<Longrightarrow> b < length (wheap m) \<Longrightarrow>
   rq_Seq (request m a) < rq_Seq (request m b) \<longleftrightarrow> a < b"
  by (simp add: word_less_nat_alt unat_seq)

lemma queue_okD:
  assumes "queue_ok m i q"
  shows "sorted_wrt (<) q"
    and "a \<in> set q \<Longrightarrow> a < length (wheap m)"
    and "a \<in> set q \<Longrightarrow> rq_ID (request m a) = i"
    and "a \<in> set q \<Longrightarrow> rq_State (request m a) = LockWaiting"
    and "a \<in> set q \<Longrightarrow> map_of (waiters m) (rq_Seq (request m a)) = Some a"
  using assms by (simp_all add: queue_ok_def)

lemma queue_ok_frame:
  assumes "queue_ok m i q" and "length (wheap m) \<le> length (wheap m')"
    and "\<And>a. a \<in> set q \<Longrightarrow> request m' a = request m a
      \<and> map_of (waiters m') (rq_Seq (request m a)) = map_of (waiters m) (rq_Seq (request m a))"
  shows "queue_ok m' i q"
proof -
  have "sorted_wrt (<) q" using assms(1) by (simp add: queue_ok_def)
  moreover have "a < length (wheap m') \<and> rq_ID (request m' a) = i
      \<and> rq_State (request m' a) = LockWaiting
      \<and> map_of (waiters m') (rq_Seq (request m' a)) = Some a" if "a \<in> set q" for a
    using assms(2) assms(3) [OF that] queue_okD [OF assms(1)] that
    by (metis order_less_le_trans)
  ultimately show ?thesis by (simp add: queue_ok_def)
qed

lemma queue_ok_sub:
  assumes "queue_ok m i q" "sorted_wrt (<) q'" "set q' \<subseteq> set q"
  shows "queue_ok m i q'"
  using assms by (auto simp: queue_ok_def)

lemma lock_ok_butD:
  assumes "lock_ok_but X m"
  shows "heap_ok m" "mwf (locks m)"
    and "i \<notin> X \<Longrightarrow> map_of (locks m) i = Some e \<Longrightarrow> entry_ok m i e"
  using assms by (simp_all add: lock_ok_but_def)

lemma lock_okD:
  assumes "lock_ok m"
  shows "heap_ok m" "mwf (locks m)" "map_of (locks m) i = Some e \<Longrightarrow> entry_ok m i e"
  using assms by (simp_all add: lock_ok_def lock_ok_but_def)

lemma lock_ok_weaken: "lock_ok m \<Longrightarrow> lock_ok_but X m"
  by (simp add: lock_ok_def lock_ok_but_def)

lemma lock_ok_New: "lock_ok NewLockMgr"
  by (simp add: lock_ok_def lock_ok_but_def heap_ok_def NewLockMgr_def)

end
