(* ===== verification/LockProps.thy ===== *)
theory LockProps
  imports LockSpec
begin

text \<open>
  Every operation of the lock manager implements the abstract lock service, keeps the
  representation invariant, and leaves the lock's state in the store as it is in memory.
\<close>

section \<open>Writing one lock's state\<close>

text \<open>\<open>synced n i m' st st'\<close>: the write of lock \<open>i\<close> went through, with room for \<open>n\<close> more,
  and the history of the store was only extended.\<close>

definition oextends :: "Store option \<Rightarrow> Store option \<Rightarrow> bool" where
  "oextends = rel_option log_extends"

lemma oextends_refl [simp]: "oextends st st"
  by (cases st) (simp_all add: oextends_def)

lemma oextends_trans: "oextends st st1 \<Longrightarrow> oextends st1 st2 \<Longrightarrow> oextends st st2"
  by (cases st; cases st1; cases st2) (auto simp: oextends_def intro: log_extends_trans)

definition synced ::
  "nat \<Rightarrow> LockID \<Rightarrow> string option \<Rightarrow> Store option \<Rightarrow> Store option \<Rightarrow> bool" where
  "synced n i v st st' \<longleftrightarrow> oready n st' \<and> (st' = None \<longleftrightarrow> st = None)
     \<and> (st \<noteq> None \<longrightarrow> oview st' = (oview st)(lockKey i := v)) \<and> oextends st st'"

lemma oready_less: "oready n st \<Longrightarrow> k \<le> n \<Longrightarrow> oready k st"
  by (auto simp: oready_def intro: kv.ready_less split: option.splits)

lemma synced_less: "synced n i v st st' \<Longrightarrow> k \<le> n \<Longrightarrow> synced k i v st st'"
  by (auto simp: synced_def intro: oready_less)

lemma synced_trans: "synced n i v st st1 \<Longrightarrow> synced k i v' st1 st' \<Longrightarrow> synced k i v' st st'"
  by (auto simp: synced_def intro: oextends_trans)

lemma persistLocked_runs:
  assumes "oready (Suc n) st"
  shows "\<exists>st'. persistLocked st e = Some st' \<and> synced n (le_id e) (Some (entry_payload e)) st st'"
proof (cases st)
  case None
  then show ?thesis by (simp add: persistLocked_def synced_def oready_def)
next
  case (Some s)
  then have "store_ready (Suc n) s" using assms by (simp add: oready_def)
  from kv.write_runs [OF this, of "WPut (lockKey (le_id e)) (entry_payload e)"]
  obtain s' where "store_write (WPut (lockKey (le_id e)) (entry_payload e)) s = Some s'"
    "store_ready n s'" "stored s' = (stored s)(lockKey (le_id e) \<mapsto> entry_payload e)" "log_extends s s'" by auto
  then show ?thesis
    by (auto simp: Some persistLocked_def PutLockState_def synced_def oready_def oview_def oextends_def
        entry_payload_def fun_eq_iff)
qed

lemma lock_removeLocked_runs:
  assumes "oready (Suc n) st"
  shows "\<exists>st'. lock_removeLocked (m, st) e = Some (m\<lparr>locks := mdel (le_id e) (locks m)\<rparr>, st')
    \<and> synced n (le_id e) None st st'"
proof (cases st)
  case None
  then show ?thesis by (simp add: lock_removeLocked_def synced_def oready_def)
next
  case (Some s)
  then have "store_ready (Suc n) s" using assms by (simp add: oready_def)
  from kv.write_runs [OF this, of "WDel (lockKey (le_id e))"]
  obtain s' where "store_write (WDel (lockKey (le_id e))) s = Some s'"
    "store_ready n s'" "stored s' = (stored s)(lockKey (le_id e) := None)" "log_extends s s'" by auto
  then show ?thesis
    by (auto simp: Some lock_removeLocked_def DeleteLockState_def synced_def oready_def oview_def oextends_def
        fun_eq_iff)
qed

lemma persisted_synced:
  assumes "persisted m st" and "synced n i v st st'"
    and "\<And>j. j \<noteq> i \<Longrightarrow> map_option entry_payload (map_of (locks m') j) =
      map_option entry_payload (map_of (locks m) j)"
    and "v = map_option entry_payload (map_of (locks m') i)"
  shows "persisted m' st'"
  using assms by (auto simp: persisted_def synced_def)

section \<open>The earliest waiter is the head of the queue\<close>

lemma earliest_scan_best:
  "\<forall>a \<in> set q. \<not> rq_Seq (request m a) < rq_Seq (request m b) \<Longrightarrow>
   earliest_scan m q i (Some (b, j)) = Some (b, j)"
  by (induction q arbitrary: i) auto

lemma earliestWaiter_head:
  assumes "heap_ok m" and "queue_ok m i (le_queue e)"
  shows "earliestWaiter m e =
    (case le_queue e of [] \<Rightarrow> (e, None) | a # q \<Rightarrow> (e\<lparr>le_queue := q\<rparr>, Some a))"
proof (cases "le_queue e")
  case Nil
  then show ?thesis by (simp add: earliestWaiter_def)
next
  case (Cons a q)
  note q = queue_okD [OF assms(2), unfolded Cons]
  have "\<not> rq_Seq (request m b) < rq_Seq (request m a)" if "b \<in> set q" for b
    using that q(1) q(2) [of a] q(2) [of b] by (simp add: seq_less [OF assms(1)] order_less_imp_not_less)
  then have "earliest_scan m q (Suc 0) (Some (a, 0)) = Some (a, 0)"
    by (intro earliest_scan_best) blast
  then show ?thesis using q(4) [of a] by (simp add: earliestWaiter_def Cons)
qed

section \<open>Granting a lock to a waiter\<close>

text \<open>The manager after waiter \<open>a\<close> was answered, and after the grant with its new entry.\<close>

definition answered :: "LockMgr \<Rightarrow> LockState \<Rightarrow> bool \<Rightarrow> nat \<Rightarrow> LockMgr" where
  "answered m s g a =
     m\<lparr>waiters := mdel (rq_Seq (request m a)) (waiters m),
       wheap := (wheap m)[a := (wheap m ! a)\<lparr>w_request := (request m a)\<lparr>rq_State := s\<rparr>,
                               w_granted := g, w_doneClosed := True\<rparr>]\<rparr>"

definition granted_mgr :: "LockMgr \<Rightarrow> nat \<Rightarrow> lockEntry \<Rightarrow> LockMgr" where
  "granted_mgr m a e = put_entry (answered m LockGranted True a) e"

lemma signal_grants:
  assumes ok: "heap_ok m" and a: "a < length (wheap m)"
    and reg: "map_of (waiters m) (rq_Seq (request m a)) = Some a"
  shows "signal (set_request_state (put_entry m e) a LockGranted) a = Some (granted_mgr m a e)"
proof -
  have "\<not> w_doneClosed (wheap m ! a)" using heap_okD(5) [OF ok reg] by simp
  then show ?thesis
    using a reg
    by (simp add: signal_def close_done_def request_def granted_mgr_def answered_def set_waiter_def put_entry_def
        set_request_state_def Let_def)
qed

definition grant :: "lock_world \<Rightarrow> nat \<Rightarrow> lockEntry \<Rightarrow> lock_world option" where
  "grant w a e =
     (let e2 = e\<lparr>le_state := LockHeld, le_holder := rq_Client (request (fst w) a),
                 le_holderLease := rq_LeaseID (request (fst w) a)\<rparr>
      in map_option (\<lambda>st'. (granted_mgr (fst w) a e2, st')) (persistLocked (snd w) e2))"

definition free_lock :: "lock_world \<Rightarrow> lockEntry \<Rightarrow> lock_world option" where
  "free_lock w e =
     (let e2 = e\<lparr>le_state := LockWaiting, le_holder := [], le_holderLease := []\<rparr>
      in Option.bind (persistLocked (snd w) e2) (\<lambda>st'. lock_removeLocked (put_entry (fst w) e2, st') e2))"

lemma wakeNext_head:
  assumes ok: "heap_ok m" and q: "queue_ok m i (le_queue e)"
  shows "wakeNext alive (m, st) e =
    (case le_queue e of
       [] \<Rightarrow> free_lock (m, st) e
     | a # q \<Rightarrow> if dead alive (rq_LeaseID (request m a)) then wakeNext alive (m, st) (e\<lparr>le_queue := q\<rparr>)
                else grant (m, st) a (e\<lparr>le_queue := q\<rparr>))"
proof (cases "le_queue e")
  case Nil
  then show ?thesis
    by (subst wakeNext.simps) (simp add: earliestWaiter_head [OF ok q] free_lock_def Let_def)
next
  case (Cons a as)
  note a = queue_okD(2,5) [OF q, of a, unfolded Cons, simplified]
  show ?thesis
    using signal_grants [OF ok a] 
    by (subst wakeNext.simps)
       (simp add: earliestWaiter_head [OF ok q] Cons dead_def grant_def Let_def bind_map_option
         map_option_bind comp_def split: Option.bind_split option.split)
qed

lemma wakeNext_eq:
  assumes "heap_ok m" and "queue_ok m i (le_queue e)"
  shows "wakeNext alive (m, st) e =
    (case dropWhile (\<lambda>a. dead alive (rq_LeaseID (request m a))) (le_queue e) of
       [] \<Rightarrow> free_lock (m, st) (e\<lparr>le_queue := []\<rparr>)
     | a # q \<Rightarrow> grant (m, st) a (e\<lparr>le_queue := q\<rparr>))"
  using assms(2)
proof (induction "le_queue e" arbitrary: e)
  case Nil
  then have "le_queue e = []" "e\<lparr>le_queue := []\<rparr> = e" by (cases e, simp)+
  then show ?case by (simp only: wakeNext_head [OF assms(1) Nil(2)]) simp
next
  case (Cons a q)
  have sub: "queue_ok m i q"
    using queue_ok_sub [OF Cons.prems, of q] queue_okD(1) [OF Cons.prems]
    by (simp add: subset_insertI flip: Cons.hyps(2))
  show ?case
    using Cons.hyps(1) [of "e\<lparr>le_queue := q\<rparr>"] sub
    by (simp add: wakeNext_head [OF assms(1) Cons.prems] del: dropWhile_eq_Nil_conv split: list.split
        flip: Cons.hyps(2))
qed

section \<open>The new manager is well formed\<close>

lemma answered_sel [simp]:
  "locks (answered m s g a) = locks m"
  "waiters (answered m s g a) = mdel (rq_Seq (request m a)) (waiters m)"
  "length (wheap (answered m s g a)) = length (wheap m)"
  "lock_seq (answered m s g a) = lock_seq m"
  by (simp_all add: answered_def)

lemma answered_request:
  "a < length (wheap m) \<Longrightarrow>
   request (answered m s g a) b = (if b = a then (request m a)\<lparr>rq_State := s\<rparr> else request m b)"
  by (simp add: answered_def request_def)

lemma answered_wheap:
  "a < length (wheap m) \<Longrightarrow>
   wheap (answered m s g a) ! b =
     (if b = a then (wheap m ! a)\<lparr>w_request := (request m a)\<lparr>rq_State := s\<rparr>,
                                  w_granted := g, w_doneClosed := True\<rparr>
      else wheap m ! b)"
  by (simp add: answered_def)

lemma put_entry_ok [simp]:
  "heap_ok (put_entry m e) = heap_ok m" "queue_ok (put_entry m e) = queue_ok m"
  "entry_ok (put_entry m e) = entry_ok m" "ticket (put_entry m e) = ticket m"
  "abs_entry (put_entry m e) = abs_entry m"
  by (simp_all add: fun_eq_iff heap_ok_def queue_ok_def entry_ok_def ticket_def abs_entry_def)

lemma answered_heap_ok:
  assumes ok: "heap_ok m" and a: "a < length (wheap m)"
  shows "heap_ok (answered m s g a)"
  unfolding heap_ok_def
proof (intro conjI allI impI)
  let ?m = "answered m s g a"
  show "unat (lock_seq ?m) = length (wheap ?m)" by (simp add: heap_okD(1) [OF ok])
  show "mwf (waiters ?m)" by (simp add: heap_okD(4) [OF ok])
  show "rq_Seq (request ?m b) = of_nat (Suc b)" if "b < length (wheap ?m)" for b
    using that heap_okD(2) [OF ok] by (simp add: answered_request [OF a] del: of_nat_Suc)
  show "w_doneClosed (wheap ?m ! b)" if "b < length (wheap ?m)" "w_granted (wheap ?m ! b)" for b
    using that heap_okD(3) [OF ok] by (simp add: answered_wheap [OF a] split: if_splits)
  fix q b assume b: "map_of (waiters ?m) q = Some b"
  then have "map_of (waiters m) q = Some b" and ne: "q \<noteq> rq_Seq (request m a)"
    by (simp_all split: if_splits)
  note b' = heap_okD(5) [OF ok this(1)]
  with ne have "b \<noteq> a" by auto
  with b' show "b < length (wheap ?m)" "rq_Seq (request ?m b) = q" "\<not> w_doneClosed (wheap ?m ! b)"
    by (simp_all add: answered_request [OF a] answered_wheap [OF a])
qed

text \<open>A queue without the answered waiter does not notice.\<close>

lemma answered_queue_ok:
  assumes ok: "heap_ok m" and a: "a < length (wheap m)" and q: "queue_ok m j q" and "a \<notin> set q"
  shows "queue_ok (answered m s g a) j q"
proof (rule queue_ok_frame [OF q])
  fix b assume b: "b \<in> set q"
  then have "b \<noteq> a" using assms(4) by blast
  moreover from this have "rq_Seq (request m b) \<noteq> rq_Seq (request m a)"
    using seq_inj [OF ok _ a] queue_okD(2) [OF q b] by blast
  ultimately show "request (answered m s g a) b = request m b \<and>
      map_of (waiters (answered m s g a)) (rq_Seq (request m b)) =
      map_of (waiters m) (rq_Seq (request m b))"
    by (simp add: answered_request [OF a])
qed simp

lemma answered_ticket: "a < length (wheap m) \<Longrightarrow> ticket (answered m s g a) = ticket m"
  by (simp add: fun_eq_iff ticket_def answered_request)

lemma answered_abs_entry: "a < length (wheap m) \<Longrightarrow> abs_entry (answered m s g a) = abs_entry m"
  by (simp add: fun_eq_iff abs_entry_def answered_ticket)

lemma abs_answered:
  assumes a: "a < length (wheap m)"
  shows "abs_locks (answered m s g a) = (abs_locks m)\<lparr>answer := (answer (abs_locks m))(a \<mapsto> g)\<rparr>"
  using a by (auto simp: abs_locks_def answered_abs_entry [OF a] answered_wheap [OF a] intro!: ext)

lemma queue_tl_ok:
  assumes "queue_ok m i (a # q)"
  shows "queue_ok m i q" "a \<notin> set q"
  using assms by (auto simp: queue_ok_def)

text \<open>Other locks' queues do not hold a waiter of lock \<open>i\<close>.\<close>

lemma other_queue:
  "queue_ok m i q \<Longrightarrow> queue_ok m j q' \<Longrightarrow> i \<noteq> j \<Longrightarrow> a \<in> set q \<Longrightarrow> a \<notin> set q'"
  using queue_okD(3) by blast

lemma answered_ok_but:
  assumes ok: "lock_ok_but {i} m" and q: "queue_ok m i q" and a: "a \<in> set q"
  shows "lock_ok_but {i} (answered m s g a)"
proof -
  note heap = lock_ok_butD(1) [OF ok] and len = queue_okD(2) [OF q a]
  have "entry_ok (answered m s g a) j d" if "j \<noteq> i" "map_of (locks m) j = Some d" for j d
  proof -
    have d: "entry_ok m j d" using lock_ok_butD(3) [OF ok, of j d] that by simp
    then show ?thesis
      using answered_queue_ok [OF heap len, of j "le_queue d"] other_queue [OF q _ _ a, of j] that(1)
      by (auto simp: entry_ok_def)
  qed
  then show ?thesis
    using answered_heap_ok [OF heap len] lock_ok_butD(2) [OF ok] by (simp add: lock_ok_but_def)
qed

lemma lock_ok_put:
  assumes ok: "lock_ok_but {i} m" and e: "entry_ok m i e"
  shows "lock_ok (put_entry m e)"
  using lock_ok_butD [OF ok] e
  by (auto simp: lock_ok_def lock_ok_but_def entry_ok_def split: if_splits)

lemma granted_mgr_ok:
  assumes ok: "lock_ok_but {i} m" and q: "queue_ok m i (a # q)"
    and e: "le_id e = i" "le_state e = LockHeld" "le_queue e = q"
  shows "lock_ok (granted_mgr m a e)"
  unfolding granted_mgr_def
proof (rule lock_ok_put [OF answered_ok_but [OF ok q]])
  show "entry_ok (answered m LockGranted True a) i e"
    using answered_queue_ok [OF lock_ok_butD(1) [OF ok] _ queue_tl_ok [OF q]] queue_okD(2) [OF q] e
    by (simp add: entry_ok_def)
qed simp

lemma abs_granted:
  assumes a: "a < length (wheap m)"
  shows "abs_locks (granted_mgr m a e) =
    (abs_locks m)\<lparr>table := (table (abs_locks m))(le_id e \<mapsto> abs_entry m e),
                 answer := (answer (abs_locks m))(a \<mapsto> True)\<rparr>"
  using a by (auto simp: granted_mgr_def abs_locks_def answered_abs_entry [OF a]
      answered_wheap [OF a] intro!: ext)

text \<open>Changing the table alone.\<close>

lemma lock_ok_locks:
  assumes ok: "lock_ok_but X m"
    and same: "wheap m' = wheap m" "waiters m' = waiters m" "lock_seq m' = lock_seq m"
    and wf: "mwf (locks m')"
    and entries: "\<And>j e. map_of (locks m') j = Some e \<Longrightarrow>
      j \<notin> X \<and> map_of (locks m) j = Some e \<or> entry_ok m j e"
  shows "lock_ok m'"
proof -
  have rq: "request m' = request m" by (simp add: request_def fun_eq_iff same)
  then have eq: "entry_ok m' = entry_ok m" "heap_ok m' = heap_ok m"
    by (simp_all add: fun_eq_iff entry_ok_def queue_ok_def heap_ok_def same)
  show ?thesis
    using entries lock_ok_butD [OF ok] wf unfolding lock_ok_def lock_ok_but_def eq by blast
qed

lemma abs_locks_table:
  assumes "wheap m' = wheap m"
  shows "abs_locks m' = (abs_locks m)\<lparr>table := \<lambda>i. map_option (abs_entry m) (map_of (locks m') i)\<rparr>"
proof -
  have "request m' = request m" by (simp add: request_def fun_eq_iff assms)
  then have eq: "abs_entry m' = abs_entry m" by (simp add: abs_entry_def ticket_def fun_eq_iff)
  show ?thesis by (auto simp: abs_locks_def eq assms intro!: ext)
qed

section \<open>Handing a lock over\<close>

text \<open>What handing over lock \<open>i\<close> guarantees, with \<open>q\<close> waiting for it.\<close>

definition handed_over ::
  "LeaseChecker option \<Rightarrow> nat \<Rightarrow> LockID \<Rightarrow> nat list \<Rightarrow> lock_world \<Rightarrow> lock_world \<Rightarrow> bool" where
  "handed_over alive n i q w w' \<longleftrightarrow> lock_ok (fst w')
     \<and> abs_locks (fst w') = hand_over alive i (map (ticket (fst w)) q) (abs_locks (fst w))
     \<and> synced n i (map_option entry_payload (map_of (locks (fst w')) i)) (snd w) (snd w')
     \<and> (\<forall>j. j \<noteq> i \<longrightarrow> map_of (locks (fst w')) j = map_of (locks (fst w)) j)"

lemma dropWhile_tickets:
  "dropWhile (\<lambda>(a, c, l). dead alive l) (map (ticket m) xs) =
   map (ticket m) (dropWhile (\<lambda>a. dead alive (rq_LeaseID (request m a))) xs)"
  by (induction xs) (auto simp: ticket_def)

lemma free_lock_hands_over:
  assumes ok: "lock_ok_but {i} m" and e: "le_id e = i" and room: "oready (n + 2) st"
    and none: "dropWhile (\<lambda>a. dead alive (rq_LeaseID (request m a))) q = []"
  shows "\<exists>w'. free_lock (m, st) e = Some w' \<and> handed_over alive n i q (m, st) w'"
proof -
  let ?e2 = "e\<lparr>le_state := LockWaiting, le_holder := [], le_holderLease := []\<rparr>"
  obtain st1 where st1: "persistLocked st ?e2 = Some st1"
    "synced (Suc n) i (Some (entry_payload ?e2)) st st1"
    using persistLocked_runs [of "Suc n" st ?e2] room e by auto
  obtain st2 where st2: "lock_removeLocked (put_entry m ?e2, st1) ?e2 =
      Some ((put_entry m ?e2)\<lparr>locks := mdel i (locks (put_entry m ?e2))\<rparr>, st2)"
    "synced n i None st1 st2"
    using lock_removeLocked_runs [of n st1 "put_entry m ?e2" ?e2] st1(2) e by (auto simp: synced_def)
  let ?m' = "(put_entry m ?e2)\<lparr>locks := mdel i (locks (put_entry m ?e2))\<rparr>"
  have "lock_ok ?m'"
    by (rule lock_ok_locks [OF ok]) (use lock_ok_butD(2) [OF ok] e in \<open>auto split: if_splits\<close>)
  moreover have "abs_locks ?m' = hand_over alive i (map (ticket m) q) (abs_locks m)"
    using e by (subst abs_locks_table [of _ m], simp)
      (auto simp add: hand_over_def dropWhile_tickets none abs_locks_def
        simp del: dropWhile_eq_Nil_conv intro!: ext)
  ultimately show ?thesis
    using st1(1) st2(1) synced_trans [OF st1(2) st2(2)] e by (simp add: free_lock_def Let_def handed_over_def)
qed

lemma grant_hands_over:
  assumes ok: "lock_ok_but {i} m" and e: "le_id e = i" "le_queue e = as" and sub: "queue_ok m i (a # as)"
    and room: "oready (Suc n) st"
    and first: "dropWhile (\<lambda>a. dead alive (rq_LeaseID (request m a))) q = a # as"
  shows "\<exists>w'. grant (m, st) a e = Some w' \<and> handed_over alive n i q (m, st) w'"
proof -
  let ?e2 = "e\<lparr>le_state := LockHeld, le_holder := rq_Client (request m a), le_holderLease := rq_LeaseID (request m a)\<rparr>"
  obtain st1 where st1: "persistLocked st ?e2 = Some st1" "synced n i (Some (entry_payload ?e2)) st st1"
    using persistLocked_runs [of n st ?e2] room e by auto
  have a: "a < length (wheap m)" using queue_okD(2) [OF sub] by simp
  have "lock_ok (granted_mgr m a ?e2)" by (rule granted_mgr_ok [OF ok sub]) (simp_all add: e)
  moreover have "abs_locks (granted_mgr m a ?e2) = hand_over alive i (map (ticket m) q) (abs_locks m)"
    using e by (simp add: abs_granted [OF a] hand_over_def dropWhile_tickets first abs_entry_def ticket_def)
  ultimately show ?thesis using st1 e by (simp add: grant_def Let_def handed_over_def granted_mgr_def)
qed

lemma wakeNext_runs:
  assumes ok: "lock_ok_but {i} m" and e: "le_id e = i" and q: "queue_ok m i (le_queue e)"
    and room: "oready (n + 2) st"
  shows "\<exists>w'. wakeNext alive (m, st) e = Some w' \<and> handed_over alive n i (le_queue e) (m, st) w'"
proof (cases "dropWhile (\<lambda>a. dead alive (rq_LeaseID (request m a))) (le_queue e)")
  case Nil
  then show ?thesis
    using free_lock_hands_over [OF ok, of "e\<lparr>le_queue := []\<rparr>" n st alive "le_queue e"] e room
    by (simp add: wakeNext_eq [OF lock_ok_butD(1) [OF ok] q] del: dropWhile_eq_Nil_conv)
next
  case (Cons a as)
  have "queue_ok m i (a # as)"
  proof (rule queue_ok_sub [OF q])
    show "sorted_wrt (<) (a # as)"
      using queue_okD(1) [OF q] sorted_wrt_append takeWhile_dropWhile_id Cons by (metis (no_types, lifting))
    show "set (a # as) \<subseteq> set (le_queue e)" using Cons set_dropWhileD by (metis subsetI)
  qed
  then show ?thesis
    using grant_hands_over [OF ok, of "e\<lparr>le_queue := as\<rparr>" as a n st alive "le_queue e"] e Cons
      oready_less [OF room, of "Suc n"]
    by (simp add: wakeNext_eq [OF lock_ok_butD(1) [OF ok] q])
qed

section \<open>The operations implement the specification\<close>

text \<open>The facts that every operation on locks guarantees.\<close>

definition refines ::
  "nat \<Rightarrow> lock_world \<Rightarrow> lock_world \<Rightarrow> lock_service \<Rightarrow> bool" where
  "refines n w w' F \<longleftrightarrow> lock_ok (fst w') \<and> abs_locks (fst w') = F \<and> oready n (snd w')
     \<and> (snd w' = None \<longleftrightarrow> snd w = None)
     \<and> (persisted (fst w) (snd w) \<longrightarrow> persisted (fst w') (snd w')) \<and> oextends (snd w) (snd w')"

lemma hand_over_table:
  assumes "\<And>j. j \<noteq> i \<Longrightarrow> T j = table F j"
  shows "hand_over alive i q (F\<lparr>table := T\<rparr>) = hand_over alive i q F"
proof -
  have "T(i := x) = (table F)(i := x)" for x using assms by (simp add: fun_eq_iff)
  then show ?thesis by (simp add: hand_over_def del: dropWhile_eq_Nil_conv split: list.split)
qed

lemma releaseLocked_runs:
  assumes ok: "lock_ok m" and e: "map_of (locks m) i = Some e" and room: "oready (n + 3) st"
  shows "\<exists>w'. releaseLocked alive (m, st) e = Some w'
    \<and> refines n (m, st) w' (hand_over_lock alive i (abs_locks m))
    \<and> (\<forall>j. j \<noteq> i \<longrightarrow> map_of (locks (fst w')) j = map_of (locks m) j)"
proof -
  note entry = lock_okD(3) [OF ok e]
  let ?e1 = "e\<lparr>le_state := LockReleasing, le_holder := [], le_holderLease := []\<rparr>"
  let ?m1 = "put_entry m ?e1"
  have id: "le_id e = i" and q: "queue_ok m i (le_queue e)" using entry by (simp_all add: entry_ok_def)
  obtain st1 where st1: "persistLocked st ?e1 = Some st1"
    "synced (n + 2) i (Some (entry_payload ?e1)) st st1"
    using persistLocked_runs [of "n + 2" st ?e1] room id by (auto simp: eval_nat_numeral)
  have same: "request ?m1 = request m" "wheap ?m1 = wheap m" "waiters ?m1 = waiters m" by simp_all
  have eqs: "ticket ?m1 = ticket m" "queue_ok ?m1 = queue_ok m" "heap_ok ?m1 = heap_ok m"
    "entry_ok ?m1 = entry_ok m"
    by (simp_all add: fun_eq_iff ticket_def queue_ok_def heap_ok_def entry_ok_def)
  have "lock_ok_but {i} ?m1"
    using lock_okD [OF ok] id unfolding lock_ok_but_def eqs by simp
  moreover have "queue_ok ?m1 i (le_queue ?e1)" using q by (simp add: eqs)
  ultimately obtain m' st' where w': "wakeNext alive (?m1, st1) ?e1 = Some (m', st')"
    "handed_over alive n i (le_queue e) (?m1, st1) (m', st')"
    using wakeNext_runs [of i ?m1 ?e1 n st1 alive] st1(2) id by (auto simp: synced_def)
  then have w: "wakeNext alive (?m1, st1) ?e1 = Some (m', st')" "lock_ok m'"
    "abs_locks m' = hand_over alive i (map (ticket m) (le_queue e)) (abs_locks ?m1)"
    "synced n i (map_option entry_payload (map_of (locks m') i)) st1 st'"
    "\<forall>j. j \<noteq> i \<longrightarrow> map_of (locks m') j = map_of (locks ?m1) j"
    unfolding handed_over_def fst_conv snd_conv eqs by blast+
  have "hand_over alive i q (abs_locks ?m1) = hand_over alive i q (abs_locks m)" for q
    by (subst abs_locks_table [of ?m1 m], simp) (rule hand_over_table, simp add: id)
  then have abs: "abs_locks m' = hand_over_lock alive i (abs_locks m)"
    using w(3) e by (simp add: hand_over_lock_def abs_entry_def)
  have sync: "synced n i (map_option entry_payload (map_of (locks m') i)) st st'"
    using synced_trans [OF st1(2) w(4)] .
  have "persisted m' st'" if "persisted m st"
    by (rule persisted_synced [OF that sync]) (use w(5) id in simp_all)
  then have "refines n (m, st) (m', st') (hand_over_lock alive i (abs_locks m))"
    using w(2) abs sync by (simp add: refines_def synced_def)
  then show ?thesis using st1(1) w(1,5) id by (auto simp: releaseLocked_def Let_def)
qed

lemma Release_refines:
  assumes ok: "lock_ok m" and room: "oready (n + 3) st"
  shows "\<exists>w' r. Release alive (m, st) i client = Some (w', r)
    \<and> refines n (m, st) w' (fst (spec_release alive i client (abs_locks m)))
    \<and> r = snd (spec_release alive i client (abs_locks m))"
proof -
  have refl: "refines n (m, st) (m, st) (abs_locks m)"
    using ok oready_less [OF room] by (simp add: refines_def)
  show ?thesis
  proof (cases "map_of (locks m) i")
    case None
    then show ?thesis using refl by (simp add: Release_def spec_release_def abs_locks_def)
  next
    case (Some e)
    then have held: "le_state e = LockHeld" using lock_okD(3) [OF ok Some] by (simp add: entry_ok_def)
    have tab: "table (abs_locks m) i = Some ((le_holder e, le_holderLease e), map (ticket m) (le_queue e))"
      by (simp add: abs_locks_def Some abs_entry_def)
    show ?thesis
      using releaseLocked_runs [OF ok Some room, of alive] held refl Some tab
      by (auto simp: Release_def spec_release_def hand_over_lock_def)
  qed
qed

lemma TryAcquire_refines:
  assumes ok: "lock_ok m" and room: "oready (Suc n) st"
  shows "\<exists>w'. TryAcquire (m, st) i client l =
        Some (w', snd (spec_try i (client, l) (abs_locks m)), None)
    \<and> refines n (m, st) w' (fst (spec_try i (client, l) (abs_locks m)))"
proof (cases "map_of (locks m) i")
  case (Some e)
  then have "le_state e = LockHeld" using lock_okD(3) [OF ok Some] by (simp add: entry_ok_def)
  then show ?thesis
    using ok oready_less [OF room, of n] Some
    by (simp add: TryAcquire_def spec_try_def refines_def)
next
  case None
  let ?e = "\<lparr>le_id = i, le_holder = client, le_holderLease = l, le_state = LockHeld, le_queue = []\<rparr>"
  let ?m0 = "m\<lparr>locks := mput i (?e\<lparr>le_state := LockWaiting, le_holder := [], le_holderLease := []\<rparr>) (locks m)\<rparr>"
  let ?m' = "put_entry ?m0 ?e"
  obtain st' where st': "persistLocked st ?e = Some st'" "synced n i (Some (entry_payload ?e)) st st'"
    using persistLocked_runs [OF room, of ?e] by auto
  have "TryAcquire (m, st) i client l = Some ((?m', st'), True, None)"
    using st' None by (simp add: TryAcquire_def Let_def)
  moreover have "lock_ok ?m'"
    by (rule lock_ok_locks [OF lock_ok_weaken [OF ok, of "{}"]])
      (use lock_okD(2) [OF ok] in \<open>auto simp: put_entry_def entry_ok_def queue_ok_def split: if_splits\<close>)
  moreover have "abs_locks ?m' = fst (spec_try i (client, l) (abs_locks m))"
    by (subst abs_locks_table [of _ m], simp)
      (auto simp: spec_try_def None abs_locks_def abs_entry_def intro!: ext)
  moreover have "persisted ?m' st'" if "persisted m st"
    by (rule persisted_synced [OF that st'(2)]) simp_all
  moreover have "snd (spec_try i (client, l) (abs_locks m))"
    by (simp add: spec_try_def abs_locks_def None)
  ultimately show ?thesis using st'(2) by (simp add: refines_def synced_def)
qed

text \<open>A new waiter, and the manager with it on the heap but in no queue yet.\<close>

definition new_waiter :: "LockMgr \<Rightarrow> LockID \<Rightarrow> string \<Rightarrow> LeaseID \<Rightarrow> waiter" where
  "new_waiter m i client l =
     \<lparr>w_request = \<lparr>rq_ID = i, rq_Client = client, rq_LeaseID = l, rq_Seq = lock_seq m + 1, rq_State = LockWaiting\<rparr>,
      w_doneClosed = False, w_granted = False\<rparr>"

definition with_waiter :: "LockMgr \<Rightarrow> LockID \<Rightarrow> string \<Rightarrow> LeaseID \<Rightarrow> LockMgr" where
  "with_waiter m i client l =
     m\<lparr>lock_seq := lock_seq m + 1, waiters := mput (lock_seq m + 1) (length (wheap m)) (waiters m),
       wheap := wheap m @ [new_waiter m i client l]\<rparr>"

lemma with_waiter_sel [simp]:
  "lock_seq (with_waiter m i client l) = lock_seq m + 1" "locks (with_waiter m i client l) = locks m"
  "waiters (with_waiter m i client l) = mput (lock_seq m + 1) (length (wheap m)) (waiters m)"
  "length (wheap (with_waiter m i client l)) = Suc (length (wheap m))"
  by (simp_all add: with_waiter_def)

lemma with_waiter_nth:
  assumes "b \<le> length (wheap m)"
  shows "wheap (with_waiter m i client l) ! b = (if b = length (wheap m) then new_waiter m i client l else wheap m ! b)"
    and "request (with_waiter m i client l) b =
      (if b = length (wheap m) then w_request (new_waiter m i client l) else request m b)"
    and "ticket (with_waiter m i client l) b = (if b = length (wheap m) then (b, client, l) else ticket m b)"
  using assms by (simp_all add: with_waiter_def request_def ticket_def nth_append new_waiter_def)

lemma new_seq:
  assumes "heap_ok m" and "length (wheap m) < 2 ^ 64 - 1"
  shows "lock_seq m + 1 = of_nat (Suc (length (wheap m)))"
    and "b < length (wheap m) \<Longrightarrow> rq_Seq (request m b) \<noteq> lock_seq m + 1"
proof -
  have q: "unat (lock_seq m + 1) = Suc (length (wheap m))"
    using unat_plus1 [of "lock_seq m"] heap_okD(1) [OF assms(1)] assms(2) by simp
  have "of_nat (Suc (length (wheap m))) = (of_nat (unat (lock_seq m + 1)) :: uint64)" by (simp only: q)
  then show "lock_seq m + 1 = of_nat (Suc (length (wheap m)))" by (simp del: of_nat_Suc)
  show "rq_Seq (request m b) \<noteq> lock_seq m + 1" if "b < length (wheap m)"
    using unat_seq [OF assms(1) that] q that by auto
qed

lemma with_waiter_heap_ok:
  assumes heap: "heap_ok m" and room: "length (wheap m) < 2 ^ 64 - 1"
  shows "heap_ok (with_waiter m i client l)" (is "heap_ok ?m1")
  unfolding heap_ok_def
proof (intro conjI allI impI)
  note nth = with_waiter_nth [of _ m i client l]
  show "unat (lock_seq ?m1) = length (wheap ?m1)"
    using unat_plus1 [of "lock_seq m"] heap_okD(1) [OF heap] room by simp
  show "mwf (waiters ?m1)" using heap_okD(4) [OF heap] by simp
  show "rq_Seq (request ?m1 b) = of_nat (Suc b)" if "b < length (wheap ?m1)" for b
    using that nth(2) [of b] heap_okD(2) [OF heap, of b] new_seq(1) [OF assms]
    by (auto simp: new_waiter_def simp del: of_nat_Suc)
  show "w_doneClosed (wheap ?m1 ! b)" if "b < length (wheap ?m1)" "w_granted (wheap ?m1 ! b)" for b
    using that nth(1) [of b] heap_okD(3) [OF heap, of b] by (auto simp: new_waiter_def split: if_splits)
  fix p b assume b: "map_of (waiters ?m1) p = Some b"
  have "b < length (wheap ?m1) \<and> rq_Seq (request ?m1 b) = p \<and> \<not> w_doneClosed (wheap ?m1 ! b)"
  proof (cases "p = lock_seq m + 1")
    case True
    then have "b = length (wheap m)" using b by simp
    then show ?thesis using True nth(1,2) [of "length (wheap m)"] by (simp add: new_waiter_def)
  next
    case False
    then have "map_of (waiters m) p = Some b" using b by simp
    from heap_okD(5) [OF heap this] show ?thesis using nth(1,2) [of b] by simp
  qed
  then show "b < length (wheap ?m1)" "rq_Seq (request ?m1 b) = p" "\<not> w_doneClosed (wheap ?m1 ! b)"
    by blast+
qed

lemma with_waiter_queue_ok:
  assumes heap: "heap_ok m" and room: "length (wheap m) < 2 ^ 64 - 1" and q: "queue_ok m j q"
  shows "queue_ok (with_waiter m i client l) j q"
proof (rule queue_ok_frame [OF q])
  fix b assume "b \<in> set q"
  then have "b < length (wheap m)" using queue_okD(2) [OF q] by blast
  then show "request (with_waiter m i client l) b = request m b \<and>
      map_of (waiters (with_waiter m i client l)) (rq_Seq (request m b)) = map_of (waiters m) (rq_Seq (request m b))"
    using with_waiter_nth(2) [of b m] new_seq(2) [OF assms(1,2), of b] by simp
qed simp

lemma with_waiter_queued:
  assumes "heap_ok m" and "length (wheap m) < 2 ^ 64 - 1" and "queue_ok m i q"
  shows "queue_ok (with_waiter m i client l) i (q @ [length (wheap m)])"
proof -
  have "sorted_wrt (<) (q @ [length (wheap m)])"
    using queue_okD(1,2) [OF assms(3)] by (simp add: sorted_wrt_append)
  then show ?thesis
    using queue_okD [OF with_waiter_queue_ok [OF assms, of i client l]]
      with_waiter_nth(2) [of "length (wheap m)" m i client l] by (auto simp: queue_ok_def new_waiter_def)
qed

lemma with_waiter_abs_entry:
  assumes "entry_ok m j d"
  shows "abs_entry (with_waiter m i client l) d = abs_entry m d"
    and "abs_entry (with_waiter m i client l) (d\<lparr>le_queue := le_queue d @ [length (wheap m)]\<rparr>) =
      (fst (abs_entry m d), snd (abs_entry m d) @ [(length (wheap m), client, l)])"
  using assms with_waiter_nth(3) [of _ m i client l]
  by (auto simp: abs_entry_def entry_ok_def dest!: queue_okD(2))

lemma enqueue_abs:
  assumes ok: "lock_ok m" and e: "map_of (locks m) i = Some e"
  shows "abs_locks (put_entry (with_waiter m i client l) (e\<lparr>le_queue := le_queue e @ [length (wheap m)]\<rparr>)) =
    fst (spec_enqueue i (client, l) (abs_locks m))" (is "abs_locks ?m' = _")
proof -
  let ?m1 = "with_waiter m i client l"
  have "map_option (abs_entry ?m1) (map_of (locks ?m') j) = ((table (abs_locks m))
      (i \<mapsto> (fst (abs_entry m e), snd (abs_entry m e) @ [(length (wheap m), client, l)]))) j" for j
    using e lock_okD(3) [OF ok] with_waiter_abs_entry [of m _ _ i client l]
    by (cases "map_of (locks m) j") (auto simp: entry_ok_def)
  moreover have "abs_locks ?m' = (abs_locks ?m1)\<lparr>table := \<lambda>j. map_option (abs_entry ?m1) (map_of (locks ?m') j)\<rparr>"
    by (rule abs_locks_table) simp
  ultimately show ?thesis
    using e by (simp add: spec_enqueue_def split_beta)
      (auto simp: abs_locks_def with_waiter_def new_waiter_def nth_append intro!: ext)
qed

lemma enqueue_refines:
  assumes ok: "lock_ok m" and room: "length (wheap m) < 2 ^ 64 - 1"
  shows "\<exists>m'. enqueue m i client l =
      (m', case snd (spec_enqueue i (client, l) (abs_locks m)) of
             None \<Rightarrow> Inl errEntryGone | Some a \<Rightarrow> Inr a)
    \<and> lock_ok m' \<and> abs_locks m' = fst (spec_enqueue i (client, l) (abs_locks m))
    \<and> (persisted m st \<longrightarrow> persisted m' st)"
proof (cases "map_of (locks m) i")
  case None
  then show ?thesis using ok by (simp add: enqueue_def spec_enqueue_def)
next
  case (Some e)
  let ?m1 = "with_waiter m i client l" and ?e = "e\<lparr>le_queue := le_queue e @ [length (wheap m)]\<rparr>"
  note heap = lock_okD(1) [OF ok] and entry = lock_okD(3) [OF ok Some]
  have "entry_ok ?m1 i ?e"
    using entry with_waiter_queued [OF heap room, of i "le_queue e"] by (simp add: entry_ok_def)
  moreover have "entry_ok ?m1 j d" if "map_of (locks m) j = Some d" for j d
    using lock_okD(3) [OF ok that] with_waiter_queue_ok [OF heap room] by (simp add: entry_ok_def)
  moreover have "lock_ok_but {} ?m1"
    using lock_okD [OF ok] with_waiter_heap_ok [OF heap room] with_waiter_queue_ok [OF heap room]
    by (simp add: lock_ok_but_def entry_ok_def)
  ultimately have "lock_ok (put_entry ?m1 ?e)"
    by - (rule lock_ok_locks [of "{}" ?m1], use lock_okD(2) [OF ok] entry in \<open>auto simp: entry_ok_def split: if_splits\<close>)
  moreover have "persisted (put_entry ?m1 ?e) st" if "persisted m st"
    using that Some entry by (auto simp: persisted_def entry_ok_def entry_payload_def entry_record_def)
  ultimately show ?thesis
    using Some enqueue_abs [OF ok Some, of client l]
    by (simp add: enqueue_def spec_enqueue_def Let_def split_beta with_waiter_def new_waiter_def)
qed

section \<open>Cancelling\<close>

lemma cancel_answers:
  assumes ok: "heap_ok m" and a: "a < length (wheap m)"
    and reg: "map_of (waiters m) (rq_Seq (request m a)) = Some a"
  shows "cancel_scan client (a # as) m =
    (if rq_Client (request m a) = client
     then cancel_scan client as (answered m LockCancelled False a)
     else map_option (\<lambda>(m', kept). (m', a # kept)) (cancel_scan client as m))"
proof -
  have "\<not> w_doneClosed (wheap m ! a)" using heap_okD(5) [OF ok reg] by simp
  moreover from this have "\<not> w_granted (wheap m ! a)" using heap_okD(3) [OF ok a] by blast
  ultimately have "close_done ((set_request_state m a LockCancelled)
        \<lparr>waiters := mdel (rq_Seq (request m a)) (waiters m)\<rparr>) a = Some (answered m LockCancelled False a)"
    using a by (cases "wheap m ! a")
      (simp add: close_done_def answered_def set_request_state_def set_waiter_def request_def)
  moreover have "rq_Seq (request (set_request_state m a LockCancelled) a) = rq_Seq (request m a)"
    using a by (simp add: request_def set_request_state_def set_waiter_def)
  ultimately show ?thesis using reg by (simp add: Let_def map_option_case split: option.split)
qed

text \<open>What the scan leaves: the client's waiters in the queue are answered with a refusal.\<close>

definition scanned :: "LockID \<Rightarrow> string \<Rightarrow> nat list \<Rightarrow> LockMgr \<Rightarrow> LockMgr \<Rightarrow> bool" where
  "scanned i client q m m' \<longleftrightarrow> lock_ok_but {i} m' \<and> locks m' = locks m \<and> ticket m' = ticket m
    \<and> abs_locks m' = (abs_locks m)\<lparr>answer := \<lambda>a. if a \<in> set q \<and> rq_Client (request m a) = client
        then Some False else answer (abs_locks m) a\<rparr>
    \<and> (\<forall>q'. queue_ok m i q' \<longrightarrow> (\<forall>a \<in> set q'. a \<in> set q \<longrightarrow> rq_Client (request m a) \<noteq> client)
        \<longrightarrow> queue_ok m' i q')"

lemma scanned_skip:
  assumes "scanned i client as m m'" and "rq_Client (request m a) \<noteq> client"
  shows "scanned i client (a # as) m m'"
proof -
  have "(b \<in> set (a # as) \<and> rq_Client (request m b) = client) =
      (b \<in> set as \<and> rq_Client (request m b) = client)" for b using assms(2) by auto
  then show ?thesis using assms unfolding scanned_def by simp
qed

lemma scanned_answer:
  assumes heap: "heap_ok m" and a: "a < length (wheap m)" "rq_Client (request m a) = client"
    and "scanned i client as (answered m LockCancelled False a) m'"
  shows "scanned i client (a # as) m m'"
proof -
  let ?m1 = "answered m LockCancelled False a"
  have rq: "rq_Client (request ?m1 b) = rq_Client (request m b)" for b
    by (simp add: answered_request [OF a(1)])
  note m' = assms(4) [unfolded scanned_def rq]
  have "abs_locks m' = (abs_locks m)\<lparr>answer := \<lambda>b. if b \<in> set (a # as) \<and> rq_Client (request m b) = client
      then Some False else answer (abs_locks m) b\<rparr>"
    unfolding m' [THEN conjunct2, THEN conjunct2, THEN conjunct2, THEN conjunct1] abs_answered [OF a(1)]
    using a(2) by (simp, intro arg_cong [where f = "\<lambda>g. (abs_locks m)\<lparr>answer := g\<rparr>"] ext) auto
  moreover have "queue_ok m' i q'"
    if "queue_ok m i q'" "\<forall>b \<in> set q'. b \<in> set (a # as) \<longrightarrow> rq_Client (request m b) \<noteq> client" for q'
  proof -
    have "a \<notin> set q'" using that(2) a(2) by auto
    then show ?thesis using m' answered_queue_ok [OF heap a(1) that(1)] that(2) by simp
  qed
  ultimately show ?thesis using m' answered_ticket [OF a(1)] unfolding scanned_def by (simp add: answered_def)
qed

lemma cancel_scan_runs:
  assumes "lock_ok_but {i} m" and "queue_ok m i q"
  shows "\<exists>m'. cancel_scan client q m = Some (m', filter (\<lambda>a. rq_Client (request m a) \<noteq> client) q)
    \<and> scanned i client q m m'"
  using assms
proof (induction q arbitrary: m)
  case Nil
  then show ?case by (simp add: scanned_def)
next
  case (Cons a as)
  note heap = lock_ok_butD(1) [OF Cons.prems(1)] and tl = queue_tl_ok [OF Cons.prems(2)]
  have a: "a < length (wheap m)" "map_of (waiters m) (rq_Seq (request m a)) = Some a"
    using queue_okD(2,5) [OF Cons.prems(2), of a] by simp_all
  note step = cancel_answers [OF heap a]
  show ?case
  proof (cases "rq_Client (request m a) = client")
    case False
    then show ?thesis using Cons.IH [OF Cons.prems(1) tl(1)] by (auto simp: step intro: scanned_skip)
  next
    case True
    let ?m1 = "answered m LockCancelled False a"
    have rq: "rq_Client (request ?m1 b) = rq_Client (request m b)" for b
      by (simp add: answered_request [OF a(1)])
    have "lock_ok_but {i} ?m1" by (rule answered_ok_but [OF Cons.prems]) simp
    moreover have "queue_ok ?m1 i as" by (rule answered_queue_ok [OF heap a(1) tl])
    ultimately show ?thesis
      using Cons.IH [of ?m1] True scanned_answer [OF heap a(1) True, of i as]
      unfolding rq by (auto simp: step simp del: cancel_scan.simps)
  qed
qed

lemma Cancel_refines:
  assumes ok: "lock_ok m"
  shows "\<exists>m'. Cancel m i client = Some m' \<and> lock_ok m'
    \<and> abs_locks m' = spec_cancel i client (abs_locks m)
    \<and> (persisted m st \<longrightarrow> persisted m' st)"
proof (cases "map_of (locks m) i")
  case None
  then show ?thesis using ok by (simp add: Cancel_def spec_cancel_def)
next
  case (Some e)
  note entry = lock_okD(3) [OF ok Some]
  then have id: "le_id e = i" and q: "queue_ok m i (le_queue e)" by (simp_all add: entry_ok_def)
  let ?keep = "filter (\<lambda>a. rq_Client (request m a) \<noteq> client) (le_queue e)"
  obtain m1 where m1: "cancel_scan client (le_queue e) m = Some (m1, ?keep)"
    "lock_ok_but {i} m1" "locks m1 = locks m" "ticket m1 = ticket m"
    "abs_locks m1 = (abs_locks m)\<lparr>answer := \<lambda>a. if a \<in> set (le_queue e) \<and> rq_Client (request m a) = client
        then Some False else answer (abs_locks m) a\<rparr>"
    "\<And>q'. queue_ok m i q' \<Longrightarrow> \<forall>b \<in> set q'. b \<in> set (le_queue e) \<longrightarrow> rq_Client (request m b) \<noteq> client
        \<Longrightarrow> queue_ok m1 i q'"
    using cancel_scan_runs [OF lock_ok_weaken [OF ok] q, of client] unfolding scanned_def by blast
  let ?e' = "e\<lparr>le_queue := ?keep\<rparr>"
  have "queue_ok m i ?keep"
    by (rule queue_ok_sub [OF q]) (use queue_okD(1) [OF q] in \<open>auto intro: sorted_wrt_filter\<close>)
  then have "entry_ok m1 i ?e'" using m1(6) entry by (simp add: entry_ok_def)
  then have ok': "lock_ok (put_entry m1 ?e')" by (rule lock_ok_put [OF m1(2)])
  have ent: "abs_entry m1 = abs_entry m" by (simp add: fun_eq_iff abs_entry_def m1(4))
  have tab: "table (abs_locks m) i = Some ((le_holder e, le_holderLease e), map (ticket m) (le_queue e))"
    by (simp add: Some abs_entry_def)
  have keep: "filter (\<lambda>(a, c, l). c \<noteq> client) (map (ticket m) (le_queue e)) = map (ticket m) ?keep"
    by (simp add: filter_map comp_def ticket_def)
  have mem: "(\<exists>c l. (a, c, l) \<in> set (map (ticket m) (le_queue e)) \<and> c = client) \<longleftrightarrow>
      a \<in> set (le_queue e) \<and> rq_Client (request m a) = client" for a
    by (auto simp: ticket_def)
  have "abs_locks (put_entry m1 ?e') = (abs_locks m1)
      \<lparr>table := (table (abs_locks m1))(i \<mapsto> ((le_holder e, le_holderLease e), map (ticket m) ?keep))\<rparr>"
    by (subst abs_locks_table [of _ m1], simp)
      (auto simp: ent id abs_entry_def abs_locks_def intro!: ext)
  also have "\<dots> = spec_cancel i client (abs_locks m)"
    unfolding spec_cancel_def tab option.case prod.case keep mem m1(5) by simp
  finally have "abs_locks (put_entry m1 ?e') = spec_cancel i client (abs_locks m)" .
  moreover have "persisted (put_entry m1 ?e') st" if "persisted m st"
    using that Some id by (auto simp: persisted_def m1(3) entry_payload_def entry_record_def)
  ultimately show ?thesis using ok' Some m1(1) by (auto simp: Cancel_def)
qed

section \<open>Releasing by lease\<close>

lemma refines_trans:
  "refines n w w1 F1 \<Longrightarrow> refines k w1 w2 F2 \<Longrightarrow> refines k w w2 F2"
  by (auto simp: refines_def intro: oextends_trans)

lemma release_ids_refines:
  assumes "lock_ok m" and "oready (n + 3 * length is) st"
  shows "\<exists>w'. release_ids alive is (m, st) = Some w'
    \<and> refines n (m, st) w' (fold (hand_over_lock alive) is (abs_locks m))"
  using assms
proof (induction "is" arbitrary: m st)
  case Nil
  then show ?case by (simp add: refines_def)
next
  case (Cons i "is")
  show ?case
  proof (cases "map_of (locks m) i")
    case None
    then have "hand_over_lock alive i (abs_locks m) = abs_locks m" by (simp add: hand_over_lock_def)
    with None Cons.IH [of m st] Cons.prems oready_less [OF Cons.prems(2)] show ?thesis by simp
  next
    case (Some e)
    have "oready ((n + 3 * length is) + 3) st" using Cons.prems(2) by (simp add: algebra_simps)
    from releaseLocked_runs [OF Cons.prems(1) Some this, of alive]
    obtain m1 st1 where w1: "releaseLocked alive (m, st) e = Some (m1, st1)"
      "refines (n + 3 * length is) (m, st) (m1, st1) (hand_over_lock alive i (abs_locks m))" by auto
    then have "lock_ok m1" "oready (n + 3 * length is) st1"
      and F: "abs_locks m1 = hand_over_lock alive i (abs_locks m)" by (simp_all add: refines_def)
    with Cons.IH [of m1 st1] obtain w' where "release_ids alive is (m1, st1) = Some w'"
      "refines n (m1, st1) w' (fold (hand_over_lock alive) is (abs_locks m1))" by blast
    then show ?thesis using w1 Some F by (auto intro: refines_trans)
  qed
qed

lemma hand_over_lock_other:
  "j \<noteq> i \<Longrightarrow> table (hand_over_lock alive i F) j = table F j"
  by (auto simp: hand_over_lock_def hand_over_def simp del: dropWhile_eq_Nil_conv
      split: option.split list.split)

lemma hand_over_lock_cong:
  "table F i = table G i \<Longrightarrow>
   table (hand_over_lock alive i F) i = table (hand_over_lock alive i G) i"
  by (auto simp: hand_over_lock_def hand_over_def simp del: dropWhile_eq_Nil_conv
      split: option.split list.split)

lemma fold_hand_over_table:
  "distinct is \<Longrightarrow> table (fold (hand_over_lock alive) is F) j =
     (if j \<in> set is then table (hand_over_lock alive j F) j else table F j)"
proof (induction "is" arbitrary: F)
  case (Cons i "is")
  have "table (hand_over_lock alive j (hand_over_lock alive i F)) j = table (hand_over_lock alive j F) j"
    if "j \<noteq> i"
    by (rule hand_over_lock_cong) (simp add: hand_over_lock_other that)
  with Cons show ?case by (auto simp: hand_over_lock_other)
qed simp

lemma affected_iff:
  assumes "lock_ok m"
  shows "i \<in> set (affected l (locks m)) \<longleftrightarrow> (\<exists>c q. table (abs_locks m) i = Some ((c, l), q))"
    and "distinct (affected l (locks m))" "length (affected l (locks m)) \<le> length (locks m)"
proof -
  have wf: "mwf (locks m)" using lock_okD(2) [OF assms] .
  show "i \<in> set (affected l (locks m)) \<longleftrightarrow> (\<exists>c q. table (abs_locks m) i = Some ((c, l), q))"
    using lock_okD(3) [OF assms]
    by (fastforce simp: affected_def image_iff mwf_in_iff [OF wf] abs_entry_def entry_ok_def)
  show "distinct (affected l (locks m))"
    using wf by (auto simp: affected_def mwf_def distinct_map_filter)
  show "length (affected l (locks m)) \<le> length (locks m)" by (simp add: affected_def)
qed

lemma ReleaseByLease_refines:
  assumes ok: "lock_ok m" and room: "oready (n + 3 * length (locks m)) st"
  shows "\<exists>w'. ReleaseByLease alive (m, st) l = Some w'
    \<and> refines n (m, st) w'
        (if alive \<noteq> None \<and> \<not> the alive l then abs_locks m
         else fold (hand_over_lock alive) (affected l (locks m)) (abs_locks m))"
proof (cases "alive \<noteq> None \<and> \<not> the alive l")
  case True
  then show ?thesis
    using ok oready_less [OF room, of n] by (simp add: ReleaseByLease_def refines_def)
next
  case False
  have "oready (n + 3 * length (affected l (locks m))) st"
    using oready_less [OF room] affected_iff(3) [OF ok, of l] by simp
  from release_ids_refines [OF ok this, of alive] False show ?thesis
    by (simp only: ReleaseByLease_def fst_conv if_False)
qed

end
