(* ===== verification/LockRuns.thy ===== *)
theory LockRuns
  imports LockProps
begin

text \<open>
  Runs of the lock manager: any number of \<^verbatim>\<open>Acquire\<close> calls between their critical sections,
  releases, and releases by lease, in any interleaving, with a lease checker that may answer
  differently at every step. The steps are those for which the store and the 64-bit sequence
  number have room.
\<close>

record acquire_call =
  c_id :: LockID
  c_client :: string
  c_lease :: LeaseID
  c_pc :: acquire_pc

record lock_run =
  lworld :: lock_world
  calls :: "acquire_call list"

definition has_room_for_step :: "lock_world \<Rightarrow> bool" where
  "has_room_for_step w \<longleftrightarrow> oready (3 * length (locks (fst w)) + 3) (snd w)
     \<and> length (wheap (fst w)) < 2 ^ 64 - 1"

inductive lock_step :: "lock_run \<Rightarrow> lock_run \<Rightarrow> bool" where
  call: "lock_step r (r\<lparr>calls := calls r @ [\<lparr>c_id = i, c_client = client, c_lease = l, c_pc = Attempt\<rparr>]\<rparr>)"
| run_call: "k < length (calls r) \<Longrightarrow> calls r ! k = c \<Longrightarrow> has_room_for_step (lworld r) \<Longrightarrow>
    acquire_step (c_id c) (c_client c) (c_lease c) (lworld r, c_pc c) (w', pc') \<Longrightarrow>
    lock_step r (r\<lparr>lworld := w', calls := (calls r)[k := c\<lparr>c_pc := pc'\<rparr>]\<rparr>)"
| release: "has_room_for_step (lworld r) \<Longrightarrow> Release alive (lworld r) i client = Some (w', res) \<Longrightarrow>
    lock_step r (r\<lparr>lworld := w'\<rparr>)"
| release_lease: "has_room_for_step (lworld r) \<Longrightarrow> ReleaseByLease alive (lworld r) l = Some w' \<Longrightarrow>
    lock_step r (r\<lparr>lworld := w'\<rparr>)"

definition lock_start :: "lock_run \<Rightarrow> bool" where
  "lock_start r \<longleftrightarrow> fst (lworld r) = NewLockMgr \<and> calls r = []
     \<and> (\<forall>i. oview (snd (lworld r)) (lockKey i) = None)"

definition lock_inv :: "lock_run \<Rightarrow> bool" where
  "lock_inv r \<longleftrightarrow> lock_ok (fst (lworld r)) \<and> persisted (fst (lworld r)) (snd (lworld r))"

section \<open>What one step does to the lock service\<close>

text \<open>The moves of the abstract service that a step of the run can make.\<close>

inductive service_move :: "lock_service \<Rightarrow> lock_service \<Rightarrow> bool" where
  stay: "service_move F F"
| try_move: "service_move F (fst (spec_try i c F))"
| enqueue_move: "service_move F (fst (spec_enqueue i c F))"
| cancel_move: "service_move F (spec_cancel i client F)"
| release_move: "service_move F (fst (spec_release alive i client F))"
| lease_move: "service_move F (fold (hand_over_lock alive) is F)"

lemma acquire_step_sound:
  assumes "acquire_step i client l (w, pc) (w', pc')"
    and "lock_ok (fst w)" and "persisted (fst w) (snd w)" and "has_room_for_step w"
  shows "lock_ok (fst w') \<and> persisted (fst w') (snd w')
    \<and> service_move (abs_locks (fst w)) (abs_locks (fst w'))"
proof -
  obtain m st where w: "w = (m, st)" by (cases w)
  have ok: "lock_ok m" "persisted m st" and room: "oready (Suc 0) st" "length (wheap m) < 2 ^ 64 - 1"
    using assms(2-4) oready_less [of _ st "Suc 0"] by (auto simp: w has_room_for_step_def)
  have tr: "lock_ok (fst v) \<and> persisted (fst v) (snd v) \<and> service_move (abs_locks m) (abs_locks (fst v))"
    if "TryAcquire (m, st) i client l = Some (v, b, err)" for v b err
    using TryAcquire_refines [OF ok(1) room(1), of i client l] that ok(2)
      try_move [of "abs_locks m" i "(client, l)"]
    by (auto simp: refines_def)
  have enq: "lock_ok m1 \<and> persisted m1 st \<and> service_move (abs_locks m) (abs_locks m1)"
    if "enqueue m i client l = (m1, res)" for m1 res
    using enqueue_refines [OF ok(1) room(2), of i client l st] that ok(2)
      enqueue_move [of "abs_locks m" i "(client, l)"] by auto
  have can: "lock_ok m1 \<and> persisted m1 st \<and> service_move (abs_locks m) (abs_locks m1)"
    if "Cancel m i client = Some m1" for m1
    using Cancel_refines [OF ok(1), of i client st] that ok(2)
      cancel_move [of "abs_locks m" i client] by auto
  from assms(1) show ?thesis
    unfolding w by cases (use tr enq can ok stay in auto)
qed

lemma lock_step_sound:
  assumes "lock_step r r'" and "lock_inv r"
  shows "lock_inv r' \<and> service_move (abs_locks (fst (lworld r))) (abs_locks (fst (lworld r')))"
  using assms(1)
proof cases
  case (call i client l)
  with assms(2) show ?thesis by (simp add: lock_inv_def stay)
next
  case (run_call k c w' pc')
  with assms(2) acquire_step_sound [OF run_call(5)] show ?thesis by (simp add: lock_inv_def)
next
  case (release alive i client w' res)
  obtain m st where w: "lworld r = (m, st)" by (cases "lworld r")
  have "oready (0 + 3) st" using release(2) by (auto simp: w has_room_for_step_def intro: oready_less)
  with Release_refines [of m 0 st alive i client] release assms(2)
    release_move [of "abs_locks m" alive i client]
  show ?thesis by (auto simp: w lock_inv_def refines_def)
next
  case (release_lease alive l w')
  obtain m st where w: "lworld r = (m, st)" by (cases "lworld r")
  have "oready (0 + 3 * length (locks m)) st"
    using release_lease(2) by (auto simp: w has_room_for_step_def intro: oready_less)
  with ReleaseByLease_refines [of m 0 st alive l] release_lease assms(2)
    lease_move [of "abs_locks m" alive "affected l (locks m)"] stay [of "abs_locks m"]
  show ?thesis by (auto simp: w lock_inv_def refines_def split: if_splits)
qed

lemma lock_start_inv: "lock_start r \<Longrightarrow> lock_inv r"
  using lock_ok_New by (simp add: lock_start_def lock_inv_def persisted_def) (simp add: NewLockMgr_def)

interpretation lock_runs: invariant_system lock_start lock_step lock_inv
  by unfold_locales (auto intro: lock_start_inv dest: lock_step_sound)

section \<open>Waiters that nobody will answer\<close>

definition in_queue :: "lock_service \<Rightarrow> LockID \<Rightarrow> nat \<Rightarrow> bool" where
  "in_queue F i a \<longleftrightarrow> (\<exists>h q c. table F i = Some (h, q) \<and> (a, c) \<in> set q)"

definition stranded :: "lock_service \<Rightarrow> nat \<Rightarrow> bool" where
  "stranded F a \<longleftrightarrow> a < tickets F \<and> answer F a = None \<and> (\<forall>i. \<not> in_queue F i a)"

lemma stranded_hand_over:
  assumes "stranded F a" and "table F i = Some (h, q)"
  shows "stranded (hand_over alive i q F) a"
proof (cases "dropWhile (\<lambda>(a, c, l). dead alive l) q")
  case Nil
  then show ?thesis
    using assms(1) by (simp add: stranded_def hand_over_def in_queue_def del: dropWhile_eq_Nil_conv)
next
  case (Cons x q')
  then have sub: "set (x # q') \<subseteq> set q" using set_dropWhileD by (metis subsetI)
  have "(a, c) \<notin> set (x # q')" for c
    using assms sub unfolding stranded_def in_queue_def by blast
  then have "fst x \<noteq> a" "\<And>c. (a, c) \<notin> set q'" by (metis list.set_intros prod.collapse)+
  then show ?thesis
    using assms(1) Cons by (cases x) (simp add: stranded_def hand_over_def in_queue_def)
qed

lemma stranded_hand_over_lock: "stranded F a \<Longrightarrow> stranded (hand_over_lock alive i F) a"
  by (auto simp: hand_over_lock_def intro: stranded_hand_over split: option.split)

lemma stranded_move: "service_move F G \<Longrightarrow> stranded F a \<Longrightarrow> stranded G a"
proof (induction rule: service_move.induct)
  case (stay F)
  then show ?case .
next
  case (try_move F i c)
  then show ?case by (auto simp: spec_try_def stranded_def in_queue_def)
next
  case (enqueue_move F i c)
  then show ?case
    by (cases "table F i") (auto simp: spec_enqueue_def stranded_def in_queue_def split: if_splits)
next
  case (cancel_move F i client)
  then show ?case
    by (cases "table F i") (auto simp: spec_cancel_def stranded_def in_queue_def split: if_splits)
next
  case (release_move F alive i client)
  then show ?case
    by (auto simp: spec_release_def intro: stranded_hand_over split: option.split)
next
  case (lease_move F alive "is")
  then show ?case
    by (induction "is" arbitrary: F) (auto intro: stranded_hand_over_lock)
qed

lemma stranded_run:
  "lock_step\<^sup>*\<^sup>* r r' \<Longrightarrow> lock_inv r \<Longrightarrow> stranded (abs_locks (fst (lworld r))) a \<Longrightarrow>
   lock_inv r' \<and> stranded (abs_locks (fst (lworld r'))) a"
  by (induction rule: rtranclp_induct) (auto dest: lock_step_sound intro: stranded_move)

lemma stranded_unanswered: "stranded (abs_locks m) a \<Longrightarrow> \<not> w_doneClosed (wheap m ! a)"
  by (auto simp: stranded_def abs_locks_def split: if_splits)

text \<open>The waiters that a hand-over passes by.\<close>

lemma passed_by_stranded:
  assumes ok: "lock_ok m" and e: "map_of (locks m) i = Some e"
    and a: "a \<in> set (takeWhile (\<lambda>b. dead alive (rq_LeaseID (request m b))) (le_queue e))"
  shows "stranded (hand_over_lock alive i (abs_locks m)) a"
proof -
  let ?P = "\<lambda>b. dead alive (rq_LeaseID (request m b))"
  note q = lock_okD(3) [OF ok e]
  then have q: "queue_ok m i (le_queue e)" by (simp add: entry_ok_def)
  have mem: "a \<in> set (le_queue e)" using a set_takeWhileD by metis
  have dist: "distinct (le_queue e)" using queue_okD(1) [OF q] by (simp add: strict_sorted_iff)
  have split: "le_queue e = takeWhile ?P (le_queue e) @ dropWhile ?P (le_queue e)" by simp
  have notin: "a \<notin> set (dropWhile ?P (le_queue e))"
    using dist a by (subst (asm) split) (simp only: distinct_append, blast)
  have drop_map: "dropWhile (\<lambda>(a, c, l). dead alive l) (map (ticket m) xs) = map (ticket m) (dropWhile ?P xs)"
    for xs by (induction xs) (auto simp: ticket_def)
  have "\<not> w_doneClosed (wheap m ! a)"
    using heap_okD(5) [OF lock_okD(1) [OF ok] queue_okD(5) [OF q mem]] by simp
  then have base: "a < tickets (abs_locks m)" "answer (abs_locks m) a = None"
    using queue_okD(2) [OF q mem] by (simp_all add: abs_locks_def)
  have others: "\<not> in_queue (abs_locks m) j a" if "j \<noteq> i" for j
  proof
    assume "in_queue (abs_locks m) j a"
    then obtain d where d: "map_of (locks m) j = Some d" "a \<in> set (le_queue d)"
      by (auto simp: in_queue_def abs_entry_def ticket_def)
    then show False
      using other_queue [OF q _ _ mem, of j "le_queue d"] lock_okD(3) [OF ok d(1)] that
      by (simp add: entry_ok_def)
  qed
  have H: "hand_over_lock alive i (abs_locks m) =
      hand_over alive i (map (ticket m) (le_queue e)) (abs_locks m)"
    using e by (simp add: hand_over_lock_def abs_entry_def)
  show ?thesis
  proof (cases "dropWhile ?P (le_queue e)")
    case Nil
    then have "hand_over_lock alive i (abs_locks m) = (abs_locks m)\<lparr>table := (table (abs_locks m))(i := None)\<rparr>"
      by (simp add: H hand_over_def drop_map del: dropWhile_eq_Nil_conv)
    then show ?thesis using base others by (simp add: stranded_def in_queue_def del: table_abs)
  next
    case (Cons b q')
    then have F: "hand_over_lock alive i (abs_locks m) =
        (abs_locks m)\<lparr>table := (table (abs_locks m))(i \<mapsto> (snd (ticket m b), map (ticket m) q')),
          answer := (answer (abs_locks m))(b \<mapsto> True)\<rparr>"
      by (simp add: H hand_over_def drop_map ticket_def)
    have "a \<noteq> b" "a \<notin> set q'" using notin Cons by auto
    moreover from this have "\<not> in_queue (hand_over_lock alive i (abs_locks m)) i a"
      by (auto simp: F in_queue_def ticket_def)
    moreover have "\<not> in_queue (hand_over_lock alive i (abs_locks m)) j a" if "j \<noteq> i" for j
      using others [OF that] that by (simp add: F in_queue_def del: table_abs)
    ultimately have "\<not> in_queue (hand_over_lock alive i (abs_locks m)) j a" for j by (cases "j = i") auto
    then show ?thesis using base \<open>a \<noteq> b\<close> unfolding stranded_def by (simp add: F)
  qed
qed

end
