(* ===== verification/LockTheorems.thy ===== *)
theory LockTheorems
  imports LockRuns
begin

text \<open>
  The properties of the lock manager: it implements a table of locks with first-in first-out
  queues, keeps the stored lock states equal to the ones in memory, and what happens to waiters
  with dead leases, to waiters that give up while they are being granted the lock, and to the
  locks of a lease that ends.
\<close>

section \<open>Worlds for the witnesses\<close>

definition alive_none :: LeaseChecker where "alive_none l = False"

definition free16 :: lock_world where "free16 = (NewLockMgr, Some (New 16))"

text \<open>Client \<open>a\<close> holds lock \<open>L\<close>; \<open>b\<close> with lease \<open>x\<close> and \<open>c\<close> without a lease wait for it.\<close>

definition held16 :: lock_world where
  "held16 = (case TryAcquire free16 ''L'' ''a'' [] of Some (w, _) \<Rightarrow> w | None \<Rightarrow> free16)"

definition queued16 :: lock_world where
  "queued16 =
     (let m1 = fst (enqueue (fst held16) ''L'' ''b'' ''x'');
          m2 = fst (enqueue m1 ''L'' ''c'' [])
      in (m2, snd held16))"

lemma free16_ok: "lock_ok (fst free16)" "oready 100 (snd free16)" "persisted (fst free16) (snd free16)"
  using lock_ok_New store_ready_New [of 16 100]
  by (simp_all add: free16_def oready_def persisted_def oview_def stored_New)
    (simp add: NewLockMgr_def)

lemma held16_ok: "lock_ok (fst held16)" "oready 99 (snd held16)" "persisted (fst held16) (snd held16)"
proof -
  obtain w' where w': "TryAcquire free16 ''L'' ''a'' [] =
      Some (w', snd (spec_try ''L'' (''a'', []) (abs_locks (fst free16))), None)"
    "refines 99 free16 w' (fst (spec_try ''L'' (''a'', []) (abs_locks (fst free16))))"
    using TryAcquire_refines [OF free16_ok(1), of 99 "snd free16" "''L''" "''a''" "[]"] free16_ok(2)
    by auto
  then have "held16 = w'" by (simp add: held16_def)
  with w'(2) free16_ok(3) show "lock_ok (fst held16)" "oready 99 (snd held16)"
    "persisted (fst held16) (snd held16)" by (simp_all add: refines_def)
qed

lemma held16_heap: "wheap (fst held16) = []"
  by (code_simp)

lemma queued16_ok:
  "lock_ok (fst queued16)" "oready 99 (snd queued16)" "persisted (fst queued16) (snd queued16)"
proof -
  let ?m1 = "fst (enqueue (fst held16) ''L'' ''b'' ''x'')"
  have 1: "lock_ok ?m1" "persisted ?m1 (snd held16)"
    using enqueue_refines [OF held16_ok(1), of "''L''" "''b''" "''x''" "snd held16"] held16_ok(3)
    by (auto simp: held16_heap)
  have "wheap ?m1 = [wheap ?m1 ! 0]" by code_simp
  then have "length (wheap ?m1) < 2 ^ 64 - 1" by (simp add: list_eq_iff_nth_eq)
  then have "lock_ok (fst (enqueue ?m1 ''L'' ''c'' []))"
    "persisted (fst (enqueue ?m1 ''L'' ''c'' [])) (snd held16)"
    using enqueue_refines [OF 1(1), of "''L''" "''c''" "[]" "snd held16"] 1(2) by auto
  then show "lock_ok (fst queued16)" "oready 99 (snd queued16)" "persisted (fst queued16) (snd queued16)"
    using held16_ok(2) by (simp_all add: queued16_def Let_def)
qed

lemma queued16_table:
  "table (abs_locks (fst queued16)) ''L'' = Some ((''a'', []), [(0, ''b'', ''x''), (1, ''c'', [])])"
  by code_simp

lemma queued16_hand_over:
  "hand_over (Some alive_none) ''L'' [(0, ''b'', ''x''), (Suc 0, ''c'', [])] F =
    F\<lparr>table := (table F)(''L'' \<mapsto> ((''c'', []), [])), answer := (answer F)(Suc 0 \<mapsto> True)\<rparr>"
  by (simp add: hand_over_def dead_def alive_none_def)

lemma queued16_release:
  "\<exists>w'. Release (Some alive_none) queued16 ''L'' ''a'' = Some (w', None)
     \<and> answer (abs_locks (fst w')) 1 = Some True"
proof -
  have "oready (0 + 3) (snd queued16)" using oready_less [OF queued16_ok(2)] by simp
  from Release_refines [OF queued16_ok(1) this, of "Some alive_none" "''L''" "''a''"]
  show ?thesis
    by (auto simp: refines_def spec_release_def queued16_table queued16_hand_over simp del: table_abs)
qed

section \<open>The lock service is implemented\<close>

text \<open>
  C2: releasing a lock implements the abstract release on every branch. An unknown lock gives
  \<^verbatim>\<open>ErrUnlocked\<close>, a client that is not the holder \<^verbatim>\<open>ErrNotHolder\<close>, both with nothing changed;
  otherwise the lock goes to the first waiter in order of arrival whose lease is not dead, who
  is answered, or becomes free when there is none. The call does not panic, keeps the
  representation invariant, and leaves every stored lock state equal to the one in memory.
\<close>

theorem release_implements_fifo:
  assumes "lock_ok (fst w)" and "oready (n + 3) (snd w)"
  shows "\<exists>w'. Release alive w i client =
      Some (w', snd (spec_release alive i client (abs_locks (fst w))))
    \<and> lock_ok (fst w') \<and> abs_locks (fst w') = fst (spec_release alive i client (abs_locks (fst w)))
    \<and> oready n (snd w')
    \<and> (persisted (fst w) (snd w) \<longrightarrow> persisted (fst w') (snd w'))"
  using Release_refines [OF assms, of alive i client] by (auto simp: refines_def)

theorem release_implements_fifo_witness:
  "\<exists>w'. Release (Some alive_none) queued16 ''L'' ''a'' = Some (w', None)
    \<and> table (abs_locks (fst w')) ''L'' = Some ((''c'', []), [])
    \<and> answer (abs_locks (fst w')) 1 = Some True \<and> answer (abs_locks (fst w')) 0 = None"
proof -
  have ans: "answer (abs_locks (fst queued16)) 0 = None" by code_simp
  have "oready (0 + 3) (snd queued16)" using oready_less [OF queued16_ok(2)] by simp
  from release_implements_fifo [OF queued16_ok(1) this, of "Some alive_none" "''L''" "''a''"]
  show ?thesis
    using ans by (auto simp add: spec_release_def queued16_table queued16_hand_over simp del: table_abs)
qed

text \<open>
  C14: acquiring without waiting takes exactly a lock that is not in the table and stores its
  new state; joining the queue of a lock appends the caller behind all waiters, and reports
  that the entry vanished when the lock was freed in between. Neither panics, both keep the
  representation invariant and the agreement with the store.
\<close>

theorem acquire_implements_fifo:
  assumes "lock_ok m" and "oready (Suc n) st" and "length (wheap m) < 2 ^ 64 - 1"
  shows "(\<exists>w'. TryAcquire (m, st) i client l = Some (w', table (abs_locks m) i = None, None)
      \<and> lock_ok (fst w') \<and> abs_locks (fst w') = fst (spec_try i (client, l) (abs_locks m))
      \<and> oready n (snd w') \<and> (persisted m st \<longrightarrow> persisted (fst w') (snd w')))
    \<and> (\<exists>m'. enqueue m i client l =
          (m', if table (abs_locks m) i = None then Inl errEntryGone else Inr (length (wheap m)))
      \<and> lock_ok m' \<and> abs_locks m' = fst (spec_enqueue i (client, l) (abs_locks m))
      \<and> (persisted m st \<longrightarrow> persisted m' st))"
proof -
  have "snd (spec_try i (client, l) (abs_locks m)) = (table (abs_locks m) i = None)"
    by (simp add: spec_try_def)
  moreover have "(case snd (spec_enqueue i (client, l) (abs_locks m)) of
      None \<Rightarrow> Inl errEntryGone | Some a \<Rightarrow> Inr a) =
      (if table (abs_locks m) i = None then Inl errEntryGone else Inr (length (wheap m)))"
    by (auto simp add: spec_enqueue_def simp del: table_abs split: option.split prod.split)
  ultimately show ?thesis
    using TryAcquire_refines [OF assms(1,2), of i client l]
      enqueue_refines [OF assms(1,3), of i client l st]
    by (auto simp: refines_def)
qed

theorem acquire_implements_fifo_witness:
  "(\<exists>w'. TryAcquire (fst held16, snd held16) ''L'' ''b'' ''x'' = Some (w', False, None))
   \<and> (\<exists>m'. enqueue (fst held16) ''L'' ''b'' ''x'' = (m', Inr 0)
        \<and> table (abs_locks m') ''L'' = Some ((''a'', []), [(0, ''b'', ''x'')]))"
proof -
  have tab: "table (abs_locks (fst held16)) ''L'' = Some ((''a'', []), [])"
    "tickets (abs_locks (fst held16)) = 0" by code_simp+
  have "oready (Suc 98) (snd held16)" "length (wheap (fst held16)) < 2 ^ 64 - 1"
    using held16_ok(2) by (simp_all add: held16_heap)
  from acquire_implements_fifo [OF held16_ok(1) this, of "''L''" "''b''" "''x''"]
  show ?thesis by (auto simp add: tab spec_enqueue_def held16_heap simp del: table_abs)
qed

text \<open>
  C20: a waiter that gives up leaves the queue, as does every other wait of the same client for
  the lock, and is answered that it did not get the lock. The other waiters keep their order.
\<close>

theorem cancel_implements_fifo:
  assumes "lock_ok m"
  shows "\<exists>m'. Cancel m i client = Some m' \<and> lock_ok m'
    \<and> abs_locks m' = spec_cancel i client (abs_locks m)
    \<and> (persisted m st \<longrightarrow> persisted m' st)"
  by (rule Cancel_refines [OF assms])

theorem cancel_implements_fifo_witness:
  "\<exists>m'. Cancel (fst queued16) ''L'' ''b'' = Some m'
    \<and> table (abs_locks m') ''L'' = Some ((''a'', []), [(1, ''c'', [])])
    \<and> answer (abs_locks m') 0 = Some False"
proof -
  from cancel_implements_fifo [OF queued16_ok(1), of "''L''" "''b''" None]
  show ?thesis by (auto simp add: spec_cancel_def queued16_table simp del: table_abs)
qed

text \<open>
  Nobody overtakes. When a release answers a waiter, every waiter of that lock that had
  been waiting longer has a lease that is dead at that moment.
\<close>

theorem no_overtaking:
  assumes "lock_ok (fst w)" and "oready (n + 3) (snd w)"
    and "table (abs_locks (fst w)) i = Some (h, q)"
    and "(a, c) \<in> set q" and "(b, d) \<in> set q" and "b < a"
    and "Release alive w i client = Some (w', None)"
    and "answer (abs_locks (fst w')) a = Some True"
  shows "dead alive (snd d)"
proof -
  obtain e where e: "map_of (locks (fst w)) i = Some e"
    "abs_entry (fst w) e = (h, q)" using assms(3) by auto
  have q: "queue_ok (fst w) i (le_queue e)"
    using lock_okD(3) [OF assms(1) e(1)] by (simp add: entry_ok_def)
  have qs: "q = map (ticket (fst w)) (le_queue e)" using e(2) by (simp add: abs_entry_def)
  then have fsts: "map fst q = le_queue e" by (simp add: ticket_def comp_def)
  have ord: "sorted_wrt (<) (map fst q)" using queue_okD(1) [OF q] by (simp only: fsts)
  have "a \<in> set (le_queue e)" using assms(4) by (auto simp: qs ticket_def)
  then have "\<not> w_doneClosed (wheap (fst w) ! a)"
    using heap_okD(5) [OF lock_okD(1) [OF assms(1)]] queue_okD(5) [OF q] by blast
  then have unanswered: "answer (abs_locks (fst w)) a = None" by (simp add: abs_locks_def)
  have F: "abs_locks (fst w') = hand_over alive i q (abs_locks (fst w))"
    using Release_refines [of "fst w" n "snd w" alive i client] assms
    by (cases h) (auto simp: refines_def spec_release_def simp del: table_abs split: if_splits)
  let ?P = "\<lambda>(a, c, l). dead alive l"
  show ?thesis
  proof (cases "dropWhile ?P q")
    case Nil
    then show ?thesis using assms(8) unanswered by (simp add: F hand_over_def del: dropWhile_eq_Nil_conv)
  next
    case (Cons x q')
    then have "fst x = a"
      using assms(8) unanswered by (cases x) (auto simp: F hand_over_def split: if_splits)
    obtain t where t: "t = takeWhile ?P q" by blast
    have q: "q = t @ x # q'" using takeWhile_dropWhile_id [of ?P q] Cons by (simp add: t)
    have "fst x < fst y" if "y \<in> set q'" for y
      using ord that by (auto simp: q sorted_wrt_append)
    from this [of "(b, d)"] have "(b, d) \<noteq> x \<and> (b, d) \<notin> set q'"
      using \<open>fst x = a\<close> assms(6) by auto
    then have "(b, d) \<in> set t" using assms(5) by (auto simp: q)
    then show ?thesis by (auto simp: t dest: set_takeWhileD split: prod.splits)
  qed
qed

theorem no_overtaking_witness: "dead (Some alive_none) ''x''"
proof -
  obtain w' where w': "Release (Some alive_none) queued16 ''L'' ''a'' = Some (w', None)"
    "answer (abs_locks (fst w')) 1 = Some True"
    using queued16_release by blast
  have "oready (0 + 3) (snd queued16)" using oready_less [OF queued16_ok(2)] by simp
  from no_overtaking [OF queued16_ok(1) this queued16_table _ _ _ w', of "(''c'', [])" 0 "(''b'', ''x'')"]
  show ?thesis by simp
qed

text \<open>
  C8: in every state that calls and releases can reach, in any interleaving and with any
  answers of the lease checker, every tracked lock is held, its queue holds waiting requests
  for that lock in order of arrival, every one of them registered with an open channel, and the
  state stored under the lock's key is exactly the one in memory, with nothing stored for a
  lock that is free.
\<close>

theorem reachable_locks_consistent:
  assumes "lock_start r" and "lock_step\<^sup>*\<^sup>* r r'" and "lworld r' = (m, Some s)"
  shows "(\<forall>i e. map_of (locks m) i = Some e \<longrightarrow> le_state e = LockHeld \<and> sorted_wrt (<) (le_queue e)
      \<and> (\<forall>a \<in> set (le_queue e). rq_ID (request m a) = i \<and> rq_State (request m a) = LockWaiting
           \<and> map_of (waiters m) (rq_Seq (request m a)) = Some a \<and> \<not> w_doneClosed (wheap m ! a)))
    \<and> (\<forall>i. stored s (lockKey i) =
         map_option (\<lambda>e. lock_payload (entry_record e)) (map_of (locks m) i))"
proof -
  have inv: "lock_ok m" "persisted m (Some s)"
    using lock_runs.reachable_inv [OF assms(1,2)] assms(3) by (simp_all add: lock_inv_def)
  have "le_state e = LockHeld \<and> sorted_wrt (<) (le_queue e)
      \<and> (\<forall>a \<in> set (le_queue e). rq_ID (request m a) = i \<and> rq_State (request m a) = LockWaiting
           \<and> map_of (waiters m) (rq_Seq (request m a)) = Some a \<and> \<not> w_doneClosed (wheap m ! a))"
    if "map_of (locks m) i = Some e" for i e
  proof -
    have held: "le_state e = LockHeld" and q: "queue_ok m i (le_queue e)"
      using lock_okD(3) [OF inv(1) that] by (simp_all add: entry_ok_def)
    have "\<not> w_doneClosed (wheap m ! a)" if "a \<in> set (le_queue e)" for a
      using heap_okD(5) [OF lock_okD(1) [OF inv(1)] queue_okD(5) [OF q that]] by blast
    then show ?thesis using held queue_okD [OF q] by blast
  qed
  moreover have "stored s (lockKey i) =
      map_option (\<lambda>e. lock_payload (entry_record e)) (map_of (locks m) i)" for i
    using inv(2) by (cases "map_of (locks m) i") (simp_all add: persisted_def oview_def entry_payload_def)
  ultimately show ?thesis by blast
qed

definition empty_run :: lock_run where "empty_run = \<lparr>lworld = free16, calls = []\<rparr>"

definition called_run :: lock_run where
  "called_run = empty_run\<lparr>calls := [\<lparr>c_id = ''L'', c_client = ''a'', c_lease = [], c_pc = Attempt\<rparr>]\<rparr>"

definition held_run :: lock_run where
  "held_run = called_run\<lparr>lworld := held16,
     calls := [\<lparr>c_id = ''L'', c_client = ''a'', c_lease = [], c_pc = Returned None\<rparr>]\<rparr>"

lemma empty_run_start: "lock_start empty_run"
  by (simp add: lock_start_def empty_run_def free16_def oview_def stored_New)

lemma held_run_steps: "lock_step\<^sup>*\<^sup>* empty_run held_run"
proof -
  have "TryAcquire free16 ''L'' ''a'' [] = Some (held16, True, None)" by code_simp
  then have "acquire_step ''L'' ''a'' [] (free16, Attempt) (held16, Returned None)"
    by (rule attempt_granted)
  moreover have "oready 3 (snd free16)" by (rule oready_less [OF free16_ok(2)]) simp
  then have "has_room_for_step free16"
    by (simp add: has_room_for_step_def free16_def NewLockMgr_def)
  ultimately have "lock_step called_run held_run"
    using lock_step.run_call [of 0 called_run _ held16 "Returned None"]
    by (simp add: called_run_def held_run_def empty_run_def)
  moreover have "lock_step empty_run called_run"
    using lock_step.call [of empty_run "''L''" "''a''" "[]"] by (simp add: called_run_def empty_run_def)
  ultimately show ?thesis by (meson rtranclp.simps)
qed

theorem reachable_locks_consistent_witness:
  "\<exists>s. lworld held_run = (fst held16, Some s)
    \<and> stored s ''locks/L'' = Some (''a'' @ [NUL] @ [NUL] @ ''3'')"
proof -
  obtain s where s: "lworld held_run = (fst held16, Some s)"
  proof -
    have "Option.is_none (snd held16) = False" by code_simp
    then show ?thesis using that by (cases "snd held16") (simp_all add: held_run_def prod_eq_iff)
  qed
  have e: "map_option (\<lambda>e. lock_payload (entry_record e)) (map_of (locks (fst held16)) ''L'') =
      Some (''a'' @ [NUL] @ [NUL] @ ''3'')" by code_simp
  have "stored s (lockKey ''L'') = Some (''a'' @ [NUL] @ [NUL] @ ''3'')"
    using reachable_locks_consistent [OF empty_run_start held_run_steps s] by (simp only: e)
  with s show ?thesis by (simp add: lockKey_def)
qed

text \<open>
  C25: a waiter that a release passes by because its lease is dead is never answered: it has
  left the queue, its channel stays open, and in whatever run follows no step closes it, so its
  \<^verbatim>\<open>Acquire\<close> call can only end through its own context.
\<close>

theorem dead_waiter_never_answered:
  assumes "lock_inv r" and "has_room_for_step (lworld r)"
    and "map_of (locks (fst (lworld r))) i = Some e" and "le_holder e = client"
    and "a \<in> set (takeWhile (\<lambda>b. dead alive (rq_LeaseID (request (fst (lworld r)) b))) (le_queue e))"
    and "Release alive (lworld r) i client = Some (w', res)"
    and "lock_step\<^sup>*\<^sup>* (r\<lparr>lworld := w'\<rparr>) r'"
  shows "\<not> w_doneClosed (wheap (fst (lworld r')) ! a)
    \<and> \<not> in_queue (abs_locks (fst (lworld r'))) i a"
proof -
  obtain m st where w: "lworld r = (m, st)" by (cases "lworld r")
  have ok: "lock_ok m" using assms(1) by (simp add: lock_inv_def w)
  have e: "map_of (locks m) i = Some e" using assms(3) by (simp add: w)
  have room: "oready (0 + 3) st" using assms(2) by (auto simp: w has_room_for_step_def intro: oready_less)
  have "table (abs_locks m) i = Some ((client, le_holderLease e), map (ticket m) (le_queue e))"
    using assms(4) e by (simp add: abs_entry_def)
  then have "fst (spec_release alive i client (abs_locks m)) = hand_over_lock alive i (abs_locks m)"
    by (simp add: spec_release_def hand_over_lock_def del: table_abs)
  then have "abs_locks (fst w') = hand_over_lock alive i (abs_locks m)"
    using Release_refines [OF ok room, of alive i client] assms(6) by (auto simp: refines_def w)
  then have "stranded (abs_locks (fst w')) a"
    using passed_by_stranded [OF ok e] assms(5) by (simp add: w)
  moreover have "lock_step r (r\<lparr>lworld := w'\<rparr>)" by (rule lock_step.release [OF assms(2,6)])
  then have "lock_inv (r\<lparr>lworld := w'\<rparr>)" using lock_step_sound assms(1) by blast
  ultimately have "stranded (abs_locks (fst (lworld r'))) a"
    using stranded_run [OF assms(7)] by simp
  then show ?thesis using stranded_unanswered by (auto simp: stranded_def)
qed

definition queued_run :: lock_run where "queued_run = \<lparr>lworld = queued16, calls = []\<rparr>"

theorem dead_waiter_never_answered_witness:
  "\<exists>w'. Release (Some alive_none) queued16 ''L'' ''a'' = Some (w', None)
    \<and> \<not> w_doneClosed (wheap (fst w') ! 0)"
proof -
  obtain w' where w': "Release (Some alive_none) queued16 ''L'' ''a'' = Some (w', None)"
    using queued16_release by blast
  obtain e where e: "map_of (locks (fst queued16)) ''L'' = Some e" "le_holder e = ''a''"
    using queued16_table by (auto simp: abs_entry_def)
  have ids: "map (\<lambda>e. le_queue e) (map snd (locks (fst queued16))) = [[0, 1]]"
    "rq_LeaseID (request (fst queued16) 0) = ''x''" by code_simp+
  have "le_queue e \<in> set (map (\<lambda>e. le_queue e) (map snd (locks (fst queued16))))"
    using map_of_SomeD [OF e(1)] by force
  then have q: "le_queue e = [0, 1]" by (simp only: ids) simp
  have "0 \<in> set (takeWhile (\<lambda>b. dead (Some alive_none) (rq_LeaseID (request (fst queued16) b))) (le_queue e))"
    by (simp add: q ids dead_def alive_none_def)
  moreover have "lock_inv queued_run"
    using queued16_ok(1,3) by (simp add: lock_inv_def queued_run_def)
  moreover have "has_room_for_step queued16"
  proof -
    have "length (locks (fst queued16)) = 1" "length (wheap (fst queued16)) = 2" by code_simp+
    moreover have "oready 6 (snd queued16)" by (rule oready_less [OF queued16_ok(2)]) simp
    ultimately show ?thesis by (simp add: has_room_for_step_def)
  qed
  ultimately show ?thesis
    using dead_waiter_never_answered [of queued_run "''L''" e "''a''" 0 "Some alive_none" w' None
        "queued_run\<lparr>lworld := w'\<rparr>"] e w'
    by (simp add: queued_run_def)
qed

text \<open>
  A call can report a timeout for a lock it has been granted. When the waiter was answered
  and the context is done too, the \<^verbatim>\<open>select\<close> may take either case: one returns success, the
  other cancels, which finds nothing to remove, and returns \<^verbatim>\<open>ErrTimedOut\<close> while the table
  keeps the client as the holder of the lock.
\<close>

theorem timed_out_call_may_hold_lock:
  assumes "lock_ok m" and "table (abs_locks m) i = Some ((client, l), q)"
    and "answer (abs_locks m) a = Some True" and "client \<notin> set (map (fst \<circ> snd) q)"
  shows "acquire_step i client l ((m, st), WaitFor a) ((m, st), Returned None)
    \<and> (\<exists>m'. acquire_step i client l ((m, st), WaitFor a) ((m', st), Returned (Some ErrTimedOut))
         \<and> table (abs_locks m') i = Some ((client, l), q))"
proof
  have a: "w_doneClosed (wheap m ! a)" "w_granted (wheap m ! a)"
    using assms(3) by (simp_all add: abs_locks_def split: if_splits)
  show "acquire_step i client l ((m, st), WaitFor a) ((m, st), Returned None)"
    using done_chosen [OF a(1), of i client l st] a(2) by simp
  obtain m' where m': "Cancel m i client = Some m'"
    "abs_locks m' = spec_cancel i client (abs_locks m)"
    using Cancel_refines [OF assms(1), of i client None] by blast
  have "filter (\<lambda>(a, c, l). c \<noteq> client) q = q"
    using assms(4) by (force simp: filter_id_conv)
  then have "table (abs_locks m') i = Some ((client, l), q)"
    using assms(2) by (simp add: m'(2) spec_cancel_def del: table_abs)
  then show "\<exists>m'. acquire_step i client l ((m, st), WaitFor a) ((m', st), Returned (Some ErrTimedOut))
      \<and> table (abs_locks m') i = Some ((client, l), q)"
    using ctx_chosen [OF m'(1), of l st a] by blast
qed

theorem timed_out_call_may_hold_lock_witness:
  "\<exists>m m'. acquire_step ''L'' ''c'' [] ((m, None), WaitFor 1) ((m', None), Returned (Some ErrTimedOut))
    \<and> table (abs_locks m') ''L'' = Some ((''c'', []), [])"
proof -
  have "oready (0 + 3) (snd queued16)" by (rule oready_less [OF queued16_ok(2)]) simp
  from Release_refines [OF queued16_ok(1) this, of "Some alive_none" "''L''" "''a''"]
  obtain w' where "lock_ok (fst w')" "table (abs_locks (fst w')) ''L'' = Some ((''c'', []), [])"
    "answer (abs_locks (fst w')) 1 = Some True"
    by (auto simp: refines_def spec_release_def queued16_table queued16_hand_over simp del: table_abs)
  from timed_out_call_may_hold_lock [OF this, of None] show ?thesis by auto
qed

text \<open>
  C24: releasing by lease hands over, or frees, exactly the locks whose holder acquired them
  with that lease, each to its own queue, and touches no other lock; but only while the lease
  checker still reports the lease as alive. For a lease that is not alive the call changes
  nothing at all.
\<close>

theorem release_by_lease_exact:
  assumes "lock_ok (fst w)" and "oready (n + 3 * length (locks (fst w))) (snd w)"
  shows "\<exists>w'. ReleaseByLease alive w l = Some w' \<and> lock_ok (fst w')
    \<and> (persisted (fst w) (snd w) \<longrightarrow> persisted (fst w') (snd w'))
    \<and> (alive \<noteq> None \<and> \<not> the alive l \<longrightarrow> w' = w)
    \<and> (alive = None \<or> the alive l \<longrightarrow> (\<forall>i. table (abs_locks (fst w')) i =
         (case table (abs_locks (fst w)) i of
            None \<Rightarrow> None
          | Some ((c, l'), q) \<Rightarrow>
              if l' = l then table (hand_over alive i q (abs_locks (fst w))) i
              else Some ((c, l'), q))))"
proof -
  obtain w' where w': "ReleaseByLease alive w l = Some w'"
    "refines n w w' (if alive \<noteq> None \<and> \<not> the alive l then abs_locks (fst w)
       else fold (hand_over_lock alive) (affected l (locks (fst w))) (abs_locks (fst w)))"
    using ReleaseByLease_refines [OF assms, of alive l] by auto
  have "w' = w" if "alive \<noteq> None \<and> \<not> the alive l"
    using w'(1) that by (simp add: ReleaseByLease_def)
  moreover have "table (abs_locks (fst w')) i =
      (case table (abs_locks (fst w)) i of
         None \<Rightarrow> None
       | Some ((c, l'), q) \<Rightarrow>
           if l' = l then table (hand_over alive i q (abs_locks (fst w))) i else Some ((c, l'), q))"
    if "alive = None \<or> the alive l" for i
  proof -
    have "abs_locks (fst w') = fold (hand_over_lock alive) (affected l (locks (fst w))) (abs_locks (fst w))"
      using w'(2) that by (auto simp: refines_def)
    then have "table (abs_locks (fst w')) i =
        (if i \<in> set (affected l (locks (fst w)))
         then table (hand_over_lock alive i (abs_locks (fst w))) i else table (abs_locks (fst w)) i)"
      by (simp only: fold_hand_over_table [OF affected_iff(2) [OF assms(1)]])
    then show ?thesis
      by (auto simp: affected_iff(1) [OF assms(1)] hand_over_lock_def simp del: table_abs
          split: option.split)
  qed
  ultimately show ?thesis using w' by (auto simp: refines_def)
qed

definition leased16 :: lock_world where
  "leased16 = (case TryAcquire held16 ''M'' ''b'' ''x'' of Some (w, _) \<Rightarrow> w | None \<Rightarrow> held16)"

theorem release_by_lease_exact_witness:
  "(\<exists>w'. ReleaseByLease None leased16 ''x'' = Some w'
      \<and> table (abs_locks (fst w')) ''M'' = None
      \<and> table (abs_locks (fst w')) ''L'' = Some ((''a'', []), []))
   \<and> ReleaseByLease (Some alive_none) leased16 ''x'' = Some leased16"
proof -
  obtain w where w: "TryAcquire held16 ''M'' ''b'' ''x'' =
      Some (w, snd (spec_try ''M'' (''b'', ''x'') (abs_locks (fst held16))), None)"
    "refines 98 held16 w (fst (spec_try ''M'' (''b'', ''x'') (abs_locks (fst held16))))"
    using TryAcquire_refines [OF held16_ok(1), of 98 "snd held16" "''M''" "''b''" "''x''"] held16_ok(2)
    by auto
  then have ok: "lock_ok (fst leased16)" and "oready 98 (snd leased16)"
    by (simp_all add: leased16_def refines_def)
  moreover have "length (locks (fst leased16)) = 2" by code_simp
  ultimately have room: "oready (92 + 3 * length (locks (fst leased16))) (snd leased16)" by simp
  have tab: "table (abs_locks (fst leased16)) ''M'' = Some ((''b'', ''x''), [])"
    "table (abs_locks (fst leased16)) ''L'' = Some ((''a'', []), [])" by code_simp+
  show ?thesis
    using release_by_lease_exact [OF ok room, of None "''x''"]
      release_by_lease_exact [OF ok room, of "Some alive_none" "''x''"]
    by (auto simp: tab hand_over_def alive_none_def simp del: table_abs)
qed

end
