(* ===== verification/Leases.thy ===== *)
theory Leases
  imports Model
begin

text \<open>
  The lease manager of \<^verbatim>\<open>internal/lease\<close>: \<^verbatim>\<open>clock.go\<close>, \<^verbatim>\<open>lease.go\<close>, \<^verbatim>\<open>renew.go\<close> and
  \<^verbatim>\<open>expire.go\<close>. The expiry callback is called outside the manager's mutex and may use the
  manager, so it is a function on the manager together with whatever else it changes (the type
  variable \<open>'e\<close>). A reading of the manager's clock is the argument \<open>now\<close> or \<open>clock_now\<close>.
\<close>

section \<open>Clocks\<close>

text \<open>The wall clock takes its time from outside; the manual clock is its own time source.\<close>

datatype Clock = WallClock | ManualClock Time

fun Clock_Now :: "Clock \<Rightarrow> Time \<Rightarrow> Time" where
  "Clock_Now WallClock real_time = real_time"
| "Clock_Now (ManualClock t) real_time = t"

fun Clock_Advance :: "Clock \<Rightarrow> Duration \<Rightarrow> Clock" where
  "Clock_Advance WallClock d = WallClock"
| "Clock_Advance (ManualClock t) d = ManualClock (t + d)"

fun Clock_Set :: "Clock \<Rightarrow> Time \<Rightarrow> Clock" where
  "Clock_Set WallClock t' = WallClock"
| "Clock_Set (ManualClock t) t' = ManualClock t'"

section \<open>State\<close>

datatype LeaseError = ErrLeaseExpired | ErrLeaseExists

record LeaseMgr =
  leases :: "(LeaseID, Lease) gomap"
  bindings :: "(LeaseID, (Key, unit) gomap) gomap"

definition NewLeaseMgr :: LeaseMgr where
  "NewLeaseMgr = \<lparr>leases = [], bindings = []\<rparr>"

type_synonym 'e OnExpire = "LeaseID \<Rightarrow> Time \<Rightarrow> LeaseMgr \<times> 'e \<Rightarrow> (LeaseMgr \<times> 'e) option"

section \<open>Operations under the mutex\<close>

definition Create ::
  "Time \<Rightarrow> LeaseMgr \<Rightarrow> LeaseID \<Rightarrow> Duration \<Rightarrow> string \<Rightarrow> LeaseMgr \<times> LeaseError option" where
  "Create clock_now m i ttl holder =
     (case map_of (leases m) i of
        Some _ \<Rightarrow> (m, Some ErrLeaseExists)
      | None \<Rightarrow>
          (m\<lparr>leases := mput i \<lparr>l_ID = i, l_TTL = ttl, l_ExpiresAt = clock_now + ttl, l_RenewSeq = 0,
                              l_Holder = holder, l_State = LeaseAlive\<rparr> (leases m),
             bindings := mput i [] (bindings m)\<rparr>, None))"

definition Lookup :: "LeaseMgr \<Rightarrow> LeaseID \<Rightarrow> Lease option" where
  "Lookup m i = map_of (leases m) i"

definition Alive :: "LeaseMgr \<Rightarrow> LeaseID \<Rightarrow> bool" where
  "Alive m i = (case map_of (leases m) i of None \<Rightarrow> False | Some l \<Rightarrow> l_State l = LeaseAlive)"

definition removeLocked :: "LeaseMgr \<Rightarrow> Lease \<Rightarrow> LeaseMgr \<times> Lease" where
  "removeLocked m l =
     (let l' = l\<lparr>l_State := LeaseExpired\<rparr> in (m\<lparr>leases := mdel (l_ID l') (leases m)\<rparr>, l'))"

text \<open>\<^verbatim>\<open>m.bindings[id][key] = struct{}{}\<close> panics when the lease has no binding set.\<close>

definition BindKey :: "LeaseMgr \<Rightarrow> LeaseID \<Rightarrow> Key \<Rightarrow> (LeaseMgr \<times> LeaseError option) option" where
  "BindKey m i key =
     (case map_of (leases m) i of
        None \<Rightarrow> Some (m, Some ErrLeaseExpired)
      | Some l \<Rightarrow>
          if l_State l \<noteq> LeaseAlive then Some (m, Some ErrLeaseExpired)
          else (case map_of (bindings m) i of
                  None \<Rightarrow> None
                | Some set0 \<Rightarrow> Some (m\<lparr>bindings := mput i (mput key () set0) (bindings m)\<rparr>, None)))"

definition KeysOf :: "LeaseMgr \<Rightarrow> LeaseID \<Rightarrow> Key list" where
  "KeysOf m i = (case map_of (bindings m) i of None \<Rightarrow> [] | Some set0 \<Rightarrow> map fst set0)"

definition ConsumeKeys :: "LeaseMgr \<Rightarrow> LeaseID \<Rightarrow> LeaseMgr \<times> Key list" where
  "ConsumeKeys m i =
     (let out = (case map_of (bindings m) i of None \<Rightarrow> [] | Some set0 \<Rightarrow> map fst set0)
      in (m\<lparr>bindings := mdel i (bindings m)\<rparr>, out))"

definition LeaseCount :: "LeaseMgr \<Rightarrow> nat" where
  "LeaseCount m = length (leases m)"

section \<open>Operations that notify\<close>

definition notify :: "'e OnExpire option \<Rightarrow> LeaseID \<Rightarrow> Time \<Rightarrow> LeaseMgr \<times> 'e \<Rightarrow> (LeaseMgr \<times> 'e) option" where
  "notify cb i now w = (case cb of None \<Rightarrow> Some w | Some f \<Rightarrow> f i now w)"

definition Renew ::
  "'e OnExpire option \<Rightarrow> LeaseMgr \<times> 'e \<Rightarrow> LeaseID \<Rightarrow> Time
     \<Rightarrow> ((LeaseMgr \<times> 'e) \<times> LeaseError option) option" where
  "Renew cb w i now =
     (let (m, e) = w in
      case map_of (leases m) i of
        None \<Rightarrow> Some (w, Some ErrLeaseExpired)
      | Some l \<Rightarrow>
          if l_State l \<noteq> LeaseAlive then Some (w, Some ErrLeaseExpired)
          else if \<not> now < l_ExpiresAt l then do {
            w' \<leftarrow> notify cb i now (fst (removeLocked m l), e);
            Some (w', Some ErrLeaseExpired)
          }
          else
            let l' = l\<lparr>l_RenewSeq := l_RenewSeq l + 1, l_ExpiresAt := now + l_TTL l\<rparr>
            in Some ((m\<lparr>leases := mput i l' (leases m)\<rparr>, e), None))"

definition Revoke ::
  "'e OnExpire option \<Rightarrow> Time \<Rightarrow> LeaseMgr \<times> 'e \<Rightarrow> LeaseID
     \<Rightarrow> ((LeaseMgr \<times> 'e) \<times> LeaseError option) option" where
  "Revoke cb clock_now w i =
     (let (m, e) = w in
      case map_of (leases m) i of
        None \<Rightarrow> Some (w, Some ErrLeaseExpired)
      | Some l \<Rightarrow> do {
          w' \<leftarrow> notify cb i clock_now (fst (removeLocked m l), e);
          Some (w', None)
        })"

fun BatchRenew_from ::
  "'e OnExpire option \<Rightarrow> LeaseMgr \<times> 'e \<Rightarrow> LeaseID list \<Rightarrow> Time \<Rightarrow> (LeaseID, LeaseError option) gomap
     \<Rightarrow> ((LeaseMgr \<times> 'e) \<times> (LeaseID, LeaseError option) gomap) option" where
  "BatchRenew_from cb w [] now results = Some (w, results)"
| "BatchRenew_from cb w (i # is) now results = do {
     (w', err) \<leftarrow> Renew cb w i now;
     BatchRenew_from cb w' is now (mput i err results)
   }"

definition BatchRenew ::
  "'e OnExpire option \<Rightarrow> LeaseMgr \<times> 'e \<Rightarrow> LeaseID list \<Rightarrow> Time
     \<Rightarrow> ((LeaseMgr \<times> 'e) \<times> (LeaseID, LeaseError option) gomap) option" where
  "BatchRenew cb w is now = BatchRenew_from cb w is now []"

fun RenewMany ::
  "'e OnExpire option \<Rightarrow> LeaseMgr \<times> 'e \<Rightarrow> LeaseID list \<Rightarrow> Time
     \<Rightarrow> ((LeaseMgr \<times> 'e) \<times> LeaseID list) option" where
  "RenewMany cb w [] now = Some (w, [])"
| "RenewMany cb w (i # is) now = do {
     (w', err) \<leftarrow> Renew cb w i now;
     (w'', renewed) \<leftarrow> RenewMany cb w' is now;
     Some (w'', if err = None then i # renewed else renewed)
   }"

section \<open>The expiry scan\<close>

text \<open>
  The first half of \<^verbatim>\<open>ExpireOnce\<close>, one critical section: the loop over all leases, which
  removes the overdue ones and records their ids and their state after removal.
\<close>

fun expire_scan ::
  "(LeaseID \<times> Lease) list \<Rightarrow> Time \<Rightarrow> LeaseMgr \<Rightarrow> LeaseMgr \<times> LeaseID list \<times> (LeaseID, LeaseState) gomap" where
  "expire_scan [] now m = (m, [], [])"
| "expire_scan ((i, l) # rest) now m =
     (if \<not> now < l_ExpiresAt l \<and> l_State l = LeaseAlive then
        let (m1, l') = removeLocked m l;
            (m2, ids, states) = expire_scan rest now m1
        in (m2, i # ids, mput i (l_State l') states)
      else expire_scan rest now m)"

text \<open>
  The second half runs after the mutex was released: an id is notified only when a lease of
  that id is registered and alive again.
\<close>

fun expire_report ::
  "'e OnExpire option \<Rightarrow> LeaseID list \<Rightarrow> (LeaseID, LeaseState) gomap \<Rightarrow> Time \<Rightarrow> LeaseMgr \<times> 'e
     \<Rightarrow> ((LeaseMgr \<times> 'e) \<times> LeaseID list) option" where
  "expire_report cb [] states now w = Some (w, [])"
| "expire_report cb (i # ids) states now w =
     (if Alive (fst w) i then do {
        w' \<leftarrow> notify cb i now w;
        (w'', released) \<leftarrow> expire_report cb ids states now w';
        Some (w'', i # released)
      }
      else do {
        (w', released) \<leftarrow> expire_report cb ids states now w;
        Some (w', if map_of states i = Some LeaseExpired then i # released else released)
      })"

definition ExpireOnce ::
  "'e OnExpire option \<Rightarrow> LeaseMgr \<times> 'e \<Rightarrow> Time \<Rightarrow> ((LeaseMgr \<times> 'e) \<times> LeaseID list) option" where
  "ExpireOnce cb w now =
     (let (m, e) = w;
          (m', ids, states) = expire_scan (leases m) now m
      in expire_report cb ids states now (m', e))"

section \<open>The invariant\<close>

definition lease_ok :: "LeaseMgr \<Rightarrow> bool" where
  "lease_ok m \<longleftrightarrow> mwf (leases m) \<and> mwf (bindings m)
     \<and> (\<forall>i l. map_of (leases m) i = Some l \<longrightarrow> l_ID l = i \<and> l_State l = LeaseAlive
          \<and> map_of (bindings m) i \<noteq> None)
     \<and> (\<forall>i ks. map_of (bindings m) i = Some ks \<longrightarrow> mwf ks)"

named_theorems lease_simps \<open>one-step facts about the lease manager\<close>

lemma lease_ok_New [simp]: "lease_ok NewLeaseMgr"
  by (simp add: lease_ok_def NewLeaseMgr_def)

lemma Alive_iff: "lease_ok m \<Longrightarrow> Alive m i \<longleftrightarrow> map_of (leases m) i \<noteq> None"
  by (auto simp: Alive_def lease_ok_def split: option.split)

lemma removeLocked_eq [lease_simps]:
  "removeLocked m l = (m\<lparr>leases := mdel (l_ID l) (leases m)\<rparr>, l\<lparr>l_State := LeaseExpired\<rparr>)"
  by (simp add: removeLocked_def Let_def)

lemma Create_ok: "lease_ok m \<Longrightarrow> Create t m i ttl h = (m', r) \<Longrightarrow> lease_ok m'"
  by (auto simp: lease_ok_def Create_def split: option.splits if_splits)

lemma BindKey_ok: "lease_ok m \<Longrightarrow> BindKey m i k = Some (m', r) \<Longrightarrow> lease_ok m'"
  by (auto simp: lease_ok_def BindKey_def split: option.splits if_splits)

text \<open>Binding a key never panics: every registered lease has its set of bound keys.\<close>

lemma lease_okD:
  assumes "lease_ok m" and "map_of (leases m) i = Some l"
  shows "l_ID l = i" "l_State l = LeaseAlive" "map_of (bindings m) i \<noteq> None"
  using assms unfolding lease_ok_def by blast+

lemma BindKey_defined: "lease_ok m \<Longrightarrow> BindKey m i k \<noteq> None"
  using lease_okD(3) [of m i] by (auto simp: BindKey_def split: option.splits)

lemma remove_ok: "lease_ok m \<Longrightarrow> lease_ok (m\<lparr>leases := mdel i (leases m)\<rparr>)"
  by (auto simp: lease_ok_def)

lemma ConsumeKeys_ok:
  "lease_ok m \<Longrightarrow> map_of (leases m) i = None \<Longrightarrow> lease_ok (fst (ConsumeKeys m i))"
  by (auto simp: lease_ok_def ConsumeKeys_def)

text \<open>What a scan removes.\<close>

definition overdue :: "Time \<Rightarrow> Lease \<Rightarrow> bool" where
  "overdue now l \<longleftrightarrow> \<not> now < l_ExpiresAt l"

lemma expire_scan_Cons:
  assumes "l_ID l = i" "l_State l = LeaseAlive"
  shows "expire_scan ((i, l) # ls) now m =
    (if overdue now l then
       (fst (expire_scan ls now (m\<lparr>leases := mdel i (leases m)\<rparr>)),
        i # fst (snd (expire_scan ls now (m\<lparr>leases := mdel i (leases m)\<rparr>))),
        mput i LeaseExpired (snd (snd (expire_scan ls now (m\<lparr>leases := mdel i (leases m)\<rparr>)))))
     else expire_scan ls now m)"
  using assms by (simp add: overdue_def removeLocked_eq split_beta)

lemma expire_scan_eq:
  assumes "\<forall>p \<in> set ls. l_ID (snd p) = fst p \<and> l_State (snd p) = LeaseAlive"
  shows "fst (expire_scan ls now m) =
      m\<lparr>leases := filter (\<lambda>p. fst p \<notin> fst ` set (filter (\<lambda>q. overdue now (snd q)) ls)) (leases m)\<rparr>"
    and "fst (snd (expire_scan ls now m)) = map fst (filter (\<lambda>q. overdue now (snd q)) ls)"
    and "\<forall>q \<in> set ls. overdue now (snd q) \<longrightarrow>
      map_of (snd (snd (expire_scan ls now m))) (fst q) = Some LeaseExpired"
  using assms
proof (induction ls arbitrary: m)
  case Nil
  { case 1 show ?case by simp }
  { case 2 show ?case by simp }
  { case 3 show ?case by simp }
next
  case (Cons p ls)
  obtain i l where p: "p = (i, l)" by (cases p)
  {
    case 1
    then have "l_ID l = i" "l_State l = LeaseAlive" by (simp_all add: p)
    moreover have "filter (\<lambda>p. fst p \<notin> S) (mdel i xs) = filter (\<lambda>p. fst p \<notin> insert i S) xs"
      for S and xs :: "(LeaseID, Lease) gomap"
      by (auto simp: AList.delete_eq intro!: filter_cong)
    ultimately show ?case using 1 by (simp add: expire_scan_Cons Cons.IH p del: expire_scan.simps)
  }
  {
    case 2
    then have "l_ID l = i" "l_State l = LeaseAlive" by (simp_all add: p)
    then show ?case using 2 by (simp add: expire_scan_Cons Cons.IH p del: expire_scan.simps)
  }
  {
    case 3
    then have "l_ID l = i" "l_State l = LeaseAlive" by (simp_all add: p)
    then show ?case using 3 by (auto simp add: expire_scan_Cons Cons.IH p simp del: expire_scan.simps)
  }
qed

end
