(* ===== verification/Elections.thy ===== *)
theory Elections
  imports Leases
begin

text \<open>
  Leader election (\<^verbatim>\<open>internal/election\<close>). An operation holds the election's mutex only around its
  accesses to the election and calls the lease service in between, so every operation that
  calls the service is given by its critical sections and by their composition. Readings of the
  heartbeat clock are the argument \<open>hb\<close>, of the lease service's clock \<open>t\<close>.
\<close>

section \<open>State\<close>

datatype ElectionError = ErrLostElection | LeaseFailed LeaseError

text \<open>The interface \<^verbatim>\<open>LeaseService\<close>, its operations as functions on the service's state.\<close>

record 'l LeaseService =
  svc_Create :: "Time \<Rightarrow> LeaseID \<Rightarrow> Duration \<Rightarrow> string \<Rightarrow> 'l \<Rightarrow> 'l \<times> LeaseError option"
  svc_Renew :: "LeaseID \<Rightarrow> Time \<Rightarrow> 'l \<Rightarrow> ('l \<times> LeaseError option) option"
  svc_Revoke :: "Time \<Rightarrow> LeaseID \<Rightarrow> 'l \<Rightarrow> ('l \<times> LeaseError option) option"
  svc_Lookup :: "LeaseID \<Rightarrow> 'l \<Rightarrow> Lease option"
  svc_Alive :: "LeaseID \<Rightarrow> 'l \<Rightarrow> bool"

record Election =
  el_name :: string
  el_leaseTTL :: Duration
  el_heartbeatInterval :: Duration
  el_role :: Role
  el_term :: Term
  el_leaderName :: string
  el_leaderLease :: LeaseID
  el_lastHeartbeat :: "Time option"

text \<open>The zero \<^verbatim>\<open>time.Time\<close> of a participant that has not led yet is \<open>None\<close>.\<close>

definition NewElection :: "string \<Rightarrow> Duration \<Rightarrow> Duration \<Rightarrow> Election" where
  "NewElection name ttl interval =
     \<lparr>el_name = name, el_leaseTTL = ttl, el_heartbeatInterval = interval, el_role = RoleFollower,
      el_term = 0, el_leaderName = [], el_leaderLease = [], el_lastHeartbeat = None\<rparr>"

definition leadershipLeaseID :: "string \<Rightarrow> LeaseID" where
  "leadershipLeaseID name = ''election/leader/'' @ name"

definition LeaseNameFor :: "string \<Rightarrow> string" where
  "LeaseNameFor name = ''election/leader/'' @ name"

section \<open>Campaign\<close>

datatype campaign_next = CampaignDone "ElectionError option" | CampaignCreate string

definition Campaign_enter :: "Election \<Rightarrow> Election \<times> campaign_next" where
  "Campaign_enter e =
     (if el_role e = RoleLeader then (e, CampaignDone None)
      else if \<not> CanVote (el_role e) then (e, CampaignDone (Some ErrLostElection))
      else (e\<lparr>el_term := el_term e + 1, el_role := fst (Transition (el_role e) RoleCandidate)\<rparr>,
            CampaignCreate (el_name e)))"

definition Campaign_leave ::
  "Time \<Rightarrow> string \<Rightarrow> LeaseError option \<Rightarrow> Election \<Rightarrow> Election \<times> ElectionError option" where
  "Campaign_leave hb name err e =
     (if err \<noteq> None then (e\<lparr>el_role := RoleFollower\<rparr>, Some ErrLostElection)
      else (e\<lparr>el_role := RoleLeader, el_leaderName := name, el_leaderLease := leadershipLeaseID name,
             el_lastHeartbeat := Some hb\<rparr>, None))"

definition Campaign ::
  "'l LeaseService \<Rightarrow> Time \<Rightarrow> Time \<Rightarrow> 'l \<times> Election \<Rightarrow> ('l \<times> Election) \<times> ElectionError option" where
  "Campaign svc t hb w =
     (let (l, e) = w; (e1, nxt) = Campaign_enter e
      in case nxt of
           CampaignDone r \<Rightarrow> ((l, e1), r)
         | CampaignCreate name \<Rightarrow>
             let (l', err) = svc_Create svc t (leadershipLeaseID name) (el_leaseTTL e1) name l;
                 (e2, r) = Campaign_leave hb name err e1
             in ((l', e2), r))"

section \<open>Stepping down\<close>

definition Resign_enter :: "Election \<Rightarrow> Election \<times> LeaseID" where
  "Resign_enter e =
     (e\<lparr>el_role := RoleResigned, el_leaderName := [], el_leaderLease := []\<rparr>, el_leaderLease e)"

text \<open>\<^verbatim>\<open>if leaseID != "" \<close> the lease is revoked; the error is ignored.\<close>

definition revoke_if_set :: "'l LeaseService \<Rightarrow> Time \<Rightarrow> LeaseID \<Rightarrow> 'l \<Rightarrow> 'l option" where
  "revoke_if_set svc t i l = (if i \<noteq> [] then map_option fst (svc_Revoke svc t i l) else Some l)"

definition Resign :: "'l LeaseService \<Rightarrow> Time \<Rightarrow> 'l \<times> Election \<Rightarrow> ('l \<times> Election) option" where
  "Resign svc t w =
     (let (l, e) = w; (e1, i) = Resign_enter e
      in map_option (\<lambda>l'. (l', e1)) (revoke_if_set svc t i l))"

definition stepDown_enter :: "Election \<Rightarrow> Election \<times> LeaseID" where
  "stepDown_enter e =
     (e\<lparr>el_role := (if el_role e = RoleLeader then RoleResigned else el_role e),
        el_leaderName := [], el_leaderLease := []\<rparr>, el_leaderLease e)"

definition stepDown :: "'l LeaseService \<Rightarrow> Time \<Rightarrow> 'l \<times> Election \<Rightarrow> ('l \<times> Election) option" where
  "stepDown svc t w =
     (let (l, e) = w; (e1, i) = stepDown_enter e
      in map_option (\<lambda>l'. (l', e1)) (revoke_if_set svc t i l))"

definition OnLeaseExpired :: "LeaseID \<Rightarrow> Election \<Rightarrow> Election" where
  "OnLeaseExpired i e =
     (if el_leaderLease e = i
      then e\<lparr>el_role := RoleResigned, el_leaderName := [], el_leaderLease := []\<rparr> else e)"

definition Follow :: "Election \<Rightarrow> Election" where
  "Follow e =
     (if el_role e \<noteq> RoleLeader then e\<lparr>el_role := fst (Transition (el_role e) RoleFollower)\<rparr> else e)"

definition Current :: "Election \<Rightarrow> Role \<times> Term \<times> string" where
  "Current e = (el_role e, el_term e, el_leaderName e)"

definition LeaderLease :: "Election \<Rightarrow> LeaseID" where
  "LeaderLease e = el_leaderLease e"

definition ElectionTerm :: "Election \<Rightarrow> Term" where
  "ElectionTerm e = el_term e"

section \<open>Heartbeats\<close>

definition Heartbeat_leave :: "Time \<Rightarrow> Election \<Rightarrow> Election" where
  "Heartbeat_leave hb e = e\<lparr>el_lastHeartbeat := Some hb\<rparr>"

definition Heartbeat ::
  "'l LeaseService \<Rightarrow> Time \<Rightarrow> Time \<Rightarrow> 'l \<times> Election \<Rightarrow> (('l \<times> Election) \<times> LeaseError option) option" where
  "Heartbeat svc t hb w =
     (let (l, e) = w
      in if el_role e \<noteq> RoleLeader then Some (w, None)
         else do {
           (l', err) \<leftarrow> svc_Renew svc (el_leaderLease e) hb l;
           if err \<noteq> None then do {
             w' \<leftarrow> stepDown svc t (l', e);
             Some (w', err)
           }
           else Some ((l', Heartbeat_leave hb e), None)
         })"

definition CheckTimeout :: "Time \<Rightarrow> Election \<Rightarrow> bool" where
  "CheckTimeout hb e =
     (if el_role e \<noteq> RoleLeader then False
      else let elapsed = (case el_lastHeartbeat e of None \<Rightarrow> 2 ^ 63 - 1 | Some last0 \<Rightarrow> saturate (hb - last0))
           in el_heartbeatInterval e \<le> elapsed)"

text \<open>One round of the goroutine of \<^verbatim>\<open>RunHeartbeat\<close>.\<close>

definition heartbeat_tick ::
  "'l LeaseService \<Rightarrow> Time \<Rightarrow> Time \<Rightarrow> Time \<Rightarrow> 'l \<times> Election \<Rightarrow> ('l \<times> Election) option" where
  "heartbeat_tick svc t hb1 hb2 w =
     (if CheckTimeout hb1 (snd w) then stepDown svc t w
      else map_option fst (Heartbeat svc t hb2 w))"

section \<open>Handoff\<close>

definition Handoff_enter :: "Term \<Rightarrow> Election \<Rightarrow> Election \<times> LeaseID" where
  "Handoff_enter newTerm e =
     (e\<lparr>el_term := newTerm, el_role := RoleCandidate, el_leaderName := [], el_leaderLease := []\<rparr>,
      el_leaderLease e)"

definition Handoff ::
  "'l LeaseService \<Rightarrow> Time \<Rightarrow> Time \<Rightarrow> Term \<Rightarrow> string \<Rightarrow> 'l \<times> Election
     \<Rightarrow> (('l \<times> Election) \<times> ElectionError option) option" where
  "Handoff svc t hb newTerm newName w =
     (let (l, e) = w; (e1, oldLease) = Handoff_enter newTerm e
      in do {
        (l1, err) \<leftarrow> (if oldLease \<noteq> [] then svc_Revoke svc t oldLease l else Some (l, None));
        case err of
          Some x \<Rightarrow> Some ((l1, e1), Some (LeaseFailed x))
        | None \<Rightarrow>
            let (l2, err2) = svc_Create svc t (leadershipLeaseID newName) (el_leaseTTL e1) newName l1;
                (e2, r) = Campaign_leave hb newName err2 e1
            in Some ((l2, e2), r)
      })"

section \<open>The election over any lease service\<close>

definition election_ok :: "Election \<Rightarrow> bool" where
  "election_ok e \<longleftrightarrow> el_role e \<in> {RoleFollower, RoleCandidate, RoleLeader, RoleResigned}
     \<and> (if el_role e = RoleLeader
         then el_leaderLease e = leadershipLeaseID (el_leaderName e) \<and> el_lastHeartbeat e \<noteq> None
         else el_leaderLease e = [] \<and> el_leaderName e = [])"

lemma leadershipLeaseID_neq_Nil [simp]: "leadershipLeaseID n \<noteq> []"
  by (simp add: leadershipLeaseID_def)

lemma leadershipLeaseID_inject [simp]: "leadershipLeaseID n = leadershipLeaseID n' \<longleftrightarrow> n = n'"
  by (simp add: leadershipLeaseID_def)

lemma election_ok_New: "election_ok (NewElection name ttl iv)"
  by (simp add: election_ok_def NewElection_def)

text \<open>What the election relies on: which leases are held, and when the calls succeed.\<close>

locale lease_service =
  fixes svc :: "'l LeaseService"
    and ok :: "'l \<Rightarrow> bool"
    and held :: "'l \<Rightarrow> LeaseID \<Rightarrow> bool"
  assumes create_free: "ok l \<Longrightarrow> \<not> held l i \<Longrightarrow>
      \<exists>l'. svc_Create svc t i ttl h l = (l', None) \<and> ok l' \<and> held l' = (held l)(i := True)"
    and create_held: "ok l \<Longrightarrow> held l i \<Longrightarrow> svc_Create svc t i ttl h l = (l, Some ErrLeaseExists)"
    and revoke_held: "ok l \<Longrightarrow> held l i \<Longrightarrow>
      \<exists>l'. svc_Revoke svc t i l = Some (l', None) \<and> ok l' \<and> held l' = (held l)(i := False)"
    and revoke_free: "ok l \<Longrightarrow> \<not> held l i \<Longrightarrow> svc_Revoke svc t i l = Some (l, Some ErrLeaseExpired)"
    and renew: "ok l \<Longrightarrow> \<exists>l' r. svc_Renew svc i now l = Some (l', r) \<and> ok l'
      \<and> held l' = (held l)(i := (r = None)) \<and> (r = None \<longrightarrow> held l i)"
begin

lemma revoke_if_set_runs:
  "ok l \<Longrightarrow> \<exists>l'. revoke_if_set svc t i l = Some l' \<and> ok l'
     \<and> held l' = (if i = [] then held l else (held l)(i := False))"
  by (cases "held l i")
    (use revoke_held [of l i t] revoke_free [of l i t] in \<open>auto simp: revoke_if_set_def fun_eq_iff\<close>)

lemma Campaign_runs:
  assumes "ok l" and e: "election_ok e" and "el_role e \<noteq> RoleLeader"
  defines "i \<equiv> leadershipLeaseID (el_name e)"
  shows "\<exists>l' e'. Campaign svc t hb (l, e) =
      ((l', e'), if held l i then Some ErrLostElection else None)
    \<and> ok l' \<and> election_ok e' \<and> held l' = (held l)(i := True)
    \<and> el_name e' = el_name e \<and> el_term e' = el_term e + 1
    \<and> el_role e' = (if held l i then RoleFollower else RoleLeader)
    \<and> (\<not> held l i \<longrightarrow> el_leaderName e' = el_name e \<and> el_leaderLease e' = i
         \<and> el_lastHeartbeat e' = Some hb)"
proof -
  have role: "el_role e = RoleFollower \<or> el_role e = RoleCandidate \<or> el_role e = RoleResigned"
    and none: "el_leaderLease e = []" "el_leaderName e = []"
    using e assms(3) by (auto simp: election_ok_def)
  let ?e1 = "e\<lparr>el_term := el_term e + 1, el_role := fst (Transition (el_role e) RoleCandidate)\<rparr>"
  have enter: "Campaign_enter e = (?e1, CampaignCreate (el_name e))"
    using role by (auto simp: Campaign_enter_def)
  show ?thesis
  proof (cases "held l i")
    case True
    then have "held l = (held l)(i := True)" by (simp add: fun_eq_iff)
    then show ?thesis
      using True create_held [OF assms(1) True, of t "el_leaseTTL e" "el_name e"] none assms(1)
      by (simp add: Campaign_def enter Campaign_leave_def i_def election_ok_def)
  next
    case False
    from create_free [OF assms(1) False, of t "el_leaseTTL e" "el_name e"] obtain l' where
      "svc_Create svc t i (el_leaseTTL e) (el_name e) l = (l', None)" "ok l'"
      "held l' = (held l)(i := True)" by blast
    then show ?thesis
      using False by (simp add: Campaign_def enter Campaign_leave_def i_def election_ok_def)
  qed
qed

lemma Resign_runs:
  assumes "ok l" and "election_ok e"
  shows "\<exists>l' e'. Resign svc t (l, e) = Some (l', e') \<and> ok l' \<and> election_ok e'
    \<and> el_role e' = RoleResigned \<and> el_term e' = el_term e \<and> el_name e' = el_name e
    \<and> held l' = (if el_leaderLease e = [] then held l else (held l)(el_leaderLease e := False))"
  using revoke_if_set_runs [OF assms(1), of t "el_leaderLease e"]
  by (auto simp: Resign_def Resign_enter_def election_ok_def)

lemma stepDown_runs:
  assumes "ok l" and "election_ok e"
  shows "\<exists>l' e'. stepDown svc t (l, e) = Some (l', e') \<and> ok l' \<and> election_ok e'
    \<and> el_role e' = (if el_role e = RoleLeader then RoleResigned else el_role e)
    \<and> el_term e' = el_term e \<and> el_name e' = el_name e
    \<and> held l' = (if el_leaderLease e = [] then held l else (held l)(el_leaderLease e := False))"
  using revoke_if_set_runs [OF assms(1), of t "el_leaderLease e"] assms(2)
  by (auto simp: stepDown_def stepDown_enter_def election_ok_def split: if_splits)

lemma Heartbeat_runs:
  assumes "ok l" and e: "election_ok e" and lead: "el_role e = RoleLeader"
  shows "\<exists>l' e' r. Heartbeat svc t hb (l, e) = Some ((l', e'), r) \<and> ok l' \<and> election_ok e'
    \<and> el_name e' = el_name e \<and> el_term e' = el_term e
    \<and> held l' = (held l)(el_leaderLease e := (r = None))
    \<and> (if r = None then e' = e\<lparr>el_lastHeartbeat := Some hb\<rparr> \<and> held l (el_leaderLease e)
       else el_role e' = RoleResigned)"
proof -
  obtain l1 r where r: "svc_Renew svc (el_leaderLease e) hb l = Some (l1, r)" "ok l1"
    "held l1 = (held l)(el_leaderLease e := (r = None))" "r = None \<longrightarrow> held l (el_leaderLease e)"
    using renew [OF assms(1)] by blast
  show ?thesis
  proof (cases "r = None")
    case True
    then show ?thesis
      using r lead e by (simp add: Heartbeat_def Heartbeat_leave_def election_ok_def)
  next
    case False
    obtain l2 e2 where s: "stepDown svc t (l1, e) = Some (l2, e2)" "ok l2" "election_ok e2"
      "el_role e2 = RoleResigned" "el_term e2 = el_term e" "el_name e2 = el_name e"
      "held l2 = (if el_leaderLease e = [] then held l1 else (held l1)(el_leaderLease e := False))"
      using stepDown_runs [OF r(2) e, of t] lead by auto
    have "held l2 = (held l)(el_leaderLease e := False)"
      using s(7) r(3) False by (auto simp: fun_eq_iff)
    then show ?thesis using r(1) s False lead by (auto simp: Heartbeat_def)
  qed
qed

lemma Handoff_runs:
  fixes newName :: string
  assumes "ok l" and e: "election_ok e"
  defines "old \<equiv> el_leaderLease e" and "new \<equiv> leadershipLeaseID newName"
  shows "\<exists>l' e' r. Handoff svc t hb newTerm newName (l, e) = Some ((l', e'), r)
    \<and> ok l' \<and> election_ok e' \<and> el_term e' = newTerm \<and> el_name e' = el_name e
    \<and> (if old \<noteq> [] \<and> \<not> held l old
       then r = Some (LeaseFailed ErrLeaseExpired) \<and> el_role e' = RoleCandidate \<and> held l' = held l
       else if new \<noteq> old \<and> held l new
       then r = Some ErrLostElection \<and> el_role e' = RoleFollower
         \<and> held l' = (if old = [] then held l else (held l)(old := False))
       else r = None \<and> el_role e' = RoleLeader \<and> el_leaderName e' = newName
         \<and> held l' = (if old = [] then held l else (held l)(old := False))(new := True))"
proof -
  have new: "new \<noteq> []" by (simp add: new_def)
  show ?thesis
  proof (cases "old \<noteq> [] \<and> \<not> held l old")
    case True
    then show ?thesis
      using revoke_free [OF assms(1), of old t] assms(1)
      by (simp add: Handoff_def Handoff_enter_def election_ok_def flip: old_def)
  next
    case False
    obtain l1 where l1: "(if old \<noteq> [] then svc_Revoke svc t old l else Some (l, None)) = Some (l1, None)"
      "ok l1" "held l1 = (if old = [] then held l else (held l)(old := False))"
      using revoke_held [OF assms(1), of old t] False assms(1) by (cases "old = []") auto
    obtain e1 where enter: "Handoff_enter newTerm e = (e1, old)"
      and e1: "el_term e1 = newTerm" "el_name e1 = el_name e" "el_leaseTTL e1 = el_leaseTTL e"
        "el_leaderLease e1 = []" "el_leaderName e1 = []"
      by (simp add: Handoff_enter_def old_def)
    have "held l1 new \<longleftrightarrow> new \<noteq> old \<and> held l new" using l1(3) new by auto
    then consider (lost) "held l1 new" "new \<noteq> old" "held l new" | (won) "\<not> held l1 new" "\<not> (new \<noteq> old \<and> held l new)"
      by blast
    then show ?thesis
    proof cases
      case lost
      then show ?thesis
        using create_held [OF l1(2) lost(1), of t "el_leaseTTL e" newName] l1 False e1
        by (simp add: Handoff_def enter Campaign_leave_def election_ok_def flip: new_def)
    next
      case won
      from create_free [OF l1(2) won(1), of t "el_leaseTTL e" newName] obtain l2 where
        "svc_Create svc t new (el_leaseTTL e) newName l1 = (l2, None)" "ok l2"
        "held l2 = (held l1)(new := True)" by blast
      then have "Handoff svc t hb newTerm newName (l, e) =
          Some ((l2, fst (Campaign_leave hb newName None e1)), None)"
        using l1(1) by (simp add: Handoff_def enter e1 Campaign_leave_def flip: new_def)
      moreover have "held l2 = (if old = [] then held l else (held l)(old := False))(new := True)"
        using \<open>held l2 = _\<close> l1(3) by simp
      ultimately show ?thesis
        using won(2) False e1 \<open>ok l2\<close> by (auto simp: Campaign_leave_def election_ok_def)
    qed
  qed
qed

end

end
