(* ===== verification/LeaseProps.thy ===== *)
theory LeaseProps
  imports Leases
begin

text \<open>
  The lease manager and its expiry callback. What the manager relies on is the contract
  \<open>expiry_callback\<close>: called for a lease that is no longer registered, the callback returns,
  leaves the registered leases alone, drops the lease's set of bound keys, and does to the rest
  of the system what ending a lease with these bound keys should do. The lemmas about renewing,
  revoking and expiring are proved once from the contract.
\<close>

section \<open>One renewal as a function\<close>

definition renew_error :: "LeaseMgr \<Rightarrow> LeaseID \<Rightarrow> Time \<Rightarrow> LeaseError option" where
  "renew_error m i now =
     (case map_of (leases m) i of
        None \<Rightarrow> Some ErrLeaseExpired
      | Some l \<Rightarrow> if overdue now l then Some ErrLeaseExpired else None)"

definition renewed_lease :: "LeaseMgr \<Rightarrow> LeaseID \<Rightarrow> Time \<Rightarrow> Lease option" where
  "renewed_lease m i now =
     (case map_of (leases m) i of
        None \<Rightarrow> None
      | Some l \<Rightarrow> if overdue now l then None
                  else Some (l\<lparr>l_RenewSeq := l_RenewSeq l + 1, l_ExpiresAt := now + l_TTL l\<rparr>))"

definition end_lease :: "LeaseMgr \<Rightarrow> LeaseID \<Rightarrow> LeaseMgr" where
  "end_lease m i = m\<lparr>leases := mdel i (leases m), bindings := mdel i (bindings m)\<rparr>"

definition renew_mgr :: "LeaseMgr \<Rightarrow> LeaseID \<Rightarrow> Time \<Rightarrow> LeaseMgr" where
  "renew_mgr m i now =
     (case map_of (leases m) i of
        None \<Rightarrow> m
      | Some l \<Rightarrow> if overdue now l then end_lease m i
                  else m\<lparr>leases := mput i (the (renewed_lease m i now)) (leases m)\<rparr>)"

text \<open>The keys that a renewal at this time gives up.\<close>

definition lost_keys :: "LeaseMgr \<Rightarrow> LeaseID \<Rightarrow> Time \<Rightarrow> Key list" where
  "lost_keys m i now =
     (case map_of (leases m) i of
        None \<Rightarrow> [] | Some l \<Rightarrow> if overdue now l then KeysOf m i else [])"

lemma renew_mgr_lookup:
  "map_of (leases (renew_mgr m i now)) j =
     (if j = i then renewed_lease m i now else map_of (leases m) j)"
  by (auto simp: renew_mgr_def renewed_lease_def end_lease_def split: option.split)

lemma renew_mgr_bindings:
  "j \<noteq> i \<Longrightarrow> map_of (bindings (renew_mgr m i now)) j = map_of (bindings m) j"
  by (simp add: renew_mgr_def end_lease_def split: option.split)

lemma lease_ok_end [intro]: "lease_ok m \<Longrightarrow> lease_ok (end_lease m i)"
  by (auto simp: lease_ok_def end_lease_def)

lemma lease_ok_renew [intro]: "lease_ok m \<Longrightarrow> lease_ok (renew_mgr m i now)"
  by (auto simp: lease_ok_def renew_mgr_def end_lease_def renewed_lease_def split: option.split)

lemma renew_other:
  assumes "j \<noteq> i"
  shows "renew_error (renew_mgr m i now) j t = renew_error m j t"
    and "renewed_lease (renew_mgr m i now) j t = renewed_lease m j t"
    and "lost_keys (renew_mgr m i now) j t = lost_keys m j t"
  using assms by (auto simp add: renew_error_def renewed_lease_def lost_keys_def KeysOf_def
      renew_mgr_lookup renew_mgr_bindings split: option.split)

section \<open>The contract of the callback\<close>

locale expiry_callback =
  fixes f :: "LeaseID \<Rightarrow> Time \<Rightarrow> LeaseMgr \<times> 'e \<Rightarrow> (LeaseMgr \<times> 'e) option"
    and ready :: "nat \<Rightarrow> 'e \<Rightarrow> bool"
    and cleaned :: "Key list \<Rightarrow> 'e \<Rightarrow> 'e \<Rightarrow> bool"
  assumes callback: "lease_ok m \<Longrightarrow> map_of (leases m) i = None \<Longrightarrow>
      ready (n + length (KeysOf m i)) e \<Longrightarrow>
      \<exists>e'. f i now (m, e) = Some (m\<lparr>bindings := mdel i (bindings m)\<rparr>, e')
        \<and> ready n e' \<and> cleaned (KeysOf m i) e e'"
    and ready_less: "ready n e \<Longrightarrow> k \<le> n \<Longrightarrow> ready k e"
    and cleaned_refl: "cleaned [] e e"
    and cleaned_trans: "cleaned ks e e1 \<Longrightarrow> cleaned ks' e1 e2 \<Longrightarrow> cleaned (ks @ ks') e e2"
begin

lemma notify_end:
  assumes "lease_ok m" and "ready (n + length (KeysOf m i)) e"
  shows "\<exists>e'. notify (Some f) i now (m\<lparr>leases := mdel i (leases m)\<rparr>, e) = Some (end_lease m i, e')
    \<and> ready n e' \<and> cleaned (KeysOf m i) e e'"
proof -
  let ?m = "m\<lparr>leases := mdel i (leases m)\<rparr>"
  have "lease_ok ?m" by (rule remove_ok [OF assms(1)])
  moreover have "KeysOf ?m i = KeysOf m i" by (simp add: KeysOf_def)
  ultimately show ?thesis
    using callback [of ?m i n e now] assms(2) by (auto simp: notify_def end_lease_def)
qed

lemma Renew_runs:
  assumes ok: "lease_ok m" and room: "ready (n + length (lost_keys m i now)) e"
  shows "\<exists>e'. Renew (Some f) (m, e) i now = Some ((renew_mgr m i now, e'), renew_error m i now)
    \<and> ready n e' \<and> cleaned (lost_keys m i now) e e'"
proof (cases "map_of (leases m) i")
  case None
  then show ?thesis
    using room by (simp add: Renew_def renew_mgr_def renew_error_def lost_keys_def cleaned_refl)
next
  case (Some l)
  note l = lease_okD [OF ok Some]
  show ?thesis
  proof (cases "overdue now l")
    case False
    then show ?thesis
      using room Some l
      by (simp add: Renew_def renew_mgr_def renew_error_def lost_keys_def renewed_lease_def
          overdue_def cleaned_refl Let_def)
  next
    case True
    then obtain e' where
      "notify (Some f) i now (m\<lparr>leases := mdel i (leases m)\<rparr>, e) = Some (end_lease m i, e')"
      "ready n e'" "cleaned (KeysOf m i) e e'"
      using notify_end [OF ok, of n i e now] room Some by (auto simp: lost_keys_def)
    then show ?thesis
      using True Some l
      by (simp add: Renew_def renew_mgr_def renew_error_def lost_keys_def overdue_def removeLocked_eq)
  qed
qed

lemma Revoke_runs:
  assumes ok: "lease_ok m" and room: "ready (n + length (KeysOf m i)) e"
    and l: "map_of (leases m) i = Some l"
  shows "\<exists>e'. Revoke (Some f) now (m, e) i = Some ((end_lease m i, e'), None)
    \<and> ready n e' \<and> cleaned (KeysOf m i) e e'"
proof -
  obtain e' where
    "notify (Some f) i now (m\<lparr>leases := mdel i (leases m)\<rparr>, e) = Some (end_lease m i, e')"
    "ready n e'" "cleaned (KeysOf m i) e e'"
    using notify_end [OF ok room] by blast
  then show ?thesis
    using l lease_okD(1) [OF ok l] by (simp add: Revoke_def removeLocked_eq)
qed

text \<open>Renewing a batch of distinct leases: every lease fares as if it were alone.\<close>

lemma BatchRenew_from_runs:
  assumes "distinct is" and "lease_ok m"
    and "ready (n + length (concat (map (\<lambda>i. lost_keys m i now) is))) e"
  shows "\<exists>m' e' results'. BatchRenew_from (Some f) (m, e) is now results = Some ((m', e'), results')
    \<and> lease_ok m' \<and> ready n e' \<and> cleaned (concat (map (\<lambda>i. lost_keys m i now) is)) e e'
    \<and> (\<forall>j. map_of (leases m') j =
         (if j \<in> set is then renewed_lease m j now else map_of (leases m) j))
    \<and> (\<forall>j. j \<notin> set is \<longrightarrow> map_of (bindings m') j = map_of (bindings m) j)
    \<and> (\<forall>j. map_of results' j =
         (if j \<in> set is then Some (renew_error m j now) else map_of results j))"
  using assms
proof (induction "is" arbitrary: m e results)
  case Nil
  then show ?case by (simp add: cleaned_refl)
next
  case (Cons i "is")
  let ?m1 = "renew_mgr m i now" and ?r1 = "mput i (renew_error m i now) results"
  have other: "renew_error ?m1 j now = renew_error m j now"
    "renewed_lease ?m1 j now = renewed_lease m j now" "lost_keys ?m1 j now = lost_keys m j now"
    if "j \<in> set is" for j
    using renew_other [of j i m now now] that Cons.prems(1) by auto
  then have lost: "concat (map (\<lambda>i. lost_keys ?m1 i now) is) = concat (map (\<lambda>i. lost_keys m i now) is)"
    by (metis (no_types, lifting) map_eq_conv)
  obtain e1 where e1: "Renew (Some f) (m, e) i now = Some ((?m1, e1), renew_error m i now)"
    "ready (n + length (concat (map (\<lambda>i. lost_keys m i now) is))) e1" "cleaned (lost_keys m i now) e e1"
    using Renew_runs [OF Cons.prems(2), of "n + length (concat (map (\<lambda>i. lost_keys m i now) is))" i now e]
      Cons.prems(3) by (auto simp: algebra_simps)
  have "distinct is" and "lease_ok ?m1" using Cons.prems(1,2) by auto
  from Cons.IH [OF this, of e1 ?r1] e1(2) obtain m' e' results' where IH:
    "BatchRenew_from (Some f) (?m1, e1) is now ?r1 = Some ((m', e'), results')"
    "lease_ok m'" "ready n e'" "cleaned (concat (map (\<lambda>i. lost_keys m i now) is)) e1 e'"
    "\<And>j. map_of (leases m') j = (if j \<in> set is then renewed_lease ?m1 j now else map_of (leases ?m1) j)"
    "\<And>j. j \<notin> set is \<Longrightarrow> map_of (bindings m') j = map_of (bindings ?m1) j"
    "\<And>j. map_of results' j = (if j \<in> set is then Some (renew_error ?m1 j now) else map_of ?r1 j)"
    unfolding lost by blast
  have "map_of (leases m') j =
      (if j \<in> set (i # is) then renewed_lease m j now else map_of (leases m) j)" for j
    using Cons.prems(1) other(2) by (auto simp: IH(5) renew_mgr_lookup)
  moreover have "map_of (bindings m') j = map_of (bindings m) j" if "j \<notin> set (i # is)" for j
    using that by (simp add: IH(6) renew_mgr_bindings)
  moreover have "map_of results' j =
      (if j \<in> set (i # is) then Some (renew_error m j now) else map_of results j)" for j
    using Cons.prems(1) other(1) by (auto simp: IH(7))
  moreover have "cleaned (concat (map (\<lambda>i. lost_keys m i now) (i # is))) e e'"
    using cleaned_trans [OF e1(3) IH(4)] by simp
  ultimately show ?case using e1(1) IH(1-3) by auto
qed

lemma RenewMany_runs:
  assumes "distinct is" and "lease_ok m"
    and "ready (n + length (concat (map (\<lambda>i. lost_keys m i now) is))) e"
  shows "\<exists>m' e'. RenewMany (Some f) (m, e) is now =
      Some ((m', e'), filter (\<lambda>i. renew_error m i now = None) is)
    \<and> lease_ok m' \<and> ready n e' \<and> cleaned (concat (map (\<lambda>i. lost_keys m i now) is)) e e'
    \<and> (\<forall>j. map_of (leases m') j =
         (if j \<in> set is then renewed_lease m j now else map_of (leases m) j))"
  using assms
proof (induction "is" arbitrary: m e)
  case Nil
  then show ?case by (simp add: cleaned_refl)
next
  case (Cons i "is")
  let ?m1 = "renew_mgr m i now"
  have other: "renew_error ?m1 j now = renew_error m j now"
    "renewed_lease ?m1 j now = renewed_lease m j now" "lost_keys ?m1 j now = lost_keys m j now"
    if "j \<in> set is" for j
    using renew_other [of j i m now now] that Cons.prems(1) by auto
  then have lost: "concat (map (\<lambda>i. lost_keys ?m1 i now) is) = concat (map (\<lambda>i. lost_keys m i now) is)"
    by (metis (no_types, lifting) map_eq_conv)
  have kept: "filter (\<lambda>i. renew_error ?m1 i now = None) is = filter (\<lambda>i. renew_error m i now = None) is"
    by (rule filter_cong) (simp_all add: other)
  obtain e1 where e1: "Renew (Some f) (m, e) i now = Some ((?m1, e1), renew_error m i now)"
    "ready (n + length (concat (map (\<lambda>i. lost_keys m i now) is))) e1" "cleaned (lost_keys m i now) e e1"
    using Renew_runs [OF Cons.prems(2), of "n + length (concat (map (\<lambda>i. lost_keys m i now) is))" i now e]
      Cons.prems(3) by (auto simp: algebra_simps)
  have "distinct is" and "lease_ok ?m1" using Cons.prems(1,2) by auto
  from Cons.IH [OF this, of e1] e1(2) obtain m' e' where IH:
    "RenewMany (Some f) (?m1, e1) is now = Some ((m', e'), filter (\<lambda>i. renew_error m i now = None) is)"
    "lease_ok m'" "ready n e'" "cleaned (concat (map (\<lambda>i. lost_keys m i now) is)) e1 e'"
    "\<And>j. map_of (leases m') j = (if j \<in> set is then renewed_lease ?m1 j now else map_of (leases ?m1) j)"
    unfolding lost kept by blast
  have "map_of (leases m') j =
      (if j \<in> set (i # is) then renewed_lease m j now else map_of (leases m) j)" for j
    using Cons.prems(1) other(2) by (auto simp: IH(5) renew_mgr_lookup)
  moreover have "cleaned (concat (map (\<lambda>i. lost_keys m i now) (i # is))) e e'"
    using cleaned_trans [OF e1(3) IH(4)] by simp
  ultimately show ?case using e1(1) IH(1-3) by auto
qed

end

section \<open>The expiry scan\<close>

text \<open>With nothing running between its two halves, the scan never calls the callback.\<close>

definition expired_mgr :: "LeaseMgr \<Rightarrow> Time \<Rightarrow> LeaseMgr" where
  "expired_mgr m now = m\<lparr>leases := filter (\<lambda>p. \<not> overdue now (snd p)) (leases m)\<rparr>"

lemma expire_report_gone:
  assumes "\<forall>i \<in> set ids. map_of (leases m) i = None \<and> map_of states i = Some LeaseExpired"
  shows "expire_report cb ids states now (m, e) = Some ((m, e), ids)"
  using assms by (induction ids) (simp_all add: Alive_def)

lemma lookup_filter_values:
  assumes "mwf xs"
  shows "map_of (filter (\<lambda>p. P (snd p)) xs) i =
    (case map_of xs i of None \<Rightarrow> None | Some v \<Rightarrow> if P v then Some v else None)"
  using assms
proof (induction xs)
  case (Cons p xs)
  then show ?case
    by (cases p) (auto simp: mwf_def map_of_eq_None_iff image_iff split: option.split)
qed simp

lemma expired_mgr_lookup:
  assumes "lease_ok m"
  shows "map_of (leases (expired_mgr m now)) i =
    (case map_of (leases m) i of None \<Rightarrow> None | Some l \<Rightarrow> if overdue now l then None else Some l)"
proof -
  have "mwf (leases m)" using assms by (simp add: lease_ok_def)
  from lookup_filter_values [OF this, of "\<lambda>l. \<not> overdue now l"] show ?thesis
    by (auto simp: expired_mgr_def split: option.split)
qed

lemma ExpireOnce_eq:
  assumes ok: "lease_ok m"
  shows "ExpireOnce cb (m, e) now =
    Some ((expired_mgr m now, e), map fst (filter (\<lambda>p. overdue now (snd p)) (leases m)))"
    and "lease_ok (expired_mgr m now)"
proof -
  have wf: "mwf (leases m)" using ok by (simp add: lease_ok_def)
  have mem: "map_of (leases m) (fst p) = Some (snd p)" if "p \<in> set (leases m)" for p
    using that mwf_in_iff [OF wf, of "fst p" "snd p"] by simp
  then have all: "\<forall>p \<in> set (leases m). l_ID (snd p) = fst p \<and> l_State (snd p) = LeaseAlive"
    using lease_okD(1,2) [OF ok] by blast
  let ?over = "filter (\<lambda>q. overdue now (snd q)) (leases m)"
  have "(fst p \<notin> fst ` set ?over) = (\<not> overdue now (snd p))" if "p \<in> set (leases m)" for p
  proof
    assume "\<not> overdue now (snd p)"
    moreover have "snd q = snd p" if "q \<in> set (leases m)" "fst q = fst p" for q
      using mem [OF that(1)] mem [OF \<open>p \<in> set (leases m)\<close>] that(2) by simp
    ultimately show "fst p \<notin> fst ` set ?over" by (auto simp: image_iff)
  next
    assume "fst p \<notin> fst ` set ?over"
    then show "\<not> overdue now (snd p)" using that by auto
  qed
  then have "filter (\<lambda>p. fst p \<notin> fst ` set ?over) (leases m) = filter (\<lambda>p. \<not> overdue now (snd p)) (leases m)"
    by (rule filter_cong [OF refl])
  then have scan: "fst (expire_scan (leases m) now m) = expired_mgr m now"
    using expire_scan_eq(1) [OF all, of now m] by (simp only: expired_mgr_def)
  have gone: "\<forall>i \<in> set (map fst ?over). map_of (leases (expired_mgr m now)) i = None
      \<and> map_of (snd (snd (expire_scan (leases m) now m))) i = Some LeaseExpired"
    using expire_scan_eq(3) [OF all, of now m] mem by (auto simp: expired_mgr_lookup [OF ok])
  have ids: "fst (snd (expire_scan (leases m) now m)) = map fst ?over"
    by (rule expire_scan_eq(2) [OF all])
  obtain st where st: "expire_scan (leases m) now m = (expired_mgr m now, map fst ?over, st)"
    using scan ids by (metis prod.collapse)
  show "ExpireOnce cb (m, e) now = Some ((expired_mgr m now, e), map fst ?over)"
    using gone by (simp add: ExpireOnce_def st expire_report_gone)
  show "lease_ok (expired_mgr m now)"
    unfolding lease_ok_def
  proof (intro conjI allI impI)
    show "mwf (leases (expired_mgr m now))"
      using wf by (auto simp: expired_mgr_def mwf_def distinct_map_filter)
    fix i l assume "map_of (leases (expired_mgr m now)) i = Some l"
    then have "map_of (leases m) i = Some l"
      by (auto simp: expired_mgr_lookup [OF ok] split: option.splits if_splits)
    from lease_okD [OF ok this] show "l_ID l = i" "l_State l = LeaseAlive"
      "map_of (bindings (expired_mgr m now)) i \<noteq> None" by (simp_all add: expired_mgr_def)
  qed (use ok in \<open>auto simp: lease_ok_def expired_mgr_def\<close>)
qed

end
