(* ===== verification/LeaseFrame.thy ===== *)
theory LeaseFrame
  imports Elections LeaseProps
begin

text \<open>
  The lease manager as the lease service of the election, for any callback that keeps the
  contract of \<open>expiry_callback\<close>. The invariant counts the keys that could still have to be deleted,
  and keeps what the callback keeps of the rest of the system.
\<close>

definition mgr_service :: "'e OnExpire \<Rightarrow> (LeaseMgr \<times> 'e) LeaseService" where
  "mgr_service f =
     \<lparr>svc_Create = (\<lambda>t i ttl h w. let (m', r) = Create t (fst w) i ttl h in ((m', snd w), r)),
      svc_Renew = (\<lambda>i now w. Renew (Some f) w i now),
      svc_Revoke = (\<lambda>t i w. Revoke (Some f) t w i),
      svc_Lookup = (\<lambda>i w. Lookup (fst w) i),
      svc_Alive = (\<lambda>i w. Alive (fst w) i)\<rparr>"

lemma mgr_service_sel [simp]:
  "svc_Create (mgr_service f) t i ttl h w = (let (m', r) = Create t (fst w) i ttl h in ((m', snd w), r))"
  "svc_Renew (mgr_service f) i now w = Renew (Some f) w i now"
  "svc_Revoke (mgr_service f) t i w = Revoke (Some f) t w i"
  by (simp_all add: mgr_service_def)

text \<open>All bound keys could still be deleted from the store.\<close>

definition bound_total :: "LeaseMgr \<Rightarrow> nat" where
  "bound_total m = sum_list (map (\<lambda>p. length (snd p)) (bindings m))"

text \<open>
  The contract of the callback makes the manager a lease service, and keeps what the callback
  keeps of the rest of the system: it has done to it what ending some leases does.
\<close>

definition frame_ok :: "(nat \<Rightarrow> 'e \<Rightarrow> bool) \<Rightarrow> (Key list \<Rightarrow> 'e \<Rightarrow> 'e \<Rightarrow> bool) \<Rightarrow> nat \<Rightarrow> 'e
    \<Rightarrow> LeaseMgr \<times> 'e \<Rightarrow> bool" where
  "frame_ok ready cleaned n e0 w \<longleftrightarrow> lease_ok (fst w) \<and> ready (n + bound_total (fst w)) (snd w)
     \<and> (\<exists>ks. cleaned ks e0 (snd w))"

definition service_held :: "LeaseMgr \<times> 'e \<Rightarrow> LeaseID \<Rightarrow> bool" where
  "service_held w i = Alive (fst w) i"

lemma sum_mput_Nil:
  "sum_list (map (\<lambda>p. length (snd p)) (mput i [] b)) \<le> sum_list (map (\<lambda>p. length (snd p)) b)"
  by (induction b) (auto split: prod.splits)

lemma bound_total_end:
  assumes "lease_ok m"
  shows "bound_total m = length (KeysOf m i) + bound_total (end_lease m i)"
proof -
  have "mwf (bindings m)" using assms by (simp add: lease_ok_def)
  from sum_mdel [OF this, of length i] show ?thesis
    by (simp add: bound_total_def end_lease_def KeysOf_def split: option.split)
qed

lemma bound_total_renew:
  assumes "lease_ok m"
  shows "bound_total m = length (lost_keys m i now) + bound_total (renew_mgr m i now)"
  using bound_total_end [OF assms, of i]
  by (auto simp: lost_keys_def renew_mgr_def bound_total_def split: option.split)

lemma held_iff:
  assumes "lease_ok m"
  shows "service_held (m, e) i \<longleftrightarrow> map_of (leases m) i \<noteq> None"
  using Alive_iff [OF assms] by (simp add: service_held_def)

lemma held_eqI:
  assumes "lease_ok m" "lease_ok m'"
    and "\<And>j. map_of (leases m') j \<noteq> None \<longleftrightarrow> (if j = i then b else map_of (leases m) j \<noteq> None)"
  shows "service_held (m', e') = (service_held (m, e))(i := b)"
proof
  fix j
  show "service_held (m', e') j = ((service_held (m, e))(i := b)) j"
    using assms(3) [of j] held_iff [OF assms(1), of e j] held_iff [OF assms(2), of e' j] by simp
qed

context expiry_callback
begin

lemma frame_okI:
  assumes "frame_ok ready cleaned n e0 (m, e)" and "lease_ok m'" and "ready (n + bound_total m') e'"
    and "cleaned ks e e'"
  shows "frame_ok ready cleaned n e0 (m', e')"
  using assms cleaned_trans by (auto simp: frame_ok_def) blast

lemma frame_Renew:
  assumes "frame_ok ready cleaned n e0 (m, e)"
  shows "\<exists>e'. Renew (Some f) (m, e) i now = Some ((renew_mgr m i now, e'), renew_error m i now)
    \<and> frame_ok ready cleaned n e0 (renew_mgr m i now, e')"
proof -
  have ok: "lease_ok m" and "ready (n + bound_total m) e" using assms by (simp_all add: frame_ok_def)
  then have "ready ((n + bound_total (renew_mgr m i now)) + length (lost_keys m i now)) e"
    using bound_total_renew [OF ok, of i now] by (simp add: ac_simps)
  from Renew_runs [OF ok this] show ?thesis using frame_okI [OF assms] ok by blast
qed

lemma frame_Revoke:
  assumes "frame_ok ready cleaned n e0 (m, e)" and "map_of (leases m) i = Some l"
  shows "\<exists>e'. Revoke (Some f) now (m, e) i = Some ((end_lease m i, e'), None)
    \<and> frame_ok ready cleaned n e0 (end_lease m i, e')"
proof -
  have ok: "lease_ok m" and "ready (n + bound_total m) e" using assms by (simp_all add: frame_ok_def)
  then have "ready ((n + bound_total (end_lease m i)) + length (KeysOf m i)) e"
    using bound_total_end [OF ok, of i] by (simp add: ac_simps)
  from Revoke_runs [OF ok this assms(2)] show ?thesis using frame_okI [OF assms(1)] ok by blast
qed

lemma frame_Create:
  assumes "frame_ok ready cleaned n e0 (m, e)" and "map_of (leases m) i = None"
  shows "\<exists>m'. Create t m i ttl h = (m', None) \<and> frame_ok ready cleaned n e0 (m', e)
    \<and> (\<forall>j. (map_of (leases m') j \<noteq> None) = (if j = i then True else map_of (leases m) j \<noteq> None))"
proof -
  have ok: "lease_ok m" and room: "ready (n + bound_total m) e"
    using assms by (simp_all add: frame_ok_def)
  obtain m' r where c: "Create t m i ttl h = (m', r)" by fastforce
  have m': "r = None" "bindings m' = mput i [] (bindings m)"
    "\<And>j. (map_of (leases m') j \<noteq> None) = (if j = i then True else map_of (leases m) j \<noteq> None)"
    using c assms(2) by (auto simp: Create_def)
  have "bound_total m' \<le> bound_total m" by (simp add: bound_total_def m'(2) sum_mput_Nil)
  then have "ready (n + bound_total m') e" using ready_less [OF room] by simp
  then show ?thesis
    using c m'(1,3) frame_okI [OF assms(1) Create_ok [OF ok c], of e] cleaned_refl by blast
qed

text \<open>The frame is the invariant of a lease service.\<close>

lemma lease_service_frame: "lease_service (mgr_service f) (frame_ok ready cleaned n e0) service_held"
proof
  fix l :: "LeaseMgr \<times> 'e" and i :: LeaseID and t ttl now :: int and h :: string
  obtain m e where l: "l = (m, e)" by (cases l)
  assume "frame_ok ready cleaned n e0 l"
  then have fr: "frame_ok ready cleaned n e0 (m, e)" and ok: "lease_ok m"
    by (simp_all add: l frame_ok_def)
  have ok': "frame_ok ready cleaned n e0 (m', e') \<Longrightarrow> lease_ok m'" for m' e'
    by (simp add: frame_ok_def)
  {
    assume "\<not> service_held l i"
    then have "map_of (leases m) i = None" using held_iff [OF ok, of e] by (simp add: l)
    from frame_Create [OF fr this, of t ttl h] obtain m' where c:
      "Create t m i ttl h = (m', None)" "frame_ok ready cleaned n e0 (m', e)"
      "\<And>j. (map_of (leases m') j \<noteq> None) = (if j = i then True else map_of (leases m) j \<noteq> None)"
      by blast
    then show "\<exists>l'. svc_Create (mgr_service f) t i ttl h l = (l', None) \<and> frame_ok ready cleaned n e0 l'
        \<and> service_held l' = (service_held l)(i := True)"
      using held_eqI [OF ok ok' [OF c(2)] c(3), of e e] by (auto simp: l)
  }
  {
    assume "\<not> service_held l i"
    then have "map_of (leases m) i = None" using held_iff [OF ok, of e] by (simp add: l)
    then show "svc_Revoke (mgr_service f) t i l = Some (l, Some ErrLeaseExpired)"
      by (simp add: l Revoke_def)
  }
  {
    assume "service_held l i"
    then obtain d where d: "map_of (leases m) i = Some d" using held_iff [OF ok, of e] by (auto simp: l)
    show "svc_Create (mgr_service f) t i ttl h l = (l, Some ErrLeaseExists)"
      using d by (simp add: l Create_def)
  }
  {
    assume "service_held l i"
    then obtain d where d: "map_of (leases m) i = Some d" using held_iff [OF ok, of e] by (auto simp: l)
    from frame_Revoke [OF fr d, of t] obtain e' where
      r: "Revoke (Some f) t (m, e) i = Some ((end_lease m i, e'), None)"
      "frame_ok ready cleaned n e0 (end_lease m i, e')" by blast
    have "service_held (end_lease m i, e') = (service_held (m, e))(i := False)"
      by (rule held_eqI [OF ok lease_ok_end [OF ok]]) (simp add: end_lease_def)
    then show "\<exists>l'. svc_Revoke (mgr_service f) t i l = Some (l', None) \<and> frame_ok ready cleaned n e0 l'
        \<and> service_held l' = (service_held l)(i := False)"
      using r by (auto simp: l)
  }
  from frame_Renew [OF fr, of i now] obtain e' where
    r: "Renew (Some f) (m, e) i now = Some ((renew_mgr m i now, e'), renew_error m i now)"
    "frame_ok ready cleaned n e0 (renew_mgr m i now, e')" by blast
  have "service_held (renew_mgr m i now, e') = (service_held (m, e))(i := (renew_error m i now = None))"
    by (rule held_eqI [OF ok lease_ok_renew [OF ok]])
      (auto simp: renew_mgr_lookup renewed_lease_def renew_error_def split: option.split)
  moreover have "renew_error m i now = None \<longrightarrow> service_held (m, e) i"
    using held_iff [OF ok, of e] by (auto simp: renew_error_def split: option.splits)
  ultimately show "\<exists>l' r. svc_Renew (mgr_service f) i now l = Some (l', r) \<and> frame_ok ready cleaned n e0 l'
      \<and> service_held l' = (service_held l)(i := (r = None)) \<and> (r = None \<longrightarrow> service_held l i)"
    using r by (auto simp: l)
qed

text \<open>Renewing one lease after the other, repeated ones included, stays in the frame.\<close>

lemma frame_RenewMany:
  assumes "frame_ok ready cleaned n e0 w"
  shows "\<exists>w' ids. RenewMany (Some f) w is now = Some (w', ids) \<and> frame_ok ready cleaned n e0 w'"
  using assms
proof (induction "is" arbitrary: w)
  case (Cons i "is")
  obtain m e where w: "w = (m, e)" by (cases w)
  from frame_Renew [OF Cons.prems [unfolded w], of i now] obtain e1 where
    r: "Renew (Some f) w i now = Some ((renew_mgr m i now, e1), renew_error m i now)"
    "frame_ok ready cleaned n e0 (renew_mgr m i now, e1)" by (auto simp: w)
  from Cons.IH [OF r(2)] r(1) show ?case by fastforce
qed simp

lemma frame_BatchRenew_from:
  assumes "frame_ok ready cleaned n e0 w"
  shows "\<exists>w' rs. BatchRenew_from (Some f) w is now results = Some (w', rs) \<and> frame_ok ready cleaned n e0 w'"
  using assms
proof (induction "is" arbitrary: w results)
  case (Cons i "is")
  obtain m e where w: "w = (m, e)" by (cases w)
  from frame_Renew [OF Cons.prems [unfolded w], of i now] obtain e1 where
    r: "Renew (Some f) w i now = Some ((renew_mgr m i now, e1), renew_error m i now)"
    "frame_ok ready cleaned n e0 (renew_mgr m i now, e1)" by (auto simp: w)
  from Cons.IH [OF r(2)] r(1) show ?case by fastforce
qed simp

end

end
