(* ===== verification/Expiry.thy ===== *)
theory Expiry
  imports LeaseFrame LockProps
begin

text \<open>
  How the service wires the components together (\<^verbatim>\<open>cmd/coordination/expiry.go\<close> and the reclaim
  loop of \<^verbatim>\<open>main.go\<close>). The expiry handler is the callback of the lease manager; it works on the
  lock manager and the store, and calls back into the lease manager: \<^verbatim>\<open>ReleaseByLease\<close> asks
  whether the lease is alive, and \<^verbatim>\<open>ConsumeKeys\<close> takes its bound keys.
\<close>

section \<open>The expiry handler\<close>

type_synonym backend = "LockMgr \<times> Store"

fun delete_keys :: "Key list \<Rightarrow> Store \<Rightarrow> Store option" where
  "delete_keys [] s = Some s"
| "delete_keys (key # keys) s = do {
     (s', _) \<leftarrow> Delete s key;
     delete_keys keys s'
   }"

definition expiryHandler :: "backend OnExpire" where
  "expiryHandler i now w =
     (let (m, (lk, s)) = w in do {
        (lk', st') \<leftarrow> ReleaseByLease (Some (Alive m)) (lk, Some s) i;
        s1 \<leftarrow> st';
        let (m', keys) = ConsumeKeys m i;
        s2 \<leftarrow> delete_keys keys s1;
        Some (m', (lk', s2))
      })"

section \<open>One round of the reclaim loop\<close>

definition reclaim_tick :: "uint64 \<Rightarrow> Store \<Rightarrow> Store" where
  "reclaim_tick retain s =
     (let hd_rev = CurrentRev s
      in if retain + 8 < hd_rev then fst (Reclaim s (hd_rev - retain)) else s)"

section \<open>The handler keeps the callback contract\<close>

definition backend_ready :: "nat \<Rightarrow> backend \<Rightarrow> bool" where
  "backend_ready n e \<longleftrightarrow> store_ready n (snd e)"

lemma backend_ready_less: "backend_ready n e \<Longrightarrow> k \<le> n \<Longrightarrow> backend_ready k e"
  by (auto simp: backend_ready_def intro: kv.ready_less)

text \<open>The keys are gone from the store; the lock manager is as before.\<close>

definition keys_deleted :: "Key list \<Rightarrow> backend \<Rightarrow> backend \<Rightarrow> bool" where
  "keys_deleted ks e e' \<longleftrightarrow> fst e' = fst e
     \<and> stored (snd e') = (\<lambda>k. if k \<in> set ks then None else stored (snd e) k)"

lemma delete_keys_writes: "delete_keys ks s = kv.run_writes (map WDel ks) s"
  by (induction ks arbitrary: s) (auto split: option.split Option.bind_split)

lemma delete_keys_runs:
  assumes "store_ready (n + length ks) s"
  shows "\<exists>s'. delete_keys ks s = Some s' \<and> store_ready n s'
    \<and> stored s' = (\<lambda>k. if k \<in> set ks then None else stored s k) \<and> log_extends s s'"
  using kv.writes_run [of n "map WDel ks" s] assms
  by (simp add: delete_keys_writes fold_WDel)

text \<open>
  Called for a lease that is no longer registered, the handler releases no lock: the lease
  checker that \<^verbatim>\<open>ReleaseByLease\<close> asks first is the lease manager itself.
\<close>

lemma expiryHandler_unregistered:
  assumes "map_of (leases m) i = None"
  shows "expiryHandler i now (m, (lk, s)) =
    map_option (\<lambda>s'. (m\<lparr>bindings := mdel i (bindings m)\<rparr>, (lk, s'))) (delete_keys (KeysOf m i) s)"
  using assms
  by (simp add: expiryHandler_def ReleaseByLease_def Alive_def ConsumeKeys_def KeysOf_def Let_def
      map_conv_bind_option comp_def)

interpretation handler: expiry_callback expiryHandler backend_ready keys_deleted
proof
  fix m i n e now
  assume "lease_ok m" and gone: "map_of (leases m) i = None"
    and "backend_ready (n + length (KeysOf m i)) e"
  then obtain s' where "delete_keys (KeysOf m i) (snd e) = Some s'" "store_ready n s'"
    "stored s' = (\<lambda>k. if k \<in> set (KeysOf m i) then None else stored (snd e) k)"
    using delete_keys_runs [of n "KeysOf m i" "snd e"] by (auto simp: backend_ready_def)
  then show "\<exists>e'. expiryHandler i now (m, e) = Some (m\<lparr>bindings := mdel i (bindings m)\<rparr>, e')
      \<and> backend_ready n e' \<and> keys_deleted (KeysOf m i) e e'"
    using expiryHandler_unregistered [OF gone, of now "fst e" "snd e"]
    by (auto simp: backend_ready_def keys_deleted_def)
qed (auto simp: keys_deleted_def fun_eq_iff intro: backend_ready_less)

section \<open>Runs of the lease manager\<close>

text \<open>
  The operations one after the other, each with its callbacks, as long as the store has room
  for the deletions. Between two operations the lock manager and the store may change in any
  way that leaves the store ready.
\<close>

type_synonym lease_world = "LeaseMgr \<times> backend"

inductive lease_step :: "lease_world \<Rightarrow> lease_world \<Rightarrow> bool" where
  create: "Create t m i ttl holder = (m', r) \<Longrightarrow> lease_step (m, e) (m', e)"
| bind_key: "BindKey m i k = Some (m', r) \<Longrightarrow> lease_step (m, e) (m', e)"
| renew: "backend_ready (length (lost_keys m i now)) e \<Longrightarrow>
    Renew (Some expiryHandler) (m, e) i now = Some (w', r) \<Longrightarrow> lease_step (m, e) w'"
| revoke: "backend_ready (length (KeysOf m i)) e \<Longrightarrow>
    Revoke (Some expiryHandler) now (m, e) i = Some (w', r) \<Longrightarrow> lease_step (m, e) w'"
| expire: "ExpireOnce (Some expiryHandler) (m, e) now = Some (w', ids) \<Longrightarrow> lease_step (m, e) w'"
| others: "lease_step (m, e) (m, e')"

definition lease_start :: "lease_world \<Rightarrow> bool" where
  "lease_start w \<longleftrightarrow> fst w = NewLeaseMgr"

definition lease_inv :: "lease_world \<Rightarrow> bool" where
  "lease_inv w \<longleftrightarrow> lease_ok (fst w)"

lemma lease_step_inv: "lease_step w w' \<Longrightarrow> lease_inv w \<Longrightarrow> lease_inv w'"
proof (induction rule: lease_step.induct)
  case (create t m i ttl holder m' r e)
  then show ?case by (auto simp: lease_inv_def intro: Create_ok)
next
  case (bind_key m i k m' r e)
  then show ?case by (auto simp: lease_inv_def intro: BindKey_ok)
next
  case (renew m i now e w' r)
  then have "lease_ok m" by (simp add: lease_inv_def)
  from handler.Renew_runs [OF this, of 0 i now e] renew show ?case
    by (auto simp: lease_inv_def)
next
  case (revoke m i e now w' r)
  then have ok: "lease_ok m" by (simp add: lease_inv_def)
  show ?case
  proof (cases "map_of (leases m) i")
    case None
    then show ?thesis using revoke by (simp add: Revoke_def)
  next
    case (Some l)
    from handler.Revoke_runs [OF ok _ this, of 0 e now] revoke show ?thesis
      by (auto simp: lease_inv_def)
  qed
next
  case (expire m e now w' ids)
  then have "lease_ok m" by (simp add: lease_inv_def)
  note eq = ExpireOnce_eq(1) [OF this, of "Some expiryHandler" e now] ExpireOnce_eq(2) [OF this, of now]
  from eq expire show ?case by (auto simp: lease_inv_def)
next
  case (others m e e')
  then show ?case by (simp add: lease_inv_def)
qed

interpretation lease_runs: invariant_system lease_start lease_step lease_inv
  by unfold_locales (auto simp: lease_start_def lease_inv_def intro: lease_step_inv [unfolded lease_inv_def])

end
