(* ===== verification/LeaseTheorems.thy ===== *)
theory LeaseTheorems
  imports Expiry StoreTheorems
begin

text \<open>
  The properties of the lease manager with the service's own expiry handler installed, and of
  the reclaim loop.
\<close>

section \<open>A world for the witnesses\<close>

text \<open>
  Lease \<open>l\<close> of client \<open>a\<close> runs until time 10 and has key \<open>k\<close> bound to it; \<open>a\<close> holds lock \<open>L\<close>
  with it. Lease \<open>l2\<close> runs until time 50.
\<close>

definition mgr_l :: LeaseMgr where
  "mgr_l =
     (let m1 = fst (Create 0 NewLeaseMgr ''l'' 10 ''a'');
          m2 = fst (Create 0 m1 ''l2'' 50 ''b'')
      in case BindKey m2 ''l'' ''k'' of Some (m3, _) \<Rightarrow> m3 | None \<Rightarrow> m2)"

definition backend_l :: backend where
  "backend_l =
     (case Put (New 16) ''k'' (Some ''v'') of None \<Rightarrow> (NewLockMgr, New 16)
      | Some (s, _) \<Rightarrow>
          (case TryAcquire (NewLockMgr, Some s) ''L'' ''a'' ''l'' of
             Some ((lk, Some s'), _) \<Rightarrow> (lk, s') | _ \<Rightarrow> (NewLockMgr, s)))"

lemma mgr_l_ok: "lease_ok mgr_l"
proof -
  obtain m1 r1 where 1: "Create 0 NewLeaseMgr ''l'' 10 ''a'' = (m1, r1)" by fastforce
  obtain m2 r2 where 2: "Create 0 m1 ''l2'' 50 ''b'' = (m2, r2)" by fastforce
  have ok: "lease_ok m2"
    using Create_ok [OF _ 2] Create_ok [OF lease_ok_New 1] by blast
  obtain m3 r3 where 3: "BindKey m2 ''l'' ''k'' = Some (m3, r3)" using BindKey_defined [OF ok] by fastforce
  show ?thesis using BindKey_ok [OF ok 3] by (simp add: mgr_l_def 1 2 3)
qed

lemma mgr_l_facts:
  "map_of (leases mgr_l) ''l'' = Some \<lparr>l_ID = ''l'', l_TTL = 10, l_ExpiresAt = 10, l_RenewSeq = 0,
     l_Holder = ''a'', l_State = LeaseAlive\<rparr>"
  "map_of (leases mgr_l) ''l2'' = Some \<lparr>l_ID = ''l2'', l_TTL = 50, l_ExpiresAt = 50, l_RenewSeq = 0,
     l_Holder = ''b'', l_State = LeaseAlive\<rparr>"
  "KeysOf mgr_l ''l'' = [''k'']" "KeysOf mgr_l ''l2'' = []"
  by code_simp+

lemma backend_l_parts:
  "\<exists>s lk s'. Put (New 16) ''k'' (Some ''v'') = Some (s, Inr 1)
     \<and> TryAcquire (NewLockMgr, Some s) ''L'' ''a'' ''l'' = Some ((lk, Some s'), True, None)
     \<and> backend_l = (lk, s') \<and> lock_ok lk \<and> store_ready 90 s'
     \<and> table (abs_locks lk) ''L'' = Some ((''a'', ''l''), []) \<and> stored s' ''k'' = Some ''v''"
proof -
  have ready: "store_ready (Suc 91) (New 16)" by (rule store_ready_New) simp_all
  from kv.write_runs [OF this, of "WPut ''k'' ''v''"] obtain s where
    s: "map_option fst (Put (New 16) ''k'' (Some ''v'')) = Some s" "store_ready 91 s" by auto
  then obtain r where r: "Put (New 16) ''k'' (Some ''v'') = Some (s, r)" by auto
  have "map_option snd (Put (New 16) ''k'' (Some ''v'')) = Some (Inr 1)" by code_simp
  with r have put: "Put (New 16) ''k'' (Some ''v'') = Some (s, Inr 1)" by simp
  have none: "table (abs_locks NewLockMgr) ''L'' = None" by (simp add: NewLockMgr_def)
  obtain lk st' where t: "TryAcquire (NewLockMgr, Some s) ''L'' ''a'' ''l'' = Some ((lk, st'), True, None)"
    and ref: "refines 90 (NewLockMgr, Some s) (lk, st') (fst (spec_try ''L'' (''a'', ''l'') (abs_locks NewLockMgr)))"
    using TryAcquire_refines [OF lock_ok_New, of 90 "Some s" "''L''" "''a''" "''l''"] s(2) none
    by (auto simp: oready_def spec_try_def)
  then obtain s' where s': "st' = Some s'" by (auto simp: refines_def)
  have eq: "backend_l = (lk, s')" by (simp add: backend_l_def put t s')
  have "stored (snd backend_l) ''k'' = Some ''v''" by code_simp
  moreover have "lock_ok lk" "store_ready 90 s'" "abs_locks lk = fst (spec_try ''L'' (''a'', ''l'') (abs_locks NewLockMgr))"
    using ref s' by (simp_all add: refines_def oready_def)
  moreover from this have "table (abs_locks lk) ''L'' = Some ((''a'', ''l''), [])"
    using none by (simp only: spec_try_def) simp
  moreover have "stored s' ''k'' = Some ''v''" using calculation(1) by (simp only: eq snd_conv)
  ultimately show ?thesis using put t s' eq by blast
qed

lemma backend_l_ready: "backend_ready 90 backend_l"
proof -
  obtain lk s where b: "backend_l = (lk, s)" and "store_ready 90 s" using backend_l_parts by blast
  then show ?thesis by (simp add: b backend_ready_def)
qed

section \<open>Renewing, revoking, expiring\<close>

text \<open>
  C13: renewing a lease. An unknown lease and one whose deadline is not after \<open>now\<close> are refused;
  the latter is removed at once, its bound keys are deleted from the store and forgotten. A
  lease that is renewed gets the deadline \<open>now\<close> plus its time to live and the next renewal
  number. Nothing else changes, the call returns, and the manager stays well formed.
\<close>

theorem renew_all_branches:
  assumes "lease_ok m" and "backend_ready (n + length (lost_keys m i now)) e"
  shows "\<exists>m' e'. Renew (Some expiryHandler) (m, e) i now = Some ((m', e'), renew_error m i now)
    \<and> lease_ok m' \<and> backend_ready n e' \<and> keys_deleted (lost_keys m i now) e e'
    \<and> (\<forall>j. map_of (leases m') j = (if j = i then renewed_lease m i now else map_of (leases m) j))
    \<and> (\<forall>j. j \<noteq> i \<longrightarrow> map_of (bindings m') j = map_of (bindings m) j)"
  using handler.Renew_runs [OF assms] lease_ok_renew [OF assms(1)] renew_mgr_lookup
    renew_mgr_bindings by blast

theorem renew_all_branches_witness:
  "\<exists>m' e'. Renew (Some expiryHandler) (mgr_l, backend_l) ''l'' 10 = Some ((m', e'), Some ErrLeaseExpired)
    \<and> Alive m' ''l'' = False \<and> stored (snd e') ''k'' = None"
proof -
  have lost: "lost_keys mgr_l ''l'' 10 = [''k'']"
    and err: "renew_error mgr_l ''l'' 10 = Some ErrLeaseExpired" "renewed_lease mgr_l ''l'' 10 = None"
    by (simp_all add: lost_keys_def renew_error_def renewed_lease_def mgr_l_facts overdue_def)
  have "backend_ready (89 + length (lost_keys mgr_l ''l'' 10)) backend_l"
    using backend_l_ready by (simp add: lost)
  from renew_all_branches [OF mgr_l_ok this] show ?thesis
    by (fastforce simp: lost err Alive_def keys_deleted_def)
qed

text \<open>
  C27: in a batch every lease fares as if it were renewed alone: the result recorded for an id,
  the lease it leaves behind and the leases outside the batch do not depend on the other ids.
  The session path's variant returns exactly the ids whose renewal succeeds.
\<close>

theorem batch_renew_independent:
  assumes "distinct is" and "lease_ok m"
    and "backend_ready (n + length (concat (map (\<lambda>i. lost_keys m i now) is))) e"
  shows "(\<exists>m' e' results. BatchRenew (Some expiryHandler) (m, e) is now = Some ((m', e'), results)
      \<and> (\<forall>j. map_of results j = (if j \<in> set is then Some (renew_error m j now) else None))
      \<and> (\<forall>j. map_of (leases m') j =
           (if j \<in> set is then renewed_lease m j now else map_of (leases m) j))
      \<and> keys_deleted (concat (map (\<lambda>i. lost_keys m i now) is)) e e')
    \<and> (\<exists>m' e'. RenewMany (Some expiryHandler) (m, e) is now =
          Some ((m', e'), filter (\<lambda>i. renew_error m i now = None) is)
      \<and> (\<forall>j. map_of (leases m') j =
           (if j \<in> set is then renewed_lease m j now else map_of (leases m) j)))"
proof
  show "\<exists>m' e' results. BatchRenew (Some expiryHandler) (m, e) is now = Some ((m', e'), results)
      \<and> (\<forall>j. map_of results j = (if j \<in> set is then Some (renew_error m j now) else None))
      \<and> (\<forall>j. map_of (leases m') j =
           (if j \<in> set is then renewed_lease m j now else map_of (leases m) j))
      \<and> keys_deleted (concat (map (\<lambda>i. lost_keys m i now) is)) e e'"
    unfolding BatchRenew_def
    using handler.BatchRenew_from_runs [OF assms, of "[]"] by (simp only: map_of.simps) blast
  show "\<exists>m' e'. RenewMany (Some expiryHandler) (m, e) is now =
        Some ((m', e'), filter (\<lambda>i. renew_error m i now = None) is)
      \<and> (\<forall>j. map_of (leases m') j =
           (if j \<in> set is then renewed_lease m j now else map_of (leases m) j))"
    using handler.RenewMany_runs [OF assms] by blast
qed

theorem batch_renew_independent_witness:
  "\<exists>m' e' results.
     BatchRenew (Some expiryHandler) (mgr_l, backend_l) [''l'', ''l2''] 20 = Some ((m', e'), results)
     \<and> map_of results ''l'' = Some (Some ErrLeaseExpired) \<and> map_of results ''l2'' = Some None"
proof -
  have lost: "lost_keys mgr_l ''l'' 20 = [''k'']" "lost_keys mgr_l ''l2'' 20 = []"
    and err: "renew_error mgr_l ''l'' 20 = Some ErrLeaseExpired" "renew_error mgr_l ''l2'' 20 = None"
    by (simp_all add: lost_keys_def renew_error_def mgr_l_facts overdue_def)
  have "backend_ready (89 + length (concat (map (\<lambda>i. lost_keys mgr_l i 20) [''l'', ''l2'']))) backend_l"
    using backend_l_ready by (simp add: lost)
  from batch_renew_independent [OF _ mgr_l_ok this, THEN conjunct1] obtain m' e' results where
    "BatchRenew (Some expiryHandler) (mgr_l, backend_l) [''l'', ''l2''] 20 = Some ((m', e'), results)"
    "\<forall>j. map_of results j = (if j \<in> set [''l'', ''l2''] then Some (renew_error mgr_l j 20) else None)"
    by auto
  then show ?thesis by (simp add: err)
qed

text \<open>
  C28: revoking a lease removes it and deletes the keys bound to it, but releases no lock: the
  lock manager is the same afterwards, also when the lease's holder had acquired locks with it.
\<close>

theorem revoke_deletes_keys_keeps_locks:
  assumes "lease_ok m" and "map_of (leases m) i = Some l"
    and "backend_ready (n + length (KeysOf m i)) (lk, s)"
  shows "\<exists>m' s'. Revoke (Some expiryHandler) now (m, (lk, s)) i = Some ((m', (lk, s')), None)
    \<and> lease_ok m' \<and> store_ready n s'
    \<and> (\<forall>j. map_of (leases m') j = (if j = i then None else map_of (leases m) j))
    \<and> (\<forall>k. stored s' k = (if k \<in> set (KeysOf m i) then None else stored s k))"
  using handler.Revoke_runs [OF assms(1,3,2), of now] lease_ok_end [OF assms(1), of i]
  by (fastforce simp: keys_deleted_def backend_ready_def end_lease_def)

theorem revoke_deletes_keys_keeps_locks_witness:
  "\<exists>m' lk' s'. Revoke (Some expiryHandler) 5 (mgr_l, backend_l) ''l'' = Some ((m', (lk', s')), None)
    \<and> \<not> Alive m' ''l'' \<and> stored s' ''k'' = None
    \<and> table (abs_locks lk') ''L'' = Some ((''a'', ''l''), [])"
proof -
  obtain lk s where b: "backend_l = (lk, s)" and L: "table (abs_locks lk) ''L'' = Some ((''a'', ''l''), [])"
    using backend_l_parts by blast
  have "backend_ready (89 + length (KeysOf mgr_l ''l'')) (lk, s)"
    using backend_l_ready by (simp add: b mgr_l_facts)
  from revoke_deletes_keys_keeps_locks [OF mgr_l_ok mgr_l_facts(1) this, of 5] L show ?thesis
    by (fastforce simp: b mgr_l_facts Alive_def simp del: table_abs)
qed



text \<open>
  In every reachable state each registered lease is alive, is filed under its own id and has
  a set of bound keys, so that binding a key never panics, and binding one to a live lease adds
  exactly that key.
\<close>

theorem reachable_leases_consistent:
  assumes "lease_start w" and "lease_step\<^sup>*\<^sup>* w (m, e)"
  shows "(\<forall>i l. map_of (leases m) i = Some l \<longrightarrow> l_ID l = i \<and> l_State l = LeaseAlive)
    \<and> (\<forall>i. Alive m i \<longleftrightarrow> map_of (leases m) i \<noteq> None)
    \<and> (\<forall>i k. BindKey m i k \<noteq> None)
    \<and> (\<forall>i k. Alive m i \<longrightarrow> (\<exists>m'. BindKey m i k = Some (m', None)
         \<and> set (KeysOf m' i) = insert k (set (KeysOf m i)) \<and> leases m' = leases m))"
proof -
  have ok: "lease_ok m" using lease_runs.reachable_inv [OF assms] by (simp add: lease_inv_def)
  have "\<exists>m'. BindKey m i k = Some (m', None)
      \<and> set (KeysOf m' i) = insert k (set (KeysOf m i)) \<and> leases m' = leases m"
    if alive: "Alive m i" for i k
  proof -
    obtain l where l: "map_of (leases m) i = Some l"
      using alive Alive_iff [OF ok, of i] by (cases "map_of (leases m) i") simp_all
    obtain ks where ks: "map_of (bindings m) i = Some ks" using lease_okD(3) [OF ok l] by auto
    show ?thesis using l ks lease_okD(2) [OF ok l] by (auto simp add: BindKey_def KeysOf_def dom_update)
  qed
  then show ?thesis
    using BindKey_defined [OF ok] Alive_iff [OF ok] lease_okD [OF ok] by blast
qed

theorem reachable_leases_consistent_witness:
  "lease_step\<^sup>*\<^sup>* (NewLeaseMgr, backend_l) (fst (Create 0 NewLeaseMgr ''l'' 10 ''a''), backend_l)
   \<and> (\<exists>m'. BindKey (fst (Create 0 NewLeaseMgr ''l'' 10 ''a'')) ''l'' ''k'' = Some (m', None)
        \<and> set (KeysOf m' ''l'') = {''k''})"
proof -
  let ?m = "fst (Create 0 NewLeaseMgr ''l'' 10 ''a'')"
  have "lease_step (NewLeaseMgr, backend_l) (?m, backend_l)"
    by (rule create) (rule prod.collapse [symmetric])
  then have run: "lease_step\<^sup>*\<^sup>* (NewLeaseMgr, backend_l) (?m, backend_l)" by blast
  have "lease_start (NewLeaseMgr, backend_l)" by (simp add: lease_start_def)
  note facts = reachable_leases_consistent [OF this run]
  have "Alive ?m ''l''" and keys: "KeysOf ?m ''l'' = []" by code_simp+
  with facts obtain m' where "BindKey ?m ''l'' ''k'' = Some (m', None)"
    "set (KeysOf m' ''l'') = insert ''k'' (set (KeysOf ?m ''l''))" by blast
  with run keys show ?thesis by auto
qed

text \<open>
  The notification runs after the mutex was released, so another client may register the
  same id first. Then the handler takes the bound keys of the new, live lease: it stays alive
  without a set of bound keys, and the next attempt to bind a key to it panics.
\<close>

theorem late_callback_makes_binding_panic:
  assumes "lease_ok m" and "map_of (leases m) i = Some l"
    and "Create t (fst (removeLocked m l)) i ttl holder = (m2, r)"
    and "expiryHandler i now (m2, e) = Some (m3, e')"
  shows "r = None \<and> Alive m3 i \<and> BindKey m3 i k = None"
proof -
  have "map_of (leases (fst (removeLocked m l))) i = None"
    using lease_okD(1) [OF assms(1,2)] by (simp add: removeLocked_eq)
  then have c: "r = None" "map_of (leases m2) i = Some \<lparr>l_ID = i, l_TTL = ttl, l_ExpiresAt = t + ttl,
      l_RenewSeq = 0, l_Holder = holder, l_State = LeaseAlive\<rparr>"
    using assms(3) by (auto simp: Create_def)
  have "m3 = m2\<lparr>bindings := mdel i (bindings m2)\<rparr>"
    using assms(4) by (cases e)
      (auto simp: expiryHandler_def ConsumeKeys_def Let_def split: prod.splits Option.bind_splits)
  then show ?thesis using c by (simp add: Alive_def BindKey_def)
qed

theorem late_callback_makes_binding_panic_witness:
  "\<exists>m2 m3 e'. Create 3 (fst (removeLocked mgr_l (the (map_of (leases mgr_l) ''l'')))) ''l'' 5 ''z'' = (m2, None)
    \<and> expiryHandler ''l'' 3 (m2, backend_l) = Some (m3, e') \<and> BindKey m3 ''l'' ''q'' = None"
proof -
  let ?m1 = "fst (removeLocked mgr_l (the (map_of (leases mgr_l) ''l'')))"
  obtain m2 r where c: "Create 3 ?m1 ''l'' 5 ''z'' = (m2, r)" by fastforce
  have "expiryHandler ''l'' 3 (fst (Create 3 ?m1 ''l'' 5 ''z''), backend_l) \<noteq> None \<longleftrightarrow> True"
    by code_simp
  then obtain m3 e' where h: "expiryHandler ''l'' 3 (m2, backend_l) = Some (m3, e')"
    by (cases "expiryHandler ''l'' 3 (m2, backend_l)") (auto simp: c)
  from late_callback_makes_binding_panic [OF mgr_l_ok mgr_l_facts(1) _ h, of 3 5 "''z''" r]
    c h show ?thesis by (auto simp: mgr_l_facts(1))
qed

section \<open>The reclaim loop\<close>



end
