(* ===== verification/ElectionRuns.thy ===== *)
theory ElectionRuns
  imports Elections Expiry
begin

text \<open>
  The lease manager, with the service's expiry handler installed, is the lease service of the
  election; and the runs of one participant whose operations follow one another.
\<close>

section \<open>The lease manager as lease service\<close>

definition lease_mgr_service :: "lease_world LeaseService" where
  "lease_mgr_service = mgr_service expiryHandler"

lemma lease_mgr_service_sel [simp]:
  "svc_Create lease_mgr_service t i ttl h w = (let (m', r) = Create t (fst w) i ttl h in ((m', snd w), r))"
  "svc_Renew lease_mgr_service i now w = Renew (Some expiryHandler) w i now"
  "svc_Revoke lease_mgr_service t i w = Revoke (Some expiryHandler) t w i"
  by (simp_all add: lease_mgr_service_def)

definition service_ok :: "lease_world \<Rightarrow> bool" where
  "service_ok w \<longleftrightarrow> lease_ok (fst w) \<and> backend_ready (bound_total (fst w)) (snd w)"

interpretation any_handler: expiry_callback expiryHandler backend_ready "\<lambda>ks e e'. True"
  using handler.callback by unfold_locales (blast intro: backend_ready_less)+

lemma service_ok_frame: "service_ok = frame_ok backend_ready (\<lambda>ks e e'. True) 0 e0"
  by (simp add: fun_eq_iff service_ok_def frame_ok_def)

interpretation election: lease_service lease_mgr_service service_ok service_held
  unfolding lease_mgr_service_def service_ok_frame [of "(NewLockMgr, New 0)"]
  by (rule any_handler.lease_service_frame)

section \<open>Runs of a participant\<close>

text \<open>
  The participant's operations one after the other, while other clients of the lease manager
  may change the lease world between them.
\<close>

type_synonym election_world = "lease_world \<times> Election"

inductive election_step :: "election_world \<Rightarrow> election_world \<Rightarrow> bool" where
  campaign: "Campaign lease_mgr_service t hb w = (w', r) \<Longrightarrow> election_step w w'"
| resign: "Resign lease_mgr_service t w = Some w' \<Longrightarrow> election_step w w'"
| heartbeat: "heartbeat_tick lease_mgr_service t hb1 hb2 w = Some w' \<Longrightarrow> election_step w w'"
| handoff: "Handoff lease_mgr_service t hb newTerm newName w = Some (w', r) \<Longrightarrow> election_step w w'"
| follow: "election_step (l, e) (l, Follow e)"
| lease_expired: "i \<noteq> [] \<Longrightarrow> election_step (l, e) (l, OnLeaseExpired i e)"
| other_clients: "service_ok l' \<Longrightarrow> election_step (l, e) (l', e)"

definition election_start :: "election_world \<Rightarrow> bool" where
  "election_start w \<longleftrightarrow> service_ok (fst w)
     \<and> (\<exists>name ttl interval. snd w = NewElection name ttl interval)"

definition election_inv :: "election_world \<Rightarrow> bool" where
  "election_inv w \<longleftrightarrow> service_ok (fst w) \<and> election_ok (snd w)"

lemma election_step_inv:
  assumes "election_step w w'" and inv: "election_inv w"
  shows "election_inv w'"
proof -
  obtain l e where w: "w = (l, e)" by (cases w)
  have ok: "service_ok l" "election_ok e" using inv by (simp_all add: w election_inv_def)
  from assms(1) show ?thesis
  proof cases
    case (campaign t hb r)
    show ?thesis
    proof (cases "el_role e = RoleLeader")
      case True
      then have "w' = w" using campaign by (simp add: Campaign_def Campaign_enter_def w)
      then show ?thesis using inv by simp
    next
      case False
      from election.Campaign_runs [OF ok False, of t hb] campaign show ?thesis
        by (auto simp: w election_inv_def)
    qed
  next
    case (resign t)
    from election.Resign_runs [OF ok, of t] resign show ?thesis by (auto simp: w election_inv_def)
  next
    case (heartbeat t hb1 hb2)
    show ?thesis
    proof (cases "el_role e = RoleLeader")
      case True
      from election.stepDown_runs [OF ok, of t] election.Heartbeat_runs [OF ok True, of t hb2] heartbeat
      show ?thesis by (auto simp: w election_inv_def heartbeat_tick_def split: if_splits)
    next
      case False
      then have "w' = w" using heartbeat by (simp add: heartbeat_tick_def CheckTimeout_def Heartbeat_def w)
      then show ?thesis using inv by simp
    qed
  next
    case (handoff t hb newTerm newName r)
    from election.Handoff_runs [OF ok, of t hb newTerm newName] handoff show ?thesis
      by (auto simp: w election_inv_def)
  next
    case (follow l e)
    then show ?thesis
      using inv by (auto simp: election_inv_def Follow_def election_ok_def split: if_splits)
  next
    case (lease_expired i l e)
    then show ?thesis
      using inv by (auto simp: election_inv_def OnLeaseExpired_def election_ok_def split: if_splits)
  next
    case (other_clients l' l e)
    then show ?thesis using inv by (simp add: election_inv_def)
  qed
qed

interpretation election_runs: invariant_system election_start election_step election_inv
  by (unfold_locales, force simp: election_start_def election_inv_def election_ok_New,
    rule election_step_inv)

end
