(* ===== verification/ElectionTheorems.thy ===== *)
theory ElectionTheorems
  imports ElectionRuns LeaseTheorems
begin

text \<open>
  The properties of leader election on the lease manager: when a campaign wins, what heartbeats,
  resignations and handoffs leave behind, and the situations in which there is more than one
  leader, or a lease without one.
\<close>

section \<open>A world for the witnesses\<close>

text \<open>The lease world of the lease witnesses; no leadership lease is held in it.\<close>

definition world_l :: lease_world where "world_l = (mgr_l, backend_l)"

lemma world_l_ok: "service_ok world_l"
proof -
  have "bound_total mgr_l = 1" by code_simp
  then show ?thesis
    using mgr_l_ok backend_ready_less [OF backend_l_ready, of 1]
    by (simp add: service_ok_def world_l_def)
qed

lemma world_l_held: "service_held world_l (leadershipLeaseID ''n1'') = False"
  "service_held world_l (leadershipLeaseID ''n2'') = False"
  by code_simp+

definition node1 :: Election where "node1 = NewElection ''n1'' 30 5"
definition node2 :: Election where "node2 = NewElection ''n2'' 30 5"

lemma node_facts [simp]:
  "election_ok node1" "election_ok node2" "el_role node1 = RoleFollower" "el_role node2 = RoleFollower"
  "el_name node1 = ''n1''" "el_name node2 = ''n2''" "el_leaderLease node1 = []"
  by (simp_all add: node1_def node2_def election_ok_New) (simp_all add: NewElection_def)

section \<open>The operations\<close>

text \<open>
  C32: a participant that is not the leader wins a campaign exactly when the leadership lease of
  its own name is free. The term grows by one either way; the winner is the leader of that
  lease with a fresh heartbeat, the loser is a follower and learns that the leadership is held.
\<close>

theorem campaign_wins_iff_lease_free:
  assumes "service_ok l" and "election_ok e" and "el_role e \<noteq> RoleLeader"
  shows "\<exists>l' e'. Campaign lease_mgr_service t hb (l, e) =
      ((l', e'), if service_held l (leadershipLeaseID (el_name e)) then Some ErrLostElection else None)
    \<and> service_ok l' \<and> election_ok e' \<and> el_term e' = el_term e + 1
    \<and> service_held l' = (service_held l)(leadershipLeaseID (el_name e) := True)
    \<and> el_role e' = (if service_held l (leadershipLeaseID (el_name e)) then RoleFollower else RoleLeader)
    \<and> (\<not> service_held l (leadershipLeaseID (el_name e)) \<longrightarrow> el_leaderName e' = el_name e
         \<and> el_leaderLease e' = leadershipLeaseID (el_name e) \<and> el_lastHeartbeat e' = Some hb)"
  using election.Campaign_runs [OF assms, of t hb] by blast

theorem campaign_wins_iff_lease_free_witness:
  "\<exists>l' e'. Campaign lease_mgr_service 1 1 (world_l, node1) = ((l', e'), None)
    \<and> el_role e' = RoleLeader \<and> service_held l' (leadershipLeaseID ''n1'')"
  using campaign_wins_iff_lease_free [OF world_l_ok, of node1 1 1] by (auto simp: world_l_held)





text \<open>
  C34: a handoff on every branch. It takes the new term whatever the old one was. When the old
  leadership lease is gone it fails and the participant is left a candidate; when the new
  leader's lease is held by someone it fails with the old lease already revoked; otherwise the
  old lease is revoked, the new one created, and the participant leads under the new name.
\<close>

theorem handoff_all_branches:
  assumes "service_ok l" and "election_ok e"
  shows "\<exists>l' e' r. Handoff lease_mgr_service t hb newTerm newName (l, e) = Some ((l', e'), r)
    \<and> service_ok l' \<and> election_ok e' \<and> el_term e' = newTerm
    \<and> (if el_leaderLease e \<noteq> [] \<and> \<not> service_held l (el_leaderLease e)
       then r = Some (LeaseFailed ErrLeaseExpired) \<and> el_role e' = RoleCandidate
         \<and> service_held l' = service_held l
       else if leadershipLeaseID newName \<noteq> el_leaderLease e \<and> service_held l (leadershipLeaseID newName)
       then r = Some ErrLostElection \<and> el_role e' = RoleFollower
         \<and> service_held l' = (if el_leaderLease e = [] then service_held l
                               else (service_held l)(el_leaderLease e := False))
       else r = None \<and> el_role e' = RoleLeader \<and> el_leaderName e' = newName
         \<and> service_held l' = (if el_leaderLease e = [] then service_held l
                               else (service_held l)(el_leaderLease e := False))
                              (leadershipLeaseID newName := True))"
  using election.Handoff_runs [OF assms, of t hb newTerm newName] by blast

theorem handoff_all_branches_witness:
  "\<exists>l' e'. Handoff lease_mgr_service 1 1 7 ''n2'' (world_l, node1) = Some ((l', e'), None)
    \<and> el_term e' = 7 \<and> el_role e' = RoleLeader \<and> el_leaderName e' = ''n2''"
  using handoff_all_branches [OF world_l_ok, of node1 1 1 7 "''n2''"]
  by (auto simp: world_l_held)

section \<open>More than one leader, and none\<close>

text \<open>
  C35: the leadership lease is named after the candidate, so it does not exclude other
  candidates: two participants with different names that campaign on the same lease manager
  both win and are both leaders at the same time.
\<close>

theorem two_participants_both_lead:
  assumes "service_ok l" and "election_ok e1" and "election_ok e2"
    and "el_role e1 \<noteq> RoleLeader" and "el_role e2 \<noteq> RoleLeader" and "el_name e1 \<noteq> el_name e2"
    and "\<not> service_held l (leadershipLeaseID (el_name e1))"
    and "\<not> service_held l (leadershipLeaseID (el_name e2))"
  shows "\<exists>l1 e1' l2 e2'. Campaign lease_mgr_service t hb (l, e1) = ((l1, e1'), None)
    \<and> Campaign lease_mgr_service t hb (l1, e2) = ((l2, e2'), None)
    \<and> el_role e1' = RoleLeader \<and> el_role e2' = RoleLeader
    \<and> service_held l2 (el_leaderLease e1') \<and> service_held l2 (el_leaderLease e2')"
proof -
  obtain l1 e1' where 1: "Campaign lease_mgr_service t hb (l, e1) = ((l1, e1'), None)" "service_ok l1"
    "service_held l1 = (service_held l)(leadershipLeaseID (el_name e1) := True)"
    "el_role e1' = RoleLeader" "el_leaderLease e1' = leadershipLeaseID (el_name e1)"
    using election.Campaign_runs [OF assms(1,2,4), of t hb] assms(7) by auto
  have "\<not> service_held l1 (leadershipLeaseID (el_name e2))"
    using assms(6,8) by (simp add: 1(3))
  then obtain l2 e2' where 2: "Campaign lease_mgr_service t hb (l1, e2) = ((l2, e2'), None)"
    "service_held l2 = (service_held l1)(leadershipLeaseID (el_name e2) := True)"
    "el_role e2' = RoleLeader" "el_leaderLease e2' = leadershipLeaseID (el_name e2)"
    using election.Campaign_runs [OF 1(2) assms(3,5), of t hb] by auto
  have "service_held l2 (el_leaderLease e1')" "service_held l2 (el_leaderLease e2')"
    by (simp_all add: 1(3,5) 2(2,4))
  with 1(1,4) 2(1,3) show ?thesis by blast
qed

theorem two_participants_both_lead_witness:
  "\<exists>l1 e1 l2 e2. Campaign lease_mgr_service 1 1 (world_l, node1) = ((l1, e1), None)
    \<and> Campaign lease_mgr_service 1 1 (l1, node2) = ((l2, e2), None)
    \<and> el_role e1 = RoleLeader \<and> el_role e2 = RoleLeader"
  using two_participants_both_lead [OF world_l_ok, of node1 node2 1 1] by (auto simp: world_l_held)

text \<open>
  Two campaigns of one participant at the same time can cost it the leadership. Both enter,
  the first creates the lease and becomes the leader, the second fails to create it and makes
  the participant a follower: the lease stays held, no heartbeat renews it, and a third
  campaign fails too.
\<close>

theorem concurrent_campaigns_lose_leadership:
  assumes "service_ok l" and "el_role e = RoleFollower" and "el_leaderLease e = []"
    and "\<not> service_held l (leadershipLeaseID (el_name e))"
    and "Campaign_enter e = (e1, n1)" and "Campaign_enter e1 = (e2, n2)"
    and "svc_Create lease_mgr_service t (leadershipLeaseID (el_name e)) ttl (el_name e) l = (l1, err1)"
    and "Campaign_leave hb (el_name e) err1 e2 = (e3, r1)"
    and "svc_Create lease_mgr_service t (leadershipLeaseID (el_name e)) ttl (el_name e) l1 = (l2, err2)"
    and "Campaign_leave hb (el_name e) err2 e3 = (e4, r2)"
  shows "n1 = CampaignCreate (el_name e) \<and> n2 = CampaignCreate (el_name e)
    \<and> r1 = None \<and> el_role e3 = RoleLeader \<and> r2 = Some ErrLostElection
    \<and> el_role e4 = RoleFollower \<and> el_leaderLease e4 = leadershipLeaseID (el_name e)
    \<and> service_held l2 (el_leaderLease e4)
    \<and> Heartbeat lease_mgr_service t hb (l2, e4) = Some ((l2, e4), None)
    \<and> snd (Campaign lease_mgr_service t hb (l2, e4)) = Some ErrLostElection"
proof -
  let ?i = "leadershipLeaseID (el_name e)"
  obtain l1' where c1: "svc_Create lease_mgr_service t ?i ttl (el_name e) l = (l1', None)" "service_ok l1'"
    "service_held l1' = (service_held l)(?i := True)"
    using election.create_free [OF assms(1,4), of t ttl "el_name e"] by blast
  then have l1: "err1 = None" "service_ok l1" "service_held l1 ?i" using assms(7) by auto
  have c2: "svc_Create lease_mgr_service t ?i d h l1 = (l1, Some ErrLeaseExists)" for d h
    by (rule election.create_held [OF l1(2,3)])
  then have l2: "err2 = Some ErrLeaseExists" "l2 = l1" using assms(9) by auto
  have e1: "e1 = e\<lparr>el_term := el_term e + 1, el_role := RoleCandidate\<rparr>" "n1 = CampaignCreate (el_name e)"
    using assms(2,5) by (auto simp: Campaign_enter_def)
  have e2: "e2 = e1\<lparr>el_term := el_term e1 + 1\<rparr>" "n2 = CampaignCreate (el_name e)"
    using assms(6) by (auto simp: Campaign_enter_def e1)
  have e3: "e3 = e2\<lparr>el_role := RoleLeader, el_leaderName := el_name e, el_leaderLease := ?i,
      el_lastHeartbeat := Some hb\<rparr>" "r1 = None"
    using assms(8) l1(1) by (auto simp: Campaign_leave_def)
  have e4: "e4 = e3\<lparr>el_role := RoleFollower\<rparr>" "r2 = Some ErrLostElection"
    using assms(10) l2 by (auto simp: Campaign_leave_def)
  have name: "el_name e4 = el_name e" by (simp add: e4 e3 e2 e1)
  have "snd (Campaign lease_mgr_service t hb (l2, e4)) = Some ErrLostElection"
    using c2 by (simp add: Campaign_def Campaign_enter_def e4 e3 e2 e1 l2 Campaign_leave_def
        del: lease_mgr_service_sel)
  then show ?thesis using e1 e2 e3 e4 l1 l2 by (simp add: Heartbeat_def)
qed

theorem concurrent_campaigns_lose_leadership_witness:
  "\<exists>e1 e2 e3 (l2 :: lease_world) e4. Campaign_enter node1 = (e1, CampaignCreate ''n1'')
    \<and> Campaign_enter e1 = (e2, CampaignCreate ''n1'')
    \<and> Campaign_leave 1 ''n1'' None e2 = (e3, None) \<and> el_role e3 = RoleLeader
    \<and> Campaign_leave 1 ''n1'' (Some ErrLeaseExists) e3 = (e4, Some ErrLostElection)
    \<and> el_role e4 = RoleFollower \<and> service_held l2 (el_leaderLease e4)"
proof -
  obtain e1 n1 where 1: "Campaign_enter node1 = (e1, n1)" by fastforce
  obtain e2 n2 where 2: "Campaign_enter e1 = (e2, n2)" by fastforce
  have free: "\<not> service_held world_l (leadershipLeaseID ''n1'')" by (simp add: world_l_held)
  obtain l1 where 3: "svc_Create lease_mgr_service 1 (leadershipLeaseID ''n1'') 30 ''n1'' world_l = (l1, None)"
    "service_ok l1" "service_held l1 = (service_held world_l)(leadershipLeaseID ''n1'' := True)"
    using election.create_free [OF world_l_ok free, of 1 30 "''n1''"] by blast
  have held: "service_held l1 (leadershipLeaseID ''n1'')" by (simp add: 3(3))
  have 5: "svc_Create lease_mgr_service 1 (leadershipLeaseID ''n1'') 30 ''n1'' l1 = (l1, Some ErrLeaseExists)"
    by (rule election.create_held [OF 3(2)]) (simp add: 3(3))
  obtain e3 r1 where 4: "Campaign_leave 1 ''n1'' None e2 = (e3, r1)" by fastforce
  obtain e4 r2 where 6: "Campaign_leave 1 ''n1'' (Some ErrLeaseExists) e3 = (e4, r2)" by fastforce
  have "n1 = CampaignCreate ''n1'' \<and> n2 = CampaignCreate ''n1'' \<and> r1 = None \<and> el_role e3 = RoleLeader
      \<and> r2 = Some ErrLostElection \<and> el_role e4 = RoleFollower \<and> service_held l1 (el_leaderLease e4)"
    using concurrent_campaigns_lose_leadership [OF world_l_ok _ _ _ 1 2, of 1 30 l1 None 1 e3 r1 l1
        "Some ErrLeaseExists" e4 r2] free 3(1) 4 5 6 held by (simp del: lease_mgr_service_sel)
  with 1 2 4 6 show ?thesis by blast
qed

end
