(* ===== verification/Watches.thy ===== *)
theory Watches
  imports Store
begin

text \<open>
  Watches (\<^verbatim>\<open>internal/watch/watch.go\<close>). A subscription is a heap object shared by the map of
  active subscriptions, its delivery goroutine and its retry goroutines; its address is its
  position in \<open>w_heap\<close>. The goroutines are threads that move from one critical section or
  channel operation to the next. A peer is a number; whether one of its sends succeeds is up to
  the step that makes it.
\<close>

section \<open>State\<close>

record VersionedEntry =
  ve_Key :: Key
  ve_Value :: Value
  ve_Rev :: Revision

record subscription =
  sub_id :: WatchID
  sub_key :: Key
  sub_stream :: uint64
  sub_snapshot :: "VersionedEntry list"
  sub_cursor :: Revision
  sub_ch :: "WatchEvent list"
  sub_chClosed :: bool
  sub_peer :: "nat option"
  sub_doneClosed :: bool
  sub_closed :: bool
  sub_gen :: uint64
  sub_retries :: "Revision list"

record Watcher =
  w_subs :: "(WatchID, nat) gomap"
  w_nextID :: uint64
  w_acks :: "(WatchID, Revision) gomap"
  w_heap :: "subscription list"

definition NewWatcher :: Watcher where
  "NewWatcher = \<lparr>w_subs = [], w_nextID = 0, w_acks = [], w_heap = []\<rparr>"

definition set_sub :: "Watcher \<Rightarrow> nat \<Rightarrow> subscription \<Rightarrow> Watcher" where
  "set_sub w a sub = w\<lparr>w_heap := (w_heap w)[a := sub]\<rparr>"

section \<open>Rendering of numbers and snapshots\<close>

text \<open>\<^verbatim>\<open>itoa\<close>: the digits are written backwards from the end of the buffer.\<close>

function itoa_digits :: "uint64 \<Rightarrow> string \<Rightarrow> string" where
  "itoa_digits v buf =
     (if v = 0 then buf else itoa_digits (v div 10) (char_of (48 + unat (v mod 10)) # buf))"
  by pat_completeness auto
termination
proof (relation "measure (\<lambda>(v, buf). unat v)")
  fix v :: uint64 assume "v \<noteq> 0"
  then have "0 < unat v" by (simp add: unat_gt_0)
  then have "unat (v div 10) < unat v" by (simp add: unat_div)
  then show "((v div 10, buf'), (v, buf)) \<in> measure (\<lambda>(v, buf). unat v)" for buf buf' :: string by simp
qed simp

declare itoa_digits.simps [simp del]

definition itoa :: "uint64 \<Rightarrow> string" where
  "itoa v = (if v = 0 then ''0'' else itoa_digits v [])"

fun live_entries :: "(Key, VersionedValue) gomap \<Rightarrow> VersionedEntry list" where
  "live_entries [] = []"
| "live_entries ((key, vv) # rest) =
     (if vv_Deleted vv then live_entries rest
      else \<lparr>ve_Key = key, ve_Value = vv_Value vv, ve_Rev = vv_Rev vv\<rparr> # live_entries rest)"

definition snapshotEntries :: "(Key, VersionedValue) gomap \<Rightarrow> VersionedEntry list" where
  "snapshotEntries snapshot = sort_key ve_Rev (live_entries snapshot)"

section \<open>Operations\<close>

text \<open>
  \<^verbatim>\<open>Watch\<close> holds the watcher's mutex, but the store's only inside each call: \<open>cur\<close> is the
  revision that \<^verbatim>\<open>CurrentRev\<close> returned before the stream is opened.
\<close>

definition Watch_at ::
  "Revision \<Rightarrow> Store \<times> Watcher \<Rightarrow> Key \<Rightarrow> Revision \<Rightarrow> ((Store \<times> Watcher) \<times> (StoreError + WatchID)) option" where
  "Watch_at cur sw key startRev =
     (let (s, w) = sw;
          n = w_nextID w + 1;
          i = ''watch-'' @ itoa n;
          w1 = w\<lparr>w_nextID := n\<rparr>
      in do {
        (s', res) \<leftarrow> (if cur \<le> startRev then (let (s', st) = OpenLiveStream s in Some (s', Inr st))
                      else OpenStream s startRev);
        case res of
          Inl err \<Rightarrow> Some ((s', w1), Inl err)
        | Inr st \<Rightarrow> do {
            stream \<leftarrow> map_of (streamHeap s') st;
            let sub = \<lparr>sub_id = i, sub_key = key, sub_stream = st,
                       sub_snapshot = snapshotEntries (st_Snapshot stream), sub_cursor = startRev,
                       sub_ch = [], sub_chClosed = False, sub_peer = None, sub_doneClosed = False,
                       sub_closed = False, sub_gen = 0, sub_retries = []\<rparr>;
            Some ((s', w1\<lparr>w_subs := mput i (length (w_heap w1)) (w_subs w1),
                          w_heap := w_heap w1 @ [sub]\<rparr>), Inr i)
          }
      })"

definition Watch ::
  "Store \<times> Watcher \<Rightarrow> Key \<Rightarrow> Revision \<Rightarrow> ((Store \<times> Watcher) \<times> (StoreError + WatchID)) option" where
  "Watch sw key startRev = Watch_at (CurrentRev (fst sw)) sw key startRev"

definition Attach :: "Watcher \<Rightarrow> WatchID \<Rightarrow> nat \<Rightarrow> Watcher" where
  "Attach w i peer =
     (case map_of (w_subs w) i of
        None \<Rightarrow> w
      | Some a \<Rightarrow> set_sub w a ((w_heap w ! a)\<lparr>sub_peer := Some peer\<rparr>))"

definition Cursor :: "Watcher \<Rightarrow> WatchID \<Rightarrow> Revision" where
  "Cursor w i = (case map_of (w_acks w) i of None \<Rightarrow> 0 | Some r \<Rightarrow> r)"

definition Ack :: "Watcher \<Rightarrow> WatchID \<Rightarrow> Revision \<Rightarrow> Watcher" where
  "Ack w i rv = (if Cursor w i < rv then w\<lparr>w_acks := mput i rv (w_acks w)\<rparr> else w)"

text \<open>The peer whose \<^verbatim>\<open>Close\<close> is called, if there is one, is part of the result.\<close>

definition CancelWatch :: "Store \<times> Watcher \<Rightarrow> WatchID \<Rightarrow> ((Store \<times> Watcher) \<times> nat option) option" where
  "CancelWatch sw i =
     (let (s, w) = sw
      in case map_of (w_subs w) i of
           None \<Rightarrow> Some (sw, None)
         | Some a \<Rightarrow>
             let sub = w_heap w ! a
             in if sub_doneClosed sub then None
                else do {
                  s' \<leftarrow> Stream_Close s (sub_stream sub);
                  Some ((s', set_sub (w\<lparr>w_subs := mdel i (w_subs w), w_acks := mdel i (w_acks w)\<rparr>) a
                               (sub\<lparr>sub_closed := True, sub_doneClosed := True\<rparr>)), sub_peer sub)
                })"

definition WatchCount :: "Watcher \<Rightarrow> nat" where
  "WatchCount w = length (w_subs w)"

section \<open>The goroutines of a subscription\<close>

text \<open>
  \<open>ReplaySnapshot\<close> and \<open>Receiving\<close> are the two loops of \<^verbatim>\<open>deliverLoop\<close>; \<open>Pushing\<close> is the entry of
  \<^verbatim>\<open>push\<close> and \<open>Sending\<close> its second half, with the peer read under the mutex, both with what
  follows; \<open>LoopExit\<close> is the deferred function of \<^verbatim>\<open>deliverLoop\<close>; \<open>RetryWait\<close> is the goroutine of \<^verbatim>\<open>scheduleRetry\<close> before its timer fires.
\<close>

datatype thread =
  ReplaySnapshot "VersionedEntry list"
| Receiving
| Pushing Event thread
| Sending Event "nat option" thread
| RetryWait Event
| LoopExit
| Ended

text \<open>Where a failed push leads: out of the loop, or to the end of the retry goroutine.\<close>

definition exit_from :: "thread \<Rightarrow> thread" where
  "exit_from next0 = (if next0 = Ended then Ended else LoopExit)"

definition ch_capacity :: nat where "ch_capacity = 256"

definition scheduleRetry :: "subscription \<Rightarrow> Event \<Rightarrow> subscription \<times> thread list" where
  "scheduleRetry sub ev =
     (if sub_closed sub then (sub, [])
      else if ev_Rev ev \<in> set (sub_retries sub) then (sub, [])
      else (sub\<lparr>sub_retries := ev_Rev ev # sub_retries sub\<rparr>, [RetryWait ev]))"

record watch_run =
  ws_store :: Store
  ws_mgr :: Watcher
  ws_threads :: "thread list"
  ws_got :: "Event list"
  ws_sent :: "(Event \<times> bool) list"

text \<open>
  \<open>ws_got\<close> records what the loop has received from the stream, \<open>ws_sent\<close> what it has sent, to
  the channel or to the peer, and whether the send succeeded. A step of thread \<open>k\<close> of the
  subscription at address \<open>a\<close>:
\<close>

definition the_sub :: "nat \<Rightarrow> watch_run \<Rightarrow> subscription" where
  "the_sub a r = w_heap (ws_mgr r) ! a"

definition upd_sub :: "nat \<Rightarrow> subscription \<Rightarrow> watch_run \<Rightarrow> watch_run" where
  "upd_sub a sub r = r\<lparr>ws_mgr := set_sub (ws_mgr r) a sub\<rparr>"

definition goto :: "nat \<Rightarrow> thread \<Rightarrow> watch_run \<Rightarrow> watch_run" where
  "goto k t r = r\<lparr>ws_threads := (ws_threads r)[k := t]\<rparr>"

inductive thread_step :: "nat \<Rightarrow> nat \<Rightarrow> thread \<Rightarrow> watch_run \<Rightarrow> watch_run \<Rightarrow> bool" for a k where
  snapshot_skip_key: "sub_key (the_sub a r) \<noteq> [] \<Longrightarrow> ve_Key entry \<noteq> sub_key (the_sub a r) \<Longrightarrow>
    thread_step a k (ReplaySnapshot (entry # rest)) r (goto k (ReplaySnapshot rest) r)"
| snapshot_skip_rev: "\<not> (sub_key (the_sub a r) \<noteq> [] \<and> ve_Key entry \<noteq> sub_key (the_sub a r)) \<Longrightarrow>
    ve_Rev entry \<le> sub_cursor (the_sub a r) \<Longrightarrow>
    thread_step a k (ReplaySnapshot (entry # rest)) r (goto k (ReplaySnapshot rest) r)"
| snapshot_push: "\<not> (sub_key (the_sub a r) \<noteq> [] \<and> ve_Key entry \<noteq> sub_key (the_sub a r)) \<Longrightarrow>
    \<not> ve_Rev entry \<le> sub_cursor (the_sub a r) \<Longrightarrow>
    thread_step a k (ReplaySnapshot (entry # rest)) r
      (goto k (Pushing (NewPut (ve_Key entry) (ve_Value entry) (ve_Rev entry)) (ReplaySnapshot rest)) r)"
| snapshot_done: "thread_step a k (ReplaySnapshot []) r (goto k Receiving r)"
| receive_skip: "stream_recv (ws_store r) (sub_stream (the_sub a r)) = Some (s', Received ev) \<Longrightarrow>
    ev_Rev ev \<le> sub_cursor (the_sub a r) \<or> \<not> Match ev (sub_key (the_sub a r)) \<Longrightarrow>
    thread_step a k Receiving r (r\<lparr>ws_store := s', ws_got := ws_got r @ [ev]\<rparr>)"
| receive_push: "stream_recv (ws_store r) (sub_stream (the_sub a r)) = Some (s', Received ev) \<Longrightarrow>
    \<not> (ev_Rev ev \<le> sub_cursor (the_sub a r) \<or> \<not> Match ev (sub_key (the_sub a r))) \<Longrightarrow>
    thread_step a k Receiving r
      (goto k (Pushing ev Receiving) (r\<lparr>ws_store := s', ws_got := ws_got r @ [ev]\<rparr>))"
| receive_closed: "stream_recv (ws_store r) (sub_stream (the_sub a r)) = Some (s', ChannelClosed) \<Longrightarrow>
    thread_step a k Receiving r (goto k LoopExit r)"
| context_done: "thread_step a k Receiving r (goto k LoopExit r)"
| push_closed: "sub_closed (the_sub a r) \<Longrightarrow> thread_step a k (Pushing ev next0) r (goto k (exit_from next0) r)"
| push_enter: "\<not> sub_closed (the_sub a r) \<Longrightarrow>
    thread_step a k (Pushing ev next0) r
      (goto k (Sending ev (sub_peer (the_sub a r)) next0)
        (upd_sub a ((the_sub a r)\<lparr>sub_cursor := ev_Rev ev\<rparr>) r))"
| peer_ok: "thread_step a k (Sending ev (Some p) next0) r
    (goto k next0 (r\<lparr>ws_sent := ws_sent r @ [(ev, True)]\<rparr>))"
| peer_error: "scheduleRetry (the_sub a r) ev = (sub', new) \<Longrightarrow>
    thread_step a k (Sending ev (Some p) next0) r
      (let r' = goto k next0 (upd_sub a sub' (r\<lparr>ws_sent := ws_sent r @ [(ev, False)]\<rparr>))
       in r'\<lparr>ws_threads := ws_threads r' @ new\<rparr>)"
| channel_send: "length (sub_ch (the_sub a r)) < ch_capacity \<Longrightarrow> \<not> sub_chClosed (the_sub a r) \<Longrightarrow>
    thread_step a k (Sending ev None next0) r
      (goto k next0 (upd_sub a
        ((the_sub a r)\<lparr>sub_ch := sub_ch (the_sub a r) @ [WatchEventFor ev (ev_Rev ev)]\<rparr>)
        (r\<lparr>ws_sent := ws_sent r @ [(ev, True)]\<rparr>)))"
| send_abandoned: "thread_step a k (Sending ev None next0) r (goto k (exit_from next0) r)"
| loop_exit: "\<not> sub_chClosed (the_sub a r) \<Longrightarrow>
    thread_step a k LoopExit r (goto k Ended (upd_sub a ((the_sub a r)\<lparr>sub_chClosed := True\<rparr>) r))"
| retry_stopped: "thread_step a k (RetryWait ev) r (goto k Ended r)"
| retry_closed: "sub_closed (the_sub a r) \<Longrightarrow>
    thread_step a k (RetryWait ev) r (goto k Ended (upd_sub a
      ((the_sub a r)\<lparr>sub_retries := removeAll (ev_Rev ev) (sub_retries (the_sub a r))\<rparr>) r))"
| retry_acked: "\<not> sub_closed (the_sub a r) \<Longrightarrow> ev_Rev ev \<le> Cursor (ws_mgr r) (sub_id (the_sub a r)) \<Longrightarrow>
    thread_step a k (RetryWait ev) r (goto k Ended (upd_sub a
      ((the_sub a r)\<lparr>sub_retries := removeAll (ev_Rev ev) (sub_retries (the_sub a r))\<rparr>) r))"
| retry_push: "\<not> sub_closed (the_sub a r) \<Longrightarrow> \<not> ev_Rev ev \<le> Cursor (ws_mgr r) (sub_id (the_sub a r)) \<Longrightarrow>
    thread_step a k (RetryWait ev) r (goto k (Pushing ev Ended) (upd_sub a
      ((the_sub a r)\<lparr>sub_retries := removeAll (ev_Rev ev) (sub_retries (the_sub a r))\<rparr>) r))"

text \<open>
  A run of the subscription: its threads, the consumer taking events from the channel, peers
  being attached, acknowledgements, cancellations, and the store moving on by itself. The
  subscription's \<^verbatim>\<open>gen\<close> never changes, so the loop always closes the channel when it ends.
\<close>

inductive watch_step :: "nat \<Rightarrow> watch_run \<Rightarrow> watch_run \<Rightarrow> bool" for a where
  thread: "k < length (ws_threads r) \<Longrightarrow> thread_step a k (ws_threads r ! k) r r' \<Longrightarrow> watch_step a r r'"
| consume: "sub_ch (the_sub a r) = we # rest \<Longrightarrow>
    watch_step a r (upd_sub a ((the_sub a r)\<lparr>sub_ch := rest\<rparr>) r)"
| attach: "watch_step a r (r\<lparr>ws_mgr := Attach (ws_mgr r) i p\<rparr>)"
| ack: "watch_step a r (r\<lparr>ws_mgr := Ack (ws_mgr r) i rv\<rparr>)"
| cancel: "CancelWatch (ws_store r, ws_mgr r) i = Some ((s', w'), p) \<Longrightarrow>
    watch_step a r (r\<lparr>ws_store := s', ws_mgr := w'\<rparr>)"
| store_moves: "watch_step a r (r\<lparr>ws_store := s'\<rparr>)"

end
