(* ===== verification/WatchProps.thy ===== *)
theory WatchProps
  imports Watches StoreRuns
begin

text \<open>
  What a subscription without a peer sends: the reference function \<open>due\<close> over the replayed
  snapshot and the received events, and the invariant that connects the threads to it.
\<close>

section \<open>The events that are due\<close>

fun due :: "Key \<Rightarrow> Revision \<Rightarrow> Event list \<Rightarrow> Event list" where
  "due key c [] = []"
| "due key c (ev # evs) =
     (if ev_Rev ev \<le> c \<or> \<not> Match ev key then due key c evs else ev # due key (ev_Rev ev) evs)"

definition cursor_after :: "Key \<Rightarrow> Revision \<Rightarrow> Event list \<Rightarrow> Revision" where
  "cursor_after key c evs = (case due key c evs of [] \<Rightarrow> c | _ \<Rightarrow> ev_Rev (last (due key c evs)))"

lemma due_append:
  "due key c (xs @ ys) = due key c xs @ due key (cursor_after key c xs) ys"
proof (induction xs arbitrary: c)
  case Nil
  then show ?case by (simp add: cursor_after_def)
next
  case (Cons x xs)
  show ?case
  proof (cases "ev_Rev x \<le> c \<or> \<not> Match x key")
    case True
    then have "cursor_after key c (x # xs) = cursor_after key c xs"
      by (simp add: cursor_after_def split: list.split)
    with Cons.IH [of c] True show ?thesis by simp
  next
    case False
    then have "cursor_after key c (x # xs) = cursor_after key (ev_Rev x) xs"
      by (simp add: cursor_after_def split: list.split)
    with Cons.IH [of "ev_Rev x"] False show ?thesis by simp
  qed
qed

lemma due_snoc:
  "due key c (xs @ [e]) =
     (if ev_Rev e \<le> cursor_after key c xs \<or> \<not> Match e key then due key c xs else due key c xs @ [e])"
  by (simp add: due_append)

lemma cursor_after_snoc:
  "cursor_after key c (xs @ [e]) =
     (if ev_Rev e \<le> cursor_after key c xs \<or> \<not> Match e key then cursor_after key c xs else ev_Rev e)"
  by (simp add: cursor_after_def [of key c "xs @ [e]"] due_snoc split: list.split)
    (simp add: cursor_after_def)

text \<open>With increasing revisions the due events are the matching ones after the start.\<close>

lemma due_filter:
  "sorted_wrt (<) (map ev_Rev evs) \<Longrightarrow>
   due key c evs = filter (\<lambda>ev. c < ev_Rev ev \<and> Match ev key) evs"
proof (induction evs arbitrary: c)
  case (Cons ev evs)
  have sorted: "sorted_wrt (<) (map ev_Rev evs)" and above: "\<forall>x \<in> set evs. ev_Rev ev < ev_Rev x"
    using Cons.prems by auto
  show ?case
  proof (cases "c < ev_Rev ev \<and> Match ev key")
    case False
    then show ?thesis using Cons.IH [OF sorted, of c] by (auto simp: not_less)
  next
    case True
    have "filter (\<lambda>x. ev_Rev ev < ev_Rev x \<and> Match x key) evs =
        filter (\<lambda>x. c < ev_Rev x \<and> Match x key) evs"
      using above True by (intro filter_cong) (auto intro: less_trans)
    moreover have "\<not> ev_Rev ev \<le> c" using True by (simp add: not_le)
    ultimately show ?thesis using Cons.IH [OF sorted, of "ev_Rev ev"] True by simp
  qed
qed simp

lemma due_all_skipped: "\<forall>ev \<in> set evs. ev_Rev ev \<le> c \<Longrightarrow> due key c evs = []"
  by (induction evs) auto

section \<open>Snapshot rows\<close>

lemma live_entries_row:
  "e \<in> set (live_entries m) \<Longrightarrow> \<exists>k vv. (k, vv) \<in> set m \<and> ve_Rev e = vv_Rev vv"
proof (induction m rule: live_entries.induct)
  case (2 key vv rest)
  then consider "e \<in> set (live_entries rest)" "vv_Deleted vv" | "\<not> vv_Deleted vv" "ve_Rev e = vv_Rev vv"
    | "e \<in> set (live_entries rest)" "\<not> vv_Deleted vv" by (auto split: if_splits)
  then show ?case
  proof cases
    case 1
    with "2.IH"(1) show ?thesis by auto
  next
    case 2
    then show ?thesis by auto
  next
    case 3
    with "2.IH"(2) show ?thesis by auto
  qed
qed simp

lemma keys_snapshot_rows: "fst ` set (snapshot_rows b m) \<subseteq> fst ` set m"
  by (induction b m rule: snapshot_rows.induct) (auto split: option.splits)

lemma mwf_snapshot_rows: "mwf m \<Longrightarrow> mwf (snapshot_rows b m)"
proof (induction b m rule: snapshot_rows.induct)
  case (2 rv key vs rest)
  then have "mwf rest" and k: "key \<notin> fst ` set rest" by (simp_all add: mwf_def)
  with 2 have "mwf (snapshot_rows rv rest)" by (cases "snapshot_row rv vs") simp_all
  note this k
  moreover from k have "key \<notin> fst ` set (snapshot_rows rv rest)"
    using keys_snapshot_rows [of rv rest] by blast
  ultimately show ?case by (simp add: mwf_def split: option.split)
qed simp

lemma mwf_snapshot: "tracks h s \<Longrightarrow> mwf (snapshotLocked s b)"
proof -
  assume "tracks h s"
  then have "mwf (records s)" by (simp add: tracks_def records_ok_def)
  then show ?thesis by (simp add: snapshotLocked_def mwf_snapshot_rows)
qed

section \<open>The invariant of the delivery loop\<close>

definition entry_put :: "VersionedEntry \<Rightarrow> Event" where
  "entry_put e = NewPut (ve_Key e) (ve_Value e) (ve_Rev e)"

lemma entry_put_sel [simp]:
  "ev_Rev (entry_put e) = ve_Rev e" "ev_Key (entry_put e) = ve_Key e"
  by (simp_all add: entry_put_def)

lemma Match_entry: "Match (entry_put e) key \<longleftrightarrow> \<not> (key \<noteq> [] \<and> ve_Key e \<noteq> key)"
  by (auto simp: Match_def)

text \<open>The events a thread that will go on with \<open>t\<close> has seen of the snapshot and the stream.\<close>

definition seen :: "VersionedEntry list \<Rightarrow> thread \<Rightarrow> Event list \<Rightarrow> Event list \<Rightarrow> bool" where
  "seen snap t rcvd xs =
     (case t of
        ReplaySnapshot rest \<Rightarrow> rcvd = [] \<and> (\<exists>done0. snap = done0 @ rest \<and> xs = map entry_put done0)
      | Receiving \<Rightarrow> xs = map entry_put snap @ rcvd
      | _ \<Rightarrow> False)"

lemma seen_simps [simp]:
  "seen snap Receiving rcvd xs \<longleftrightarrow> xs = map entry_put snap @ rcvd"
  "\<not> seen snap (Pushing ev n) rcvd xs" "\<not> seen snap (Sending ev p n) rcvd xs"
  "\<not> seen snap (RetryWait ev) rcvd xs" "\<not> seen snap LoopExit rcvd xs" "\<not> seen snap Ended rcvd xs"
  by (simp_all add: seen_def)

definition loop_inv ::
  "Key \<Rightarrow> Revision \<Rightarrow> VersionedEntry list \<Rightarrow> thread \<Rightarrow> Event list \<Rightarrow> Event list \<Rightarrow> Revision \<Rightarrow> bool" where
  "loop_inv key start snap t rcvd sent cursor =
     (case t of
        Pushing ev next0 \<Rightarrow> (\<exists>xs. seen snap next0 rcvd (xs @ [ev]) \<and> sent = due key start xs
          \<and> cursor = cursor_after key start xs \<and> \<not> ev_Rev ev \<le> cursor \<and> Match ev key)
      | Sending ev p next0 \<Rightarrow> (\<exists>xs. seen snap next0 rcvd xs \<and> p = None
          \<and> sent @ [ev] = due key start xs \<and> cursor = cursor_after key start xs)
      | RetryWait ev \<Rightarrow> False
      | LoopExit \<Rightarrow> prefix sent (due key start (map entry_put snap @ rcvd))
      | Ended \<Rightarrow> prefix sent (due key start (map entry_put snap @ rcvd))
      | _ \<Rightarrow> (\<exists>xs. seen snap t rcvd xs \<and> sent = due key start xs
          \<and> cursor = cursor_after key start xs))"

lemma seen_prefix:
  "seen snap t rcvd xs \<Longrightarrow> prefix (due key start xs) (due key start (map entry_put snap @ rcvd))"
  by (auto simp: seen_def due_append prefix_def split: thread.splits)

lemma seen_not_ended: "seen snap t rcvd xs \<Longrightarrow> exit_from t = LoopExit"
  by (auto simp: exit_from_def)

lemma loop_inv_prefix:
  assumes "loop_inv key start snap t rcvd sent cursor"
  shows "prefix sent (due key start (map entry_put snap @ rcvd))"
proof -
  have mono: "prefix sent (due key start (map entry_put snap @ rcvd))"
    if "seen snap t' rcvd xs" "prefix sent (due key start xs)" for t' xs
    using seen_prefix [OF that(1), of key start] that(2) prefix_order.trans by blast
  show ?thesis
  proof (cases t)
    case (Pushing ev next0)
    then obtain xs where "seen snap next0 rcvd (xs @ [ev])" "sent = due key start xs"
      using assms by (auto simp: loop_inv_def)
    then show ?thesis using mono by (simp add: due_append)
  next
    case (Sending ev p next0)
    then obtain xs where "seen snap next0 rcvd xs" "sent @ [ev] = due key start xs"
      using assms by (auto simp: loop_inv_def)
    then show ?thesis using mono by (metis prefixI)
  qed (use assms mono in \<open>auto simp: loop_inv_def\<close>)
qed

definition sub_inv :: "nat \<Rightarrow> Key \<Rightarrow> Revision \<Rightarrow> VersionedEntry list \<Rightarrow> watch_run \<Rightarrow> bool" where
  "sub_inv a key start snap r \<longleftrightarrow> a < length (w_heap (ws_mgr r)) \<and> sub_key (the_sub a r) = key
     \<and> (sub_peer (the_sub a r) = None \<longrightarrow>
          (\<exists>t. ws_threads r = [t]
            \<and> loop_inv key start snap t (ws_got r) (map fst (ws_sent r)) (sub_cursor (the_sub a r))
            \<and> (\<forall>p \<in> set (ws_sent r). snd p)))"

lemma the_sub_simps [simp]:
  "the_sub a (r\<lparr>ws_store := x\<rparr>) = the_sub a r" "the_sub a (r\<lparr>ws_got := y\<rparr>) = the_sub a r"
  "the_sub a (r\<lparr>ws_sent := z\<rparr>) = the_sub a r" "the_sub a (r\<lparr>ws_threads := t\<rparr>) = the_sub a r"
  "the_sub a (goto k th r) = the_sub a r"
  by (simp_all add: the_sub_def goto_def)

lemma the_sub_upd [simp]: "a < length (w_heap (ws_mgr r)) \<Longrightarrow> the_sub a (upd_sub a sub r) = sub"
  by (simp add: the_sub_def upd_sub_def set_sub_def)

lemma upd_goto_sel [simp]:
  "ws_threads (upd_sub a sub r) = ws_threads r" "ws_got (upd_sub a sub r) = ws_got r"
  "ws_sent (upd_sub a sub r) = ws_sent r" "length (w_heap (ws_mgr (upd_sub a sub r))) = length (w_heap (ws_mgr r))"
  "ws_threads (goto k th r) = (ws_threads r)[k := th]" "ws_got (goto k th r) = ws_got r"
  "ws_sent (goto k th r) = ws_sent r" "ws_mgr (goto k th r) = ws_mgr r"
  "ws_store (goto k th r) = ws_store r" "ws_store (upd_sub a sub r) = ws_store r"
  by (simp_all add: upd_sub_def goto_def set_sub_def)

lemma nth_update: "a < length xs \<Longrightarrow> xs[b := x] ! a = (if b = a then x else xs ! a)"
  by (cases "b = a") simp_all

text \<open>A peer, once attached, stays; the key of a subscription never changes.\<close>

lemma scheduleRetry_sel:
  "scheduleRetry sub ev = (sub', new) \<Longrightarrow> sub_key sub' = sub_key sub \<and> sub_peer sub' = sub_peer sub
     \<and> sub_cursor sub' = sub_cursor sub"
  by (auto simp: scheduleRetry_def split: if_splits)

lemma Attach_sub:
  assumes "a < length (w_heap w)"
  shows "length (w_heap (Attach w i p)) = length (w_heap w)"
    and "sub_key (w_heap (Attach w i p) ! a) = sub_key (w_heap w ! a)"
    and "sub_peer (w_heap (Attach w i p) ! a) = None \<Longrightarrow> w_heap (Attach w i p) ! a = w_heap w ! a"
  using assms
  by (auto simp: Attach_def set_sub_def nth_update split: option.splits if_splits)

lemma Cancel_sub:
  assumes "CancelWatch (s, w) i = Some ((s', w'), p)" and "a < length (w_heap w)"
  shows "length (w_heap w') = length (w_heap w)"
    and "sub_key (w_heap w' ! a) = sub_key (w_heap w ! a)"
    and "sub_peer (w_heap w' ! a) = sub_peer (w_heap w ! a)"
    and "sub_cursor (w_heap w' ! a) = sub_cursor (w_heap w ! a)"
  using assms
  by (auto simp: CancelWatch_def set_sub_def Let_def nth_update split: option.splits if_splits
      Option.bind_splits)

lemma thread_step_frame:
  assumes "thread_step a k t r r'" and "a < length (w_heap (ws_mgr r))"
  shows "length (w_heap (ws_mgr r')) = length (w_heap (ws_mgr r))"
    and "sub_key (the_sub a r') = sub_key (the_sub a r)"
    and "sub_peer (the_sub a r') = sub_peer (the_sub a r)"
  using assms by (cases; auto simp: Let_def dest!: scheduleRetry_sel)+

text \<open>The steps of the loop, one at a time.\<close>

lemma loop_inv_snapshot_skip:
  assumes "loop_inv key start snap (ReplaySnapshot (entry # rest)) rcvd sent cursor"
    and "ve_Rev entry \<le> cursor \<or> \<not> Match (entry_put entry) key"
  shows "loop_inv key start snap (ReplaySnapshot rest) rcvd sent cursor"
proof -
  obtain done0 where "rcvd = []" "snap = (done0 @ [entry]) @ rest"
    "sent = due key start (map entry_put done0)"
    "cursor = cursor_after key start (map entry_put done0)"
    using assms(1) by (auto simp: loop_inv_def seen_def)
  then show ?thesis
    using assms(2) unfolding loop_inv_def seen_def
    by (auto simp: due_snoc cursor_after_snoc intro!: exI [of _ "map entry_put (done0 @ [entry])"]
        exI [of _ "done0 @ [entry]"])
qed

lemma loop_inv_snapshot_push:
  assumes "loop_inv key start snap (ReplaySnapshot (entry # rest)) rcvd sent cursor"
    and "\<not> ve_Rev entry \<le> cursor" "Match (entry_put entry) key"
  shows "loop_inv key start snap (Pushing (entry_put entry) (ReplaySnapshot rest)) rcvd sent cursor"
proof -
  obtain done0 where d: "rcvd = []" "snap = (done0 @ [entry]) @ rest"
    "sent = due key start (map entry_put done0)"
    "cursor = cursor_after key start (map entry_put done0)"
    using assms(1) by (auto simp: loop_inv_def seen_def)
  then have "seen snap (ReplaySnapshot rest) rcvd (map entry_put done0 @ [entry_put entry])"
    unfolding seen_def by (auto intro!: exI [of _ "done0 @ [entry]"])
  then show ?thesis using d assms(2,3) by (auto simp: loop_inv_def)
qed

lemma loop_inv_snapshot_done:
  "loop_inv key start snap (ReplaySnapshot []) rcvd sent cursor \<Longrightarrow>
   loop_inv key start snap Receiving rcvd sent cursor"
  by (auto simp: loop_inv_def seen_def)

lemma loop_inv_receive_skip:
  assumes "loop_inv key start snap Receiving rcvd sent cursor"
    and "ev_Rev ev \<le> cursor \<or> \<not> Match ev key"
  shows "loop_inv key start snap Receiving (rcvd @ [ev]) sent cursor"
  using assms due_snoc [of key start "map entry_put snap @ rcvd" ev]
    cursor_after_snoc [of key start "map entry_put snap @ rcvd" ev]
  by (auto simp: loop_inv_def)

lemma loop_inv_receive_push:
  assumes "loop_inv key start snap Receiving rcvd sent cursor"
    and "\<not> (ev_Rev ev \<le> cursor \<or> \<not> Match ev key)"
  shows "loop_inv key start snap (Pushing ev Receiving) (rcvd @ [ev]) sent cursor"
  using assms by (auto simp: loop_inv_def)

lemma loop_inv_receive_end:
  "loop_inv key start snap Receiving rcvd sent cursor \<Longrightarrow>
   loop_inv key start snap LoopExit rcvd sent cursor"
  by (auto simp: loop_inv_def)

lemma loop_inv_push_closed:
  assumes "loop_inv key start snap (Pushing ev next0) rcvd sent cursor"
  shows "loop_inv key start snap (exit_from next0) rcvd sent cursor"
proof -
  obtain xs where xs: "seen snap next0 rcvd (xs @ [ev])" "sent = due key start xs"
    using assms by (auto simp: loop_inv_def)
  have "prefix sent (due key start (xs @ [ev]))" by (simp add: xs(2) due_append)
  with seen_prefix [OF xs(1)] have "prefix sent (due key start (map entry_put snap @ rcvd))"
    using prefix_order.trans by blast
  with seen_not_ended [OF xs(1)] show ?thesis by (simp add: loop_inv_def)
qed

lemma loop_inv_push_enter:
  assumes "loop_inv key start snap (Pushing ev next0) rcvd sent cursor"
  shows "loop_inv key start snap (Sending ev None next0) rcvd sent (ev_Rev ev)"
proof -
  obtain xs where "seen snap next0 rcvd (xs @ [ev])" "sent = due key start xs"
    "cursor = cursor_after key start xs" "\<not> ev_Rev ev \<le> cursor" "Match ev key"
    using assms by (auto simp: loop_inv_def)
  then show ?thesis
    unfolding loop_inv_def by (auto simp: due_snoc cursor_after_snoc intro!: exI [of _ "xs @ [ev]"])
qed

lemma loop_inv_sent:
  assumes "loop_inv key start snap (Sending ev p next0) rcvd sent cursor"
  shows "loop_inv key start snap next0 rcvd (sent @ [ev]) cursor"
proof -
  obtain xs where xs: "seen snap next0 rcvd xs" "sent @ [ev] = due key start xs"
    "cursor = cursor_after key start xs"
    using assms by (auto simp: loop_inv_def)
  then show ?thesis unfolding loop_inv_def by (cases next0) auto
qed

lemma loop_inv_abandoned:
  assumes "loop_inv key start snap (Sending ev p next0) rcvd sent cursor"
  shows "loop_inv key start snap (exit_from next0) rcvd sent cursor"
proof -
  obtain xs where xs: "seen snap next0 rcvd xs" "sent @ [ev] = due key start xs"
    using assms by (auto simp: loop_inv_def)
  with seen_prefix [OF xs(1), of key start] have "prefix sent (due key start (map entry_put snap @ rcvd))"
    by (metis append_prefixD)
  with seen_not_ended [OF xs(1)] show ?thesis by (simp add: loop_inv_def)
qed

lemma thread_step_loop:
  assumes "thread_step a 0 t r r'" and "a < length (w_heap (ws_mgr r))"
    and "sub_peer (the_sub a r) = None" and "ws_threads r = [t]"
    and inv: "loop_inv (sub_key (the_sub a r)) start snap t (ws_got r) (map fst (ws_sent r))
      (sub_cursor (the_sub a r))"
    and "\<forall>p \<in> set (ws_sent r). snd p"
  shows "\<exists>t'. ws_threads r' = [t']
    \<and> loop_inv (sub_key (the_sub a r)) start snap t' (ws_got r') (map fst (ws_sent r')) (sub_cursor (the_sub a r'))
    \<and> (\<forall>p \<in> set (ws_sent r'). snd p)"
  using assms(1)
proof cases
  case (snapshot_push entry rest)
  then show ?thesis
    using assms loop_inv_snapshot_push [of _ start snap entry rest]
    by (simp add: Match_entry flip: entry_put_def)
next
  case (snapshot_skip_key entry rest)
  then show ?thesis
    using assms loop_inv_snapshot_skip [of _ start snap entry rest] by (simp add: Match_entry)
next
  case (snapshot_skip_rev entry rest)
  then show ?thesis
    using assms loop_inv_snapshot_skip [of _ start snap entry rest] by (simp add: Match_entry)
next
  case (peer_ok ev p next0)
  then show ?thesis using inv by (simp add: loop_inv_def)
next
  case (peer_error ev sub' new p next0)
  then show ?thesis using inv by (simp add: loop_inv_def)
next
  case (loop_exit)
  then show ?thesis using assms by (simp add: loop_inv_def)
next
  case snapshot_done
  then show ?thesis using assms loop_inv_snapshot_done by simp
next
  case (receive_skip s' ev)
  then show ?thesis using assms loop_inv_receive_skip by simp
next
  case (receive_push s' ev)
  then show ?thesis using assms loop_inv_receive_push by simp
next
  case (receive_closed s')
  then show ?thesis using assms loop_inv_receive_end by simp
next
  case context_done
  then show ?thesis using assms loop_inv_receive_end by simp
next
  case (push_closed ev next0)
  then show ?thesis using assms loop_inv_push_closed by simp
next
  case (push_enter ev next0)
  then show ?thesis using assms loop_inv_push_enter by simp
next
  case (channel_send ev next0)
  then show ?thesis using assms loop_inv_sent by simp
next
  case (send_abandoned ev next0)
  then show ?thesis using assms loop_inv_abandoned by simp
qed (use inv in \<open>simp_all add: loop_inv_def\<close>)

lemma thread_step_inv:
  assumes "thread_step a k t r r'" and inv: "sub_inv a key start snap r"
    and "k < length (ws_threads r)" and "ws_threads r ! k = t"
  shows "sub_inv a key start snap r'"
proof -
  have len: "a < length (w_heap (ws_mgr r))" and key: "sub_key (the_sub a r) = key"
    using inv by (simp_all add: sub_inv_def)
  note frame = thread_step_frame [OF assms(1) len]
  show ?thesis
  proof (cases "sub_peer (the_sub a r)")
    case (Some p)
    then show ?thesis using frame len key by (simp add: sub_inv_def)
  next
    case None
    then have "ws_threads r = [t]" "k = 0" "\<forall>p \<in> set (ws_sent r). snd p"
      "loop_inv key start snap t (ws_got r) (map fst (ws_sent r)) (sub_cursor (the_sub a r))"
      using inv assms(3,4) by (auto simp: sub_inv_def)
    then show ?thesis
      using thread_step_loop [of a t r r' start snap] assms(1) None len key frame
      by (simp add: sub_inv_def)
  qed
qed

lemma watch_step_inv:
  assumes "watch_step a r r'" and inv: "sub_inv a key start snap r"
  shows "sub_inv a key start snap r'"
  using assms(1)
proof cases
  case (thread k)
  show ?thesis by (rule thread_step_inv [OF thread(2) inv thread(1) refl])
next
  case (consume we rest)
  then show ?thesis using inv by (auto simp: sub_inv_def)
next
  case (attach i p)
  have len: "a < length (w_heap (ws_mgr r))" using inv by (simp add: sub_inv_def)
  note at = Attach_sub [OF len, of i p]
  show ?thesis
  proof (cases "sub_peer (w_heap (Attach (ws_mgr r) i p) ! a)")
    case None
    from at(3) [OF None] at(1) inv show ?thesis
      unfolding attach by (simp add: sub_inv_def the_sub_def)
  next
    case (Some p')
    with at(1,2) inv show ?thesis unfolding attach by (simp add: sub_inv_def the_sub_def)
  qed
next
  case (ack i rv)
  have "w_heap (Ack (ws_mgr r) i rv) = w_heap (ws_mgr r)" by (simp add: Ack_def)
  then show ?thesis using ack inv by (simp add: sub_inv_def the_sub_def)
next
  case (cancel i s' w' p)
  then show ?thesis
    using inv Cancel_sub [OF cancel(2), of a] by (auto simp: sub_inv_def the_sub_def)
next
  case (store_moves s')
  then show ?thesis using inv by (simp add: sub_inv_def)
qed

definition sub_start :: "nat \<Rightarrow> Key \<Rightarrow> Revision \<Rightarrow> VersionedEntry list \<Rightarrow> watch_run \<Rightarrow> bool" where
  "sub_start a key start snap r \<longleftrightarrow> a < length (w_heap (ws_mgr r)) \<and> sub_key (the_sub a r) = key
     \<and> sub_cursor (the_sub a r) = start \<and> ws_threads r = [ReplaySnapshot snap]
     \<and> ws_got r = [] \<and> ws_sent r = []"

interpretation watch_runs: invariant_system "sub_start a key start snap" "watch_step a" "sub_inv a key start snap"
  by (unfold_locales, force simp: sub_start_def sub_inv_def loop_inv_def seen_def cursor_after_def,
    rule watch_step_inv)

end
