(* ===== verification/WatchTheorems.thy ===== *)
theory WatchTheorems
  imports WatchProps StoreTheorems
begin

text \<open>
  The properties of watches: what is delivered, in which order, and the ways in which events are
  delivered twice, out of order or not at all.
\<close>

section \<open>Opening and delivering\<close>

text \<open>
  C11: without a peer, a subscription delivers, in any interleaving with its consumer, with
  acknowledgements, cancellations and writes, exactly the events that are due: its replayed
  snapshot and its stream in order, without those of other keys and those at or below the
  cursor. A loop that has caught up has delivered all of them, one that was stopped a prefix;
  and when the revisions increase the due events are the matching ones above the start revision.
\<close>

theorem watch_delivers_due_events:
  assumes "sub_start a key start snap r" and "(watch_step a)\<^sup>*\<^sup>* r r'"
    and "sub_peer (the_sub a r') = None"
  shows "prefix (map fst (ws_sent r')) (due key start (map entry_put snap @ ws_got r'))
    \<and> (ws_threads r' = [Receiving] \<longrightarrow>
         map fst (ws_sent r') = due key start (map entry_put snap @ ws_got r'))
    \<and> (sorted_wrt (<) (map ev_Rev (map entry_put snap @ ws_got r')) \<longrightarrow>
         due key start (map entry_put snap @ ws_got r') =
         filter (\<lambda>ev. start < ev_Rev ev \<and> Match ev key) (map entry_put snap @ ws_got r'))"
proof -
  have "sub_inv a key start snap r'" by (rule watch_runs.reachable_inv [OF assms(1,2)])
  then obtain t where t: "ws_threads r' = [t]"
    "loop_inv key start snap t (ws_got r') (map fst (ws_sent r')) (sub_cursor (the_sub a r'))"
    using assms(3) by (auto simp: sub_inv_def)
  have "prefix (map fst (ws_sent r')) (due key start (map entry_put snap @ ws_got r'))"
    using t(2) loop_inv_prefix by blast
  moreover have "map fst (ws_sent r') = due key start (map entry_put snap @ ws_got r')"
    if "ws_threads r' = [Receiving]"
    using t that by (auto simp: loop_inv_def)
  ultimately show ?thesis using due_filter by blast
qed

definition watched16 :: "Store \<times> Watcher" where
  "watched16 = (case Watch (New 16, NewWatcher) [] 0 of Some (sw, _) \<Rightarrow> sw | None \<Rightarrow> (New 16, NewWatcher))"

definition put16 :: Store where
  "put16 = (case Put (fst watched16) ''k'' (Some ''v'') of Some (s, _) \<Rightarrow> s | None \<Rightarrow> fst watched16)"

definition run16 :: watch_run where
  "run16 = \<lparr>ws_store = put16, ws_mgr = snd watched16, ws_threads = [ReplaySnapshot []],
            ws_got = [], ws_sent = []\<rparr>"

lemma run16_sel [simp]:
  "ws_store run16 = put16" "ws_threads run16 = [ReplaySnapshot []]" "ws_got run16 = []" "ws_sent run16 = []"
  by (simp_all add: run16_def)

lemma run16_facts:
  "length (w_heap (ws_mgr run16)) = 1" "sub_key (the_sub 0 run16) = []" "sub_cursor (the_sub 0 run16) = 0"
  "sub_closed (the_sub 0 run16) = False" "sub_peer (the_sub 0 run16) = None"
  "map_option snd (stream_recv put16 (sub_stream (the_sub 0 run16))) =
     Some (Received (NewPut ''k'' (Some ''v'') 1))"
  by code_simp+

theorem watch_delivers_due_events_witness:
  "\<exists>r'. (watch_step 0)\<^sup>*\<^sup>* run16 r' \<and> ws_got r' = [NewPut ''k'' (Some ''v'') 1]
    \<and> prefix (map fst (ws_sent r')) (due [] 0 [NewPut ''k'' (Some ''v'') 1])"
proof -
  obtain s' where s': "stream_recv put16 (sub_stream (the_sub 0 run16)) =
      Some (s', Received (NewPut ''k'' (Some ''v'') 1))"
    using run16_facts(6) by auto
  let ?ev = "NewPut ''k'' (Some ''v'') 1"
  let ?r1 = "goto 0 Receiving run16"
  let ?r2 = "goto 0 (Pushing ?ev Receiving) (?r1\<lparr>ws_store := s', ws_got := ws_got ?r1 @ [?ev]\<rparr>)"
  have 1: "watch_step 0 run16 ?r1"
    by (rule watch_step.thread [of 0]) (simp_all add: snapshot_done)
  have "thread_step 0 0 Receiving ?r1 ?r2"
    by (rule receive_push) (use s' run16_facts in \<open>simp_all add: Match_def\<close>)
  then have "watch_step 0 ?r1 ?r2"
    by (intro watch_step.thread [of 0]) simp_all
  then have run: "(watch_step 0)\<^sup>*\<^sup>* run16 ?r2"
    by (intro converse_rtranclp_into_rtranclp [of "watch_step 0", OF 1] r_into_rtranclp)
  have start: "sub_start 0 [] 0 [] run16"
    using run16_facts by (simp add: sub_start_def)
  have "sub_peer (the_sub 0 ?r2) = None" using run16_facts(5) by simp
  from watch_delivers_due_events [OF start run this] run show ?thesis
    by (intro exI [of _ ?r2]) simp
qed

text \<open>
  A watch that starts inside the log window, or at or past the newest revision, gets a
  stream with the events after its start revision and no replayed row at all: every row of the
  snapshot is at or below the cursor, so a key's current value is not delivered, although the
  documentation of \<^verbatim>\<open>Watch\<close> promises a snapshot of the events up to the start revision.
\<close>

theorem watch_never_replays_snapshot:
  assumes "tracks h s" and "head s \<le> startRev \<or> logStart s \<le> startRev"
    and "length h \<le> unat startRev + streamBuffer"
  shows "\<exists>s' w' sub. Watch (s, w) key startRev = Some ((s', w'), Inr (''watch-'' @ itoa (w_nextID w + 1)))
    \<and> tracks h s' \<and> w_heap w' = w_heap w @ [sub] \<and> sub_key sub = key \<and> sub_cursor sub = startRev
    \<and> (\<forall>st. map_of (streamHeap s') (sub_stream sub) = Some st \<longrightarrow> st_Ch st = drop (unat startRev) h)
    \<and> map_of (streamHeap s') (sub_stream sub) \<noteq> None
    \<and> due key startRev (map entry_put (sub_snapshot sub)) = []"
proof -
  have len: "unat (head s) = length h" using assms(1) by (simp add: tracks_def)
  let ?i = "nextStream s + 1"
  have rows: "due key startRev (map entry_put (snapshotEntries (snapshotLocked s b))) = []"
    if "b \<le> startRev" for b
  proof (rule due_all_skipped, clarsimp simp: snapshotEntries_def)
    fix e assume "e \<in> set (live_entries (snapshotLocked s b))"
    then obtain k vv where kv: "(k, vv) \<in> set (snapshotLocked s b)" "ve_Rev e = vv_Rev vv"
      by (auto dest: live_entries_row)
    have "mwf (snapshotLocked s b)" using assms(1) by (rule mwf_snapshot)
    with kv(1) have "map_of (snapshotLocked s b) k = Some vv" by (simp add: mwf_in_iff)
    from snapshot_row_le [OF assms(1) this] that kv(2) show "ve_Rev e \<le> startRev" by simp
  qed
  show ?thesis
  proof (cases "head s \<le> startRev")
    case True
    obtain s' where "OpenLiveStream s = (s', ?i)" "tracks h s'"
      "map_of (streamHeap s') ?i = Some (fresh_stream s (head s) [])"
      using OpenLiveStream_tracks [OF assms(1)] by auto
    moreover have "drop (unat startRev) h = []" using True len by (simp add: word_le_nat_alt)
    ultimately show ?thesis
      using True rows [OF True]
      by (simp add: Watch_def Watch_at_def CurrentRev_def Let_def fresh_stream_def)
  next
    case False
    then have le: "startRev \<le> head s" and win: "logStart s \<le> startRev" using assms(2) by auto
    have evs: "stream_events h s startRev = drop (unat startRev) h"
      and start: "stream_start s startRev = startRev"
      using win stream_start_cases [OF assms(1) le] by (simp_all add: stream_events_def)
    have "length (stream_events h s startRev) \<le> streamBuffer" using assms(3) by (simp add: evs)
    from OpenStream_opens [OF assms(1) le this] obtain s' where
      "OpenStream s startRev = Some (s', Inr ?i)" "tracks h s'"
      "map_of (streamHeap s') ?i = Some (fresh_stream s startRev (drop (unat startRev) h))"
      by (auto simp: evs start)
    then show ?thesis
      using False rows [OF order_refl]
      by (simp add: Watch_def Watch_at_def CurrentRev_def Let_def fresh_stream_def)
  qed
qed

theorem watch_never_replays_snapshot_witness:
  "\<exists>s' w' i. Watch (fill 3 (New 16), NewWatcher) ''k'' 3 = Some ((s', w'), Inr i)
    \<and> due ''k'' 3 (map entry_put (sub_snapshot (w_heap w' ! 0))) = []
    \<and> Get (fill 3 (New 16)) ''k'' \<noteq> None"
proof -
  obtain h where h: "tracks h (fill 3 (New 16))" "length h = 3"
    using fill_tracks [OF tracks_New16, of 3] by auto
  have "head (fill 3 (New 16)) = 3" "Get (fill 3 (New 16)) ''k'' = Some (Some ''v'', 3)" by code_simp+
  with watch_never_replays_snapshot [OF h(1), of 3 NewWatcher "''k''"] h(2) show ?thesis
    by (auto simp: NewWatcher_def)
qed

section \<open>Retries\<close>

text \<open>
  A retry delivers out of order and moves the cursor back: when a send failed and a later
  event has been delivered since, the retry goroutine can deliver the older event after it, and
  the subscription's cursor falls to the older revision.
\<close>

theorem retry_moves_cursor_back:
  assumes "a < length (w_heap (ws_mgr r))" and "k < length (ws_threads r)"
    and "ws_threads r ! k = RetryWait ev" and "sub_peer (the_sub a r) = Some p"
    and "\<not> sub_closed (the_sub a r)" and "Cursor (ws_mgr r) (sub_id (the_sub a r)) < ev_Rev ev"
    and "ev_Rev ev < sub_cursor (the_sub a r)"
  shows "\<exists>r'. (watch_step a)\<^sup>*\<^sup>* r r' \<and> ws_sent r' = ws_sent r @ [(ev, True)]
    \<and> sub_cursor (the_sub a r') < sub_cursor (the_sub a r)
    \<and> ws_threads r' = (ws_threads r)[k := Ended]"
proof -
  let ?sub = "(the_sub a r)\<lparr>sub_retries := removeAll (ev_Rev ev) (sub_retries (the_sub a r))\<rparr>"
  let ?r1 = "goto k (Pushing ev Ended) (upd_sub a ?sub r)"
  let ?r2 = "goto k (Sending ev (Some p) Ended) (upd_sub a (?sub\<lparr>sub_cursor := ev_Rev ev\<rparr>) ?r1)"
  let ?r3 = "goto k Ended (?r2\<lparr>ws_sent := ws_sent ?r2 @ [(ev, True)]\<rparr>)"
  have "thread_step a k (RetryWait ev) r ?r1"
    by (rule retry_push) (use assms(5,6) in simp_all)
  then have 1: "watch_step a r ?r1" using assms(2,3) by (intro watch_step.thread [of k]) simp_all
  have sub1: "the_sub a ?r1 = ?sub" using assms(1) by simp
  have "thread_step a k (Pushing ev Ended) ?r1 ?r2"
    using push_enter [of a ?r1 k ev Ended] assms(4,5) unfolding sub1 by simp
  then have 2: "watch_step a ?r1 ?r2" using assms(2) by (intro watch_step.thread [of k]) simp_all
  have "thread_step a k (Sending ev (Some p) Ended) ?r2 ?r3" by (rule peer_ok)
  then have 3: "watch_step a ?r2 ?r3" using assms(2) by (intro watch_step.thread [of k]) simp_all
  have "(watch_step a)\<^sup>*\<^sup>* r ?r3"
    by (rule converse_rtranclp_into_rtranclp [of "watch_step a", OF 1
          converse_rtranclp_into_rtranclp [of "watch_step a", OF 2 r_into_rtranclp [of "watch_step a", OF 3]]])
  then show ?thesis
    using assms(1,7) by (intro exI [of _ ?r3]) simp
qed

definition retry16 :: watch_run where
  "retry16 =
     (let w = Attach (snd watched16) ''watch-1'' 7;
          sub = (w_heap w ! 0)\<lparr>sub_cursor := 2, sub_retries := [1]\<rparr>
      in \<lparr>ws_store = put16, ws_mgr = set_sub w 0 sub,
          ws_threads = [Receiving, RetryWait (NewPut ''k'' (Some ''v'') 1)],
          ws_got = [NewPut ''k'' (Some ''v'') 1, NewPut ''j'' (Some ''w'') 2],
          ws_sent = [(NewPut ''k'' (Some ''v'') 1, False), (NewPut ''j'' (Some ''w'') 2, True)]\<rparr>)"

lemma retry16_facts:
  "length (w_heap (ws_mgr retry16)) = 1" "sub_peer (the_sub 0 retry16) = Some 7"
  "sub_closed (the_sub 0 retry16) = False" "sub_cursor (the_sub 0 retry16) = 2"
  "Cursor (ws_mgr retry16) (sub_id (the_sub 0 retry16)) = 0" "sub_id (the_sub 0 retry16) = ''watch-1''"
  by code_simp+

lemma retry16_threads: "ws_threads retry16 = [Receiving, RetryWait (NewPut ''k'' (Some ''v'') 1)]"
  by (simp add: retry16_def Let_def)

theorem retry_moves_cursor_back_witness:
  "\<exists>r'. (watch_step 0)\<^sup>*\<^sup>* retry16 r' \<and> map (ev_Rev \<circ> fst) (ws_sent r') = [1, 2, 1]
    \<and> sub_cursor (the_sub 0 r') < 2"
proof -
  have "ws_threads retry16 ! 1 = RetryWait (NewPut ''k'' (Some ''v'') 1)" by (simp add: retry16_threads)
  from retry_moves_cursor_back [of 0 retry16 1, OF _ _ this retry16_facts(2)]
  obtain r' where "(watch_step 0)\<^sup>*\<^sup>* retry16 r'"
    "ws_sent r' = ws_sent retry16 @ [(NewPut ''k'' (Some ''v'') 1, True)]"
    "sub_cursor (the_sub 0 r') < sub_cursor (the_sub 0 retry16)"
    using retry16_facts by (auto simp: retry16_threads)
  then show ?thesis by (intro exI [of _ r']) (simp add: retry16_facts, simp add: retry16_def Let_def)
qed

text \<open>
  Acknowledging a later event loses a failed one. Once a revision at or above the failed
  event's is acknowledged, whatever step its retry goroutine takes ends it without sending.
\<close>

theorem acknowledged_failure_is_dropped:
  assumes "ev_Rev ev \<le> rv" and "k < length (ws_threads r)"
    and "thread_step a k (RetryWait ev) (r\<lparr>ws_mgr := Ack (ws_mgr r) (sub_id (the_sub a r)) rv\<rparr>) r'"
  shows "ws_threads r' ! k = Ended \<and> ws_sent r' = ws_sent r"
proof -
  let ?r = "r\<lparr>ws_mgr := Ack (ws_mgr r) (sub_id (the_sub a r)) rv\<rparr>"
  have same: "the_sub a ?r = the_sub a r" by (simp add: the_sub_def Ack_def)
  have "rv \<le> Cursor (ws_mgr ?r) (sub_id (the_sub a ?r))"
    by (simp add: same) (auto simp: Ack_def Cursor_def not_less)
  then have "ev_Rev ev \<le> Cursor (ws_mgr ?r) (sub_id (the_sub a ?r))" using assms(1) by simp
  with assms(3) show ?thesis
    by cases (use assms(2) in auto)
qed

theorem acknowledged_failure_is_dropped_witness:
  "\<exists>r'. thread_step 0 1 (RetryWait (NewPut ''k'' (Some ''v'') 1))
      (retry16\<lparr>ws_mgr := Ack (ws_mgr retry16) ''watch-1'' 2\<rparr>) r'
    \<and> ws_threads r' ! 1 = Ended"
proof -
  let ?ev = "NewPut ''k'' (Some ''v'') 1"
  let ?r = "retry16\<lparr>ws_mgr := Ack (ws_mgr retry16) ''watch-1'' 2\<rparr>"
  have step: "thread_step 0 1 (RetryWait ?ev) ?r (goto 1 Ended ?r)" by (rule retry_stopped)
  have "ev_Rev ?ev \<le> (2 :: Revision)" by simp
  from acknowledged_failure_is_dropped [OF this, of 1 retry16 0 "goto 1 Ended ?r"] step
  show ?thesis by (auto simp: retry16_facts retry16_threads)
qed

end
