(* ===== verification/WatchEnds.thy ===== *)
theory WatchEnds
  imports WatchTheorems
begin

text \<open>
  The end of a subscription: how many steps the goroutines of a cancelled watch can still make, by
  a measure that every step decreases, and what is left when no step is possible.
\<close>

section \<open>The work that is left\<close>

text \<open>The steps that a goroutine still has before it, besides the events that are buffered.\<close>

fun thread_work :: "thread \<Rightarrow> nat" where
  "thread_work Ended = 0"
| "thread_work LoopExit = 1"
| "thread_work (RetryWait ev) = 1"
| "thread_work Receiving = 2"
| "thread_work (ReplaySnapshot es) = 3 + 3 * length es"
| "thread_work (Sending ev p next0) = thread_work next0 + 1"
| "thread_work (Pushing ev next0) = thread_work next0 + 2"

definition stream_of :: "nat \<Rightarrow> watch_run \<Rightarrow> Stream option" where
  "stream_of a r = map_of (streamHeap (ws_store r)) (sub_stream (the_sub a r))"

definition buffered :: "nat \<Rightarrow> watch_run \<Rightarrow> nat" where
  "buffered a r = (case stream_of a r of None \<Rightarrow> 0 | Some st \<Rightarrow> length (st_Ch st))"

definition work_left :: "nat \<Rightarrow> watch_run \<Rightarrow> nat" where
  "work_left a r = sum_list (map thread_work (ws_threads r)) + 3 * buffered a r"

definition threads_move :: "nat \<Rightarrow> watch_run \<Rightarrow> watch_run \<Rightarrow> bool" where
  "threads_move a r r' \<longleftrightarrow> (\<exists>k < length (ws_threads r). thread_step a k (ws_threads r ! k) r r')"

text \<open>The delivery loop, wherever it is; the loop closes the channel when it ends.\<close>

fun in_loop :: "thread \<Rightarrow> bool" where
  "in_loop (Sending ev p next0) = (next0 \<noteq> Ended)"
| "in_loop (Pushing ev next0) = (next0 \<noteq> Ended)"
| "in_loop (RetryWait ev) = False"
| "in_loop Ended = False"
| "in_loop _ = True"

definition loops :: "nat \<Rightarrow> watch_run \<Rightarrow> nat" where
  "loops a r = sum_list (map (of_bool \<circ> in_loop) (ws_threads r)) + of_bool (sub_chClosed (the_sub a r))"

text \<open>A cancelled subscription whose stream is closed, and which has one delivery loop.\<close>

definition shut :: "nat \<Rightarrow> watch_run \<Rightarrow> bool" where
  "shut a r \<longleftrightarrow> a < length (w_heap (ws_mgr r)) \<and> sub_closed (the_sub a r) \<and> loops a r \<le> 1
     \<and> (\<exists>st. stream_of a r = Some st \<and> st_ChClosed st)"

section \<open>Every step decreases it\<close>

lemma sum_update:
  fixes f :: "'a \<Rightarrow> nat"
  shows "k < length ts \<Longrightarrow> sum_list (map f (ts[k := t])) + f (ts ! k) = sum_list (map f ts) + f t"
  by (induction ts arbitrary: k) (auto split: nat.split simp: nth_Cons)

lemma exit_work: "thread_work (exit_from next0) \<le> thread_work next0"
  by (cases next0) (simp_all add: exit_from_def)

lemma in_loop_exit: "in_loop (exit_from next0) \<longleftrightarrow> next0 \<noteq> Ended"
  by (simp add: exit_from_def)

lemma in_loop_next: "in_loop next0 \<Longrightarrow> next0 \<noteq> Ended"
  by auto

text \<open>What a step that replaces thread \<open>k\<close> has to keep, with the buffer and the channel as they are after it.\<close>

lemma still_shut:
  assumes "shut a r" and "k < length (ws_threads r)" and "ws_threads r' = (ws_threads r)[k := t]"
    and "length (w_heap (ws_mgr r')) = length (w_heap (ws_mgr r))"
    and "sub_closed (the_sub a r') = sub_closed (the_sub a r)"
    and "of_bool (in_loop t) + of_bool (sub_chClosed (the_sub a r')) \<le>
      of_bool (in_loop (ws_threads r ! k)) + (of_bool (sub_chClosed (the_sub a r)) :: nat)"
    and "stream_of a r' = Some st" and "st_ChClosed st"
    and "thread_work t + 3 * length (st_Ch st) < thread_work (ws_threads r ! k) + 3 * buffered a r"
  shows "work_left a r' < work_left a r \<and> shut a r'"
proof -
  note sums = sum_update [OF assms(2), of thread_work t] sum_update [OF assms(2), of "of_bool \<circ> in_loop" t]
  have "loops a r' \<le> loops a r" using sums(2) assms(3,6) by (simp add: loops_def)
  moreover have "work_left a r' < work_left a r"
    using sums(1) assms(3,7,9) by (simp add: work_left_def buffered_def [of a r'])
  ultimately show ?thesis using assms(1,4,5,7,8) by (auto simp: shut_def)
qed

lemma still_streaming:
  "sub_stream (the_sub a r') = sub_stream (the_sub a r) \<Longrightarrow> streamHeap (ws_store r') = streamHeap (ws_store r) \<Longrightarrow>
   stream_of a r' = stream_of a r"
  by (simp add: stream_of_def)

text \<open>Receiving takes one event from the buffer, or ends.\<close>

lemma shut_recv:
  assumes "stream_of a r = Some st" and "st_ChClosed st"
  shows "\<exists>s' out. stream_recv (ws_store r) (sub_stream (the_sub a r)) = Some (s', out) \<and> out \<noteq> WouldBlock
    \<and> (\<forall>ev. out = Received ev \<longrightarrow> (\<exists>evs. st_Ch st = ev # evs
        \<and> map_of (streamHeap s') (sub_stream (the_sub a r)) = Some (st\<lparr>st_Ch := evs\<rparr>)))"
  using assms by (cases "st_Ch st") (auto simp: stream_recv_def stream_of_def set_stream_def)

lemma thread_step_work:
  assumes step: "thread_step a k t r r'" and k: "k < length (ws_threads r)" "ws_threads r ! k = t" and shut: "shut a r"
  shows "work_left a r' < work_left a r \<and> shut a r'"
proof -
  obtain st where closed: "sub_closed (the_sub a r)" "a < length (w_heap (ws_mgr r))"
    and st: "stream_of a r = Some st" "st_ChClosed st"
    using shut by (auto simp: shut_def)
  have buf: "buffered a r = length (st_Ch st)" using st(1) by (simp add: buffered_def)
  note still = still_shut [OF shut k(1)]
  have stay: "work_left a r' < work_left a r \<and> shut a r'"
    if "ws_threads r' = (ws_threads r)[k := u]" "length (w_heap (ws_mgr r')) = length (w_heap (ws_mgr r))"
      "sub_closed (the_sub a r') = sub_closed (the_sub a r)"
      "sub_stream (the_sub a r') = sub_stream (the_sub a r)" "ws_store r' = ws_store r"
      "of_bool (in_loop u) + of_bool (sub_chClosed (the_sub a r')) \<le> of_bool (in_loop t) + (of_bool (sub_chClosed (the_sub a r)) :: nat)"
      "thread_work u < thread_work t" for u
  proof (rule still [OF that(1-3), of st])
    show "stream_of a r' = Some st" "st_ChClosed st" using that(4,5) st by (simp_all add: stream_of_def)
  qed (use that(6,7) k(2) buf in simp_all)
  show ?thesis using step
  proof cases
    case (receive_skip s' ev)
    with shut_recv [OF st] obtain evs where evs: "st_Ch st = ev # evs"
      "map_of (streamHeap s') (sub_stream (the_sub a r)) = Some (st\<lparr>st_Ch := evs\<rparr>)" by auto
    show ?thesis
      by (rule still [of _ Receiving "st\<lparr>st_Ch := evs\<rparr>"])
        (use receive_skip evs st k buf list_update_id [of "ws_threads r" k] in \<open>auto simp: stream_of_def\<close>)
  next
    case (receive_push s' ev)
    with shut_recv [OF st] obtain evs where evs: "st_Ch st = ev # evs"
      "map_of (streamHeap s') (sub_stream (the_sub a r)) = Some (st\<lparr>st_Ch := evs\<rparr>)" by auto
    show ?thesis
      by (rule still [of _ "Pushing ev Receiving" "st\<lparr>st_Ch := evs\<rparr>"])
        (use receive_push evs st k buf in \<open>auto simp: stream_of_def\<close>)
  next
    case (push_closed ev next0)
    then show ?thesis using exit_work [of next0] by (intro stay [of "exit_from next0"]) (simp_all add: in_loop_exit)
  next
    case (push_enter ev next0)
    then show ?thesis using closed by simp
  next
    case (peer_ok ev p next0)
    then show ?thesis using in_loop_next [of next0] by (intro stay [of next0]) auto
  next
    case (peer_error ev sub' new p next0)
    then have "new = []" "sub' = the_sub a r" using closed by (auto simp: scheduleRetry_def)
    with peer_error closed(2) show ?thesis using in_loop_next [of next0] by (intro stay [of next0]) (auto simp: Let_def)
  next
    case (channel_send ev next0)
    then show ?thesis using in_loop_next [of next0] closed(2) by (intro stay [of next0]) auto
  next
    case (send_abandoned ev next0)
    then show ?thesis using exit_work [of next0] by (intro stay [of "exit_from next0"]) (simp_all add: in_loop_exit)
  next
    case (snapshot_push entry rest)
    then show ?thesis
      by (intro stay [of "Pushing (NewPut (ve_Key entry) (ve_Value entry) (ve_Rev entry)) (ReplaySnapshot rest)"]) auto
  next
    case (snapshot_skip_key entry rest)
    then show ?thesis by (intro stay [of "ReplaySnapshot rest"]) auto
  next
    case (snapshot_skip_rev entry rest)
    then show ?thesis by (intro stay [of "ReplaySnapshot rest"]) auto
  next
    case snapshot_done
    then show ?thesis by (intro stay [of Receiving]) auto
  next
    case (receive_closed s')
    then show ?thesis by (intro stay [of LoopExit]) auto
  next
    case context_done
    then show ?thesis by (intro stay [of LoopExit]) auto
  next
    case loop_exit
    then show ?thesis using closed(2) by (intro stay [of Ended]) auto
  next
    case (retry_stopped ev)
    then show ?thesis by (intro stay [of Ended]) auto
  next
    case (retry_closed ev)
    then show ?thesis using closed(2) by (intro stay [of Ended]) auto
  qed (use closed in auto)
qed

section \<open>Cancelling\<close>

lemma Stream_Close_shuts:
  assumes "map_of (streamHeap s) i = Some st" and "\<not> st_closed st" and "i \<in> set (streams s)"
    and "Stream_Close s i = Some s'"
  shows "\<exists>st'. map_of (streamHeap s') i = Some st' \<and> st_ChClosed st' \<and> st_Ch st' = st_Ch st"
  using assms by (auto simp: Stream_Close_def set_stream_def unregister_def Let_def split: if_splits)

lemma CancelWatch_shuts:
  assumes "map_of (w_subs (ws_mgr r)) i = Some a" and "a < length (w_heap (ws_mgr r))" and "loops a r \<le> 1"
    and "stream_of a r = Some st" and "\<not> st_closed st" and "sub_stream (the_sub a r) \<in> set (streams (ws_store r))"
    and "CancelWatch (ws_store r, ws_mgr r) i = Some ((s', w'), p)"
  shows "shut a (r\<lparr>ws_store := s', ws_mgr := w'\<rparr>) \<and> work_left a (r\<lparr>ws_store := s', ws_mgr := w'\<rparr>) = work_left a r"
proof -
  let ?sub = "the_sub a r"
  have close: "Stream_Close (ws_store r) (sub_stream ?sub) = Some s'"
    and w': "w_heap w' = (w_heap (ws_mgr r))[a := ?sub\<lparr>sub_closed := True, sub_doneClosed := True\<rparr>]"
    using assms(1,7) by (auto simp: CancelWatch_def Let_def set_sub_def the_sub_def split: Option.bind_splits if_splits)
  from Stream_Close_shuts [OF _ assms(5,6) close] assms(4)
  obtain st' where st': "map_of (streamHeap s') (sub_stream ?sub) = Some st'" "st_ChClosed st'" "st_Ch st' = st_Ch st"
    by (auto simp: stream_of_def)
  have sub: "the_sub a (r\<lparr>ws_store := s', ws_mgr := w'\<rparr>) = ?sub\<lparr>sub_closed := True, sub_doneClosed := True\<rparr>"
    using assms(2) w' by (simp add: the_sub_def)
  show ?thesis using st' assms(2-4) w' sub
    by (simp add: shut_def work_left_def buffered_def stream_of_def loops_def)
qed

text \<open>A goroutine that can make no step has returned.\<close>

lemma stuck_ended:
  assumes "shut a r" and "k < length (ws_threads r)" and "\<nexists>r'. thread_step a k (ws_threads r ! k) r r'"
  shows "ws_threads r ! k = Ended"
proof -
  have "(of_bool \<circ> in_loop) (ws_threads r ! k) \<le> (sum_list (map (of_bool \<circ> in_loop) (ws_threads r)) :: nat)"
    using elem_le_sum_list [of k "map (of_bool \<circ> in_loop) (ws_threads r) :: nat list"] assms(2) by simp
  then have one: "of_bool (in_loop (ws_threads r ! k)) + of_bool (sub_chClosed (the_sub a r)) \<le> (1 :: nat)"
    using assms(1) by (simp add: shut_def loops_def del: One_nat_def)
  show ?thesis
  proof (cases "ws_threads r ! k")
    case (ReplaySnapshot es)
    moreover have "\<exists>r'. thread_step a k (ReplaySnapshot es) r r'"
      by (cases es) (blast intro: snapshot_skip_key snapshot_skip_rev snapshot_push snapshot_done)+
    ultimately show ?thesis using assms(3) by simp
  next
    case (Sending ev p next0)
    with assms(3) show ?thesis by (cases p) (auto intro: peer_ok send_abandoned)
  next
    case LoopExit
    with one have "\<not> sub_chClosed (the_sub a r)" by simp
    with assms(3) LoopExit show ?thesis by (auto intro: loop_exit)
  qed (use assms(3) in \<open>auto intro: context_done push_closed push_enter retry_stopped\<close>)
qed

lemma moves_work:
  "(threads_move a ^^ n) r r' \<Longrightarrow> shut a r \<Longrightarrow> n + work_left a r' \<le> work_left a r \<and> shut a r'"
proof (induction n arbitrary: r')
  case (Suc n)
  then obtain q where q: "(threads_move a ^^ n) r q" "threads_move a q r'" by auto
  then obtain k where k: "k < length (ws_threads q)" "thread_step a k (ws_threads q ! k) q r'"
    by (auto simp: threads_move_def)
  note before = Suc.IH [OF q(1) Suc.prems(2)]
  with thread_step_work [OF k(2,1) refl] show ?case by simp
qed simp


lemma run16_cancel:
  "map_of (w_subs (ws_mgr run16)) ''watch-1'' = Some 0" "loops 0 run16 = 1" "work_left 0 run16 = 6"
  "map_option st_closed (stream_of 0 run16) = Some False" "sub_stream (the_sub 0 run16) \<in> set (streams put16)"
  "CancelWatch (put16, ws_mgr run16) ''watch-1'' \<noteq> None"
  by code_simp+


end
