(* ===== verification/Sessions.thy ===== *)
theory Sessions
  imports Expiry Watches
begin

text \<open>
  Client sessions (\<^verbatim>\<open>internal/session\<close>). The session manager holds pointers to the lease
  manager, the watcher and the store; \<open>services\<close> is the state that all of them can reach. The
  manager's mutex is held only in parts of an operation, and those parts are definitions of
  their own. Sessions are never removed from the map or replaced in it, so a pointer to a
  session is its entry in the map. A channel handed out by \<^verbatim>\<open>Watch\<close> is named by the address of
  its subscription.
\<close>

section \<open>State\<close>

datatype SessionError = ErrNoSession

record Session =
  s_ID :: SessionID
  s_State :: SessionState
  s_LeaseIDs :: "LeaseID list"
  s_Watches :: "(WatchID, Revision) gomap"
  s_Keys :: "(WatchID, Key) gomap"
  s_Chans :: "(WatchID, nat) gomap"
  s_LastSeen :: Time

record SessionMgr =
  sessions :: "(SessionID, Session) gomap"
  staleAfter :: Duration

definition NewSessionMgr :: "Duration \<Rightarrow> SessionMgr" where
  "NewSessionMgr d = \<lparr>sessions = [], staleAfter = d\<rparr>"

text \<open>\<open>sv_closed\<close> lists the calls of \<^verbatim>\<open>Close\<close> on delivery peers.\<close>

record services =
  sv_mgr :: SessionMgr
  sv_leases :: LeaseMgr
  sv_locks :: LockMgr
  sv_store :: Store
  sv_watcher :: Watcher
  sv_closed :: "(nat \<times> WatchID) list"

definition put_session :: "SessionMgr \<Rightarrow> SessionID \<Rightarrow> Session \<Rightarrow> SessionMgr" where
  "put_session m i sess = m\<lparr>sessions := mput i sess (sessions m)\<rparr>"

section \<open>Connecting, liveness and leases\<close>

definition Connect :: "Time \<Rightarrow> SessionMgr \<Rightarrow> SessionID \<Rightarrow> SessionMgr \<times> SessionError option" where
  "Connect now m i =
     (case map_of (sessions m) i of
        Some _ \<Rightarrow> (m, None)
      | None \<Rightarrow>
          (put_session m i \<lparr>s_ID = i, s_State = SessionConnected, s_LeaseIDs = [], s_Watches = [],
                            s_Keys = [], s_Chans = [], s_LastSeen = now\<rparr>, None))"

definition Session_Heartbeat :: "Time \<Rightarrow> SessionMgr \<Rightarrow> SessionID \<Rightarrow> SessionMgr \<times> SessionError option" where
  "Session_Heartbeat now m i =
     (case map_of (sessions m) i of
        None \<Rightarrow> (m, Some ErrNoSession)
      | Some sess \<Rightarrow> (put_session m i (sess\<lparr>s_LastSeen := now\<rparr>), None))"

definition BindLease :: "SessionMgr \<Rightarrow> SessionID \<Rightarrow> LeaseID \<Rightarrow> SessionMgr \<times> SessionError option" where
  "BindLease m i leaseID =
     (case map_of (sessions m) i of
        None \<Rightarrow> (m, Some ErrNoSession)
      | Some sess \<Rightarrow>
          if leaseID \<in> set (s_LeaseIDs sess) then (m, None)
          else (put_session m i (sess\<lparr>s_LeaseIDs := s_LeaseIDs sess @ [leaseID]\<rparr>), None))"

definition SessionCount :: "SessionMgr \<Rightarrow> nat" where
  "SessionCount m = length (sessions m)"

definition Session_Lookup :: "SessionMgr \<Rightarrow> SessionID \<Rightarrow> Session option" where
  "Session_Lookup m i = map_of (sessions m) i"

definition SessionsByState :: "SessionMgr \<Rightarrow> SessionState \<Rightarrow> SessionID list" where
  "SessionsByState m state = map fst (filter (\<lambda>(i, sess). s_State sess = state) (sessions m))"

section \<open>Watches of a session\<close>

definition RegisterWatch ::
  "services \<Rightarrow> SessionID \<Rightarrow> Key \<Rightarrow> Revision \<Rightarrow> (services \<times> (StoreError + WatchID \<times> nat)) option" where
  "RegisterWatch v i key startRev = do {
     ((s', w'), res) \<leftarrow> Watch (sv_store v, sv_watcher v) key startRev;
     let v' = v\<lparr>sv_store := s', sv_watcher := w'\<rparr>;
     case res of
       Inl err \<Rightarrow> Some (v', Inl err)
     | Inr watchID \<Rightarrow> do {
         ch \<leftarrow> map_of (w_subs w') watchID;
         let m = sv_mgr v';
         Some (case map_of (sessions m) i of
                 None \<Rightarrow> (v', Inr (watchID, ch))
               | Some sess \<Rightarrow>
                   (v'\<lparr>sv_mgr := put_session m i
                      (sess\<lparr>s_Watches := mput watchID startRev (s_Watches sess),
                            s_Keys := mput watchID key (s_Keys sess),
                            s_Chans := mput watchID ch (s_Chans sess)\<rparr>)\<rparr>, Inr (watchID, ch)))
       }
   }"

definition AttachPeer :: "Time \<Rightarrow> services \<Rightarrow> SessionID \<Rightarrow> WatchID \<Rightarrow> nat \<Rightarrow> services" where
  "AttachPeer now v i watchID peer =
     v\<lparr>sv_watcher := Attach (sv_watcher v) watchID peer,
       sv_mgr := (case map_of (sessions (sv_mgr v)) i of
                    None \<Rightarrow> sv_mgr v
                  | Some sess \<Rightarrow> put_session (sv_mgr v) i (sess\<lparr>s_LastSeen := now\<rparr>))\<rparr>"

text \<open>The cursor of a watch that the session does not have is the map's zero value.\<close>

definition AckWatch :: "Time \<Rightarrow> services \<Rightarrow> SessionID \<Rightarrow> WatchID \<Rightarrow> Revision \<Rightarrow> services" where
  "AckWatch now v i watchID rv =
     v\<lparr>sv_watcher := Ack (sv_watcher v) watchID rv,
       sv_mgr := (case map_of (sessions (sv_mgr v)) i of
                    None \<Rightarrow> sv_mgr v
                  | Some sess \<Rightarrow>
                      let cursor = (case map_of (s_Watches sess) watchID of None \<Rightarrow> 0 | Some c \<Rightarrow> c);
                          sess1 = (if cursor < rv then sess\<lparr>s_Watches := mput watchID rv (s_Watches sess)\<rparr>
                                   else sess)
                      in put_session (sv_mgr v) i (sess1\<lparr>s_LastSeen := now\<rparr>))\<rparr>"

section \<open>Disconnecting and closing\<close>

fun cancel_all :: "WatchID list \<Rightarrow> services \<Rightarrow> services option" where
  "cancel_all [] v = Some v"
| "cancel_all (watchID # rest) v = do {
     ((s', w'), peer) \<leftarrow> CancelWatch (sv_store v, sv_watcher v) watchID;
     cancel_all rest (v\<lparr>sv_store := s', sv_watcher := w',
       sv_closed := sv_closed v @ (case peer of None \<Rightarrow> [] | Some p \<Rightarrow> [(p, watchID)])\<rparr>)
   }"

definition Disconnect ::
  "Time \<Rightarrow> services \<Rightarrow> SessionID \<Rightarrow> (services \<times> SessionError option) option" where
  "Disconnect now v i =
     (case map_of (sessions (sv_mgr v)) i of
        None \<Rightarrow> Some (v, Some ErrNoSession)
      | Some sess \<Rightarrow>
          let sess1 = sess\<lparr>s_State := SessionDisconnected, s_LastSeen := now, s_Chans := []\<rparr>
          in do {
            v' \<leftarrow> cancel_all (map fst (s_Watches sess)) (v\<lparr>sv_mgr := put_session (sv_mgr v) i sess1\<rparr>);
            Some (v', None)
          })"

definition Session_Close :: "services \<Rightarrow> SessionID \<Rightarrow> services option" where
  "Session_Close v i =
     (case map_of (sessions (sv_mgr v)) i of
        None \<Rightarrow> Some v
      | Some sess \<Rightarrow>
          cancel_all (map fst (s_Watches sess))
            (v\<lparr>sv_mgr := put_session (sv_mgr v) i (sess\<lparr>s_State := SessionClosed\<rparr>)\<rparr>))"

section \<open>Reconnecting\<close>

text \<open>The four maps that \<^verbatim>\<open>Reconnect\<close> builds while it watches again.\<close>

record reopened =
  ro_watches :: "(WatchID, Revision) gomap"
  ro_keys :: "(WatchID, Key) gomap"
  ro_chans :: "(WatchID, nat) gomap"
  ro_restored :: "(WatchID, nat) gomap"

fun reopen ::
  "(WatchID \<times> Revision) list \<Rightarrow> (WatchID, Key) gomap \<Rightarrow> reopened \<Rightarrow> Store \<times> Watcher
     \<Rightarrow> ((Store \<times> Watcher) \<times> reopened) option" where
  "reopen [] keys ro sw = Some (sw, ro)"
| "reopen ((watchID, cursor) # rest) keys ro sw =
     (let key = (case map_of keys watchID of None \<Rightarrow> [] | Some k \<Rightarrow> k)
      in do {
        (sw', res) \<leftarrow> Watch sw key cursor;
        case res of
          Inl err \<Rightarrow> reopen rest keys ro sw'
        | Inr newID \<Rightarrow> do {
            ch \<leftarrow> map_of (w_subs (snd sw')) newID;
            reopen rest keys
              (ro\<lparr>ro_watches := mput newID cursor (ro_watches ro), ro_keys := mput newID key (ro_keys ro),
                  ro_chans := mput newID ch (ro_chans ro),
                  ro_restored := mput newID ch (ro_restored ro)\<rparr>) sw'
          }
      })"

text \<open>The second critical section, and what follows it.\<close>

definition Reconnect_mark ::
  "Time \<Rightarrow> SessionMgr \<Rightarrow> SessionID \<Rightarrow> (SessionMgr \<times> (WatchID, Revision) gomap \<times> (WatchID, Key) gomap) option" where
  "Reconnect_mark now m i = do {
     sess \<leftarrow> map_of (sessions m) i;
     let sess1 = sess\<lparr>s_State := SessionConnected, s_LastSeen := now\<rparr>;
     Some (put_session m i sess1, s_Watches sess1, s_Keys sess1)
   }"

definition Reconnect_finish ::
  "services \<Rightarrow> SessionID \<Rightarrow> (WatchID, Revision) gomap \<Rightarrow> (WatchID, Key) gomap
     \<Rightarrow> (services \<times> (WatchID, nat) gomap) option" where
  "Reconnect_finish v i watches keys = do {
     ((s', w'), ro) \<leftarrow> reopen watches keys \<lparr>ro_watches = [], ro_keys = [], ro_chans = [], ro_restored = []\<rparr>
        (sv_store v, sv_watcher v);
     sess \<leftarrow> map_of (sessions (sv_mgr v)) i;
     let sess1 = sess\<lparr>s_Watches := ro_watches ro, s_Keys := ro_keys ro, s_Chans := ro_chans ro\<rparr>;
     Some (v\<lparr>sv_store := s', sv_watcher := w', sv_mgr := put_session (sv_mgr v) i sess1\<rparr>, ro_restored ro)
   }"

definition Reconnect ::
  "backend OnExpire option \<Rightarrow> Time \<Rightarrow> Time \<Rightarrow> services \<Rightarrow> SessionID
     \<Rightarrow> (services \<times> (SessionError + (WatchID, nat) gomap)) option" where
  "Reconnect cb now1 now2 v i =
     (case map_of (sessions (sv_mgr v)) i of
        None \<Rightarrow> Some (v, Inl ErrNoSession)
      | Some sess \<Rightarrow> do {
          ((l', (lk', s')), renewed) \<leftarrow>
            RenewMany cb (sv_leases v, (sv_locks v, sv_store v)) (s_LeaseIDs sess) now1;
          let v1 = v\<lparr>sv_leases := l', sv_locks := lk', sv_store := s'\<rparr>;
          (m2, watches, keys) \<leftarrow> Reconnect_mark now2 (sv_mgr v1) i;
          (v3, restored) \<leftarrow> Reconnect_finish (v1\<lparr>sv_mgr := m2\<rparr>) i watches keys;
          Some (v3, Inr restored)
        })"

text \<open>Each id comes with the two clock readings that its \<^verbatim>\<open>Reconnect\<close> makes.\<close>

fun ResumeAll ::
  "backend OnExpire option \<Rightarrow> services \<Rightarrow> (SessionID \<times> Time \<times> Time) list
     \<Rightarrow> (services \<times> SessionID list) option" where
  "ResumeAll cb v [] = Some (v, [])"
| "ResumeAll cb v ((i, now1, now2) # rest) = do {
     (v', res) \<leftarrow> Reconnect cb now1 now2 v i;
     (v'', restored) \<leftarrow> ResumeAll cb v' rest;
     Some (v'', case res of Inl _ \<Rightarrow> restored | Inr _ \<Rightarrow> i # restored)
   }"

section \<open>Expiring stale sessions\<close>

fun close_all :: "SessionID list \<Rightarrow> services \<Rightarrow> services option" where
  "close_all [] v = Some v"
| "close_all (i # rest) v = do {
     v' \<leftarrow> Session_Close v i;
     close_all rest v'
   }"

definition stale_ids :: "Time \<Rightarrow> SessionMgr \<Rightarrow> SessionID list" where
  "stale_ids now m =
     map fst (filter (\<lambda>(i, sess). staleAfter m \<le> saturate (now - s_LastSeen sess)) (sessions m))"

definition ExpireStale :: "Time \<Rightarrow> services \<Rightarrow> (services \<times> SessionID list) option" where
  "ExpireStale now v =
     (let stale = stale_ids now (sv_mgr v)
      in do {
        v' \<leftarrow> close_all stale v;
        Some (v', stale)
      })"

end
