(* ===== verification/WatcherProps.thy ===== *)
theory WatcherProps
  imports WatchProps
begin

text \<open>
  The watcher as its clients see it: ids are never issued twice, every active subscription has a
  stream in the store, and \<^verbatim>\<open>Watch\<close>, \<^verbatim>\<open>Cancel\<close>, \<^verbatim>\<open>Attach\<close>, \<^verbatim>\<open>Ack\<close> and the delivery threads never
  panic and keep this.
\<close>

section \<open>Watch ids\<close>

lemma itoa_digits_decimal: "v \<noteq> 0 \<Longrightarrow> itoa_digits v buf = decimal (unat v) @ buf"
proof (induction v buf rule: itoa_digits.induct)
  case (1 v buf)
  let ?d = "char_of (48 + unat (v mod 10)) :: char"
  have u: "unat (v div 10) = unat v div 10" "unat (v mod 10) = unat v mod 10"
    by (simp_all add: unat_div unat_mod)
  have rec: "itoa_digits v buf = itoa_digits (v div 10) (?d # buf)"
    using 1 by (simp add: itoa_digits.simps [of v])
  show ?case
  proof (cases "v div 10 = 0")
    case True
    then have "unat v div 10 = 0" using u(1) by simp
    then show ?thesis
      by (simp add: rec True itoa_digits.simps [of 0] u(2) decimal.simps [of "unat v"] digit_char_def
          div_eq_0_iff)
  next
    case False
    then have "unat v div 10 \<noteq> 0" using u(1) by (metis unat_eq_zero)
    then have "\<not> unat v < 10" by simp
    then show ?thesis
      using 1(1) [OF 1(2) False]
      by (simp add: rec u decimal.simps [of "unat v"] digit_char_def)
  qed
qed

lemma itoa_decimal: "itoa v = decimal (unat v)"
proof -
  have "digit_char 0 = CHR ''0''" by code_simp
  then show ?thesis by (simp add: itoa_def itoa_digits_decimal decimal.simps [of 0])
qed

lemma itoa_inj: "itoa v = itoa w \<longleftrightarrow> v = w"
proof
  assume "itoa v = itoa w"
  then have "decimal_value 0 (decimal (unat v)) = decimal_value 0 (decimal (unat w))"
    by (simp add: itoa_decimal)
  then show "v = w" by (simp add: decimal_value_decimal word_unat_eq_iff)
qed simp

definition watch_id :: "uint64 \<Rightarrow> WatchID" where
  "watch_id n = ''watch-'' @ itoa n"

lemma watch_id_inj [simp]: "watch_id v = watch_id w \<longleftrightarrow> v = w"
  by (simp add: watch_id_def itoa_inj)

definition issued :: "uint64 \<Rightarrow> WatchID \<Rightarrow> bool" where
  "issued n i \<longleftrightarrow> (\<exists>k. k \<le> n \<and> i = watch_id k)"

definition id_room :: "nat \<Rightarrow> Watcher \<Rightarrow> bool" where
  "id_room n w \<longleftrightarrow> unat (w_nextID w) + n < 2 ^ 64"

lemma id_room_less: "id_room n w \<Longrightarrow> k \<le> n \<Longrightarrow> id_room k w"
  by (simp add: id_room_def)

lemma next_id:
  assumes "id_room 1 w"
  shows "unat (w_nextID w + 1) = Suc (unat (w_nextID w))" "w_nextID w < w_nextID w + 1"
    "\<not> issued (w_nextID w) (watch_id (w_nextID w + 1))"
proof -
  show u: "unat (w_nextID w + 1) = Suc (unat (w_nextID w))"
    using assms by (intro unat_plus1) (simp add: id_room_def)
  then show "w_nextID w < w_nextID w + 1" by (simp add: word_less_nat_alt)
  then show "\<not> issued (w_nextID w) (watch_id (w_nextID w + 1))" by (auto simp: issued_def)
qed

lemma issued_mono: "issued n i \<Longrightarrow> n \<le> m \<Longrightarrow> issued m i"
  by (auto simp: issued_def intro: order_trans)

section \<open>The invariant\<close>

definition sub_ok :: "Store \<Rightarrow> WatchID \<Rightarrow> subscription \<Rightarrow> bool" where
  "sub_ok s i sub \<longleftrightarrow> sub_id sub = i \<and> \<not> sub_closed sub \<and> \<not> sub_doneClosed sub
     \<and> map_of (streamHeap s) (sub_stream sub) \<noteq> None"

definition watcher_ok :: "Store \<Rightarrow> Watcher \<Rightarrow> bool" where
  "watcher_ok s w \<longleftrightarrow> mwf (w_subs w)
     \<and> (\<forall>i a. map_of (w_subs w) i = Some a \<longrightarrow>
          a < length (w_heap w) \<and> sub_ok s i (w_heap w ! a) \<and> issued (w_nextID w) i)"

definition grows :: "Store \<Rightarrow> Store \<Rightarrow> bool" where
  "grows s s' \<longleftrightarrow> (\<forall>i. map_of (streamHeap s) i \<noteq> None \<longrightarrow> map_of (streamHeap s') i \<noteq> None)"

lemma grows_refl [simp]: "grows s s"
  by (simp add: grows_def)

lemma grows_trans: "grows s s1 \<Longrightarrow> grows s1 s2 \<Longrightarrow> grows s s2"
  by (simp add: grows_def)

text \<open>A write never forgets a stream.\<close>

lemma grows_set_stream: "map_of (streamHeap s) i = Some st \<Longrightarrow> grows s (set_stream s i st')"
  by (simp add: grows_def set_stream_def)

lemma unregister_heap [simp]: "streamHeap (unregister s i) = streamHeap s"
  by (simp add: unregister_def)

lemma broadcast_grows: "broadcast_to is ev s = Some s' \<Longrightarrow> grows s s'"
proof (induction "is" arbitrary: s)
  case (Cons i "is")
  then obtain st where st: "map_of (streamHeap s) i = Some st"
    by (auto split: Option.bind_splits)
  show ?case
  proof (cases "ev_Rev ev \<le> st_Start st")
    case True
    then show ?thesis using Cons st by simp
  next
    case False
    then obtain st' sent where "try_send st ev = Some (st', sent)"
      using Cons.prems st by (auto split: Option.bind_splits)
    then have "broadcast_to is ev (if sent then set_stream s i st'
        else unregister (set_stream s i (closeLocked st')) i) = Some s'"
      using Cons.prems st False by simp
    from Cons.IH [OF this] show ?thesis
      using st by (auto simp: grows_def set_stream_def split: if_splits)
  qed
qed simp

lemma append_version_heap [simp]: "streamHeap (append_version s k v) = streamHeap s"
  by (simp add: append_version_def recordForLocked_def Let_def split: option.split)

lemma appendLog_heap: "appendLogLocked s ev = Some s' \<Longrightarrow> streamHeap s' = streamHeap s"
  by (auto simp: appendLogLocked_def Let_def split: Option.bind_splits if_splits)

lemma Put_grows: "Put s k v = Some (s', r) \<Longrightarrow> grows s s'"
  by (auto simp: Put_def Let_def broadcastLocked_def grows_def dest!: broadcast_grows appendLog_heap
      split: if_splits Option.bind_splits)

lemma Delete_grows: "Delete s k = Some (s', r) \<Longrightarrow> grows s s'"
  by (auto simp: Delete_def Let_def broadcastLocked_def grows_def dest!: broadcast_grows appendLog_heap
      split: Option.bind_splits)

lemma watcher_okD:
  assumes "watcher_ok s w" and "map_of (w_subs w) i = Some a"
  shows "a < length (w_heap w)" "sub_ok s i (w_heap w ! a)" "issued (w_nextID w) i"
  using assms by (auto simp: watcher_ok_def)

lemma watcher_ok_grows: "watcher_ok s w \<Longrightarrow> grows s s' \<Longrightarrow> watcher_ok s' w"
  by (simp add: watcher_ok_def sub_ok_def grows_def)

lemma watcher_ok_New: "watcher_ok s NewWatcher"
  by (simp add: watcher_ok_def NewWatcher_def)

lemma sub_address_inj:
  "watcher_ok s w \<Longrightarrow> map_of (w_subs w) i = Some a \<Longrightarrow> map_of (w_subs w) j = Some a \<Longrightarrow> i = j"
  by (auto simp: watcher_ok_def sub_ok_def)

text \<open>Replacing a subscription by one that differs only in its cursor, channel, peer or retries.\<close>

definition same_identity :: "subscription \<Rightarrow> subscription \<Rightarrow> bool" where
  "same_identity sub sub' \<longleftrightarrow> sub_id sub' = sub_id sub \<and> sub_key sub' = sub_key sub
     \<and> sub_stream sub' = sub_stream sub
     \<and> sub_closed sub' = sub_closed sub \<and> sub_doneClosed sub' = sub_doneClosed sub"

lemma watcher_ok_set_sub:
  assumes "watcher_ok s w" and "a < length (w_heap w) \<Longrightarrow> same_identity (w_heap w ! a) sub"
  shows "watcher_ok s (set_sub w a sub)"
proof -
  have "sub_ok s i ((w_heap w)[a := sub] ! b)"
    if "map_of (w_subs w) i = Some b" for i b
    using watcher_okD [OF assms(1) that] assms(2)
    by (cases "b = a") (auto simp: sub_ok_def same_identity_def)
  with assms(1) show ?thesis by (simp add: watcher_ok_def set_sub_def)
qed

lemma Ack_sel [simp]:
  "w_subs (Ack w i rv) = w_subs w" "w_heap (Ack w i rv) = w_heap w" "w_nextID (Ack w i rv) = w_nextID w"
  by (simp_all add: Ack_def)

lemma Ack_ok: "watcher_ok s w \<Longrightarrow> watcher_ok s (Ack w i rv)"
  by (simp add: watcher_ok_def)

lemma Attach_ok: "watcher_ok s w \<Longrightarrow> watcher_ok s (Attach w i p)"
  by (auto simp: Attach_def same_identity_def intro!: watcher_ok_set_sub split: option.split)

section \<open>Watching and cancelling\<close>

text \<open>
  A watch opens a stream unless the events to replay exceed the stream's buffer; \<open>resumable\<close> is
  that condition, and \<open>watch_sub\<close> the subscription that a successful watch adds.
\<close>

definition resumable :: "Event list \<Rightarrow> Store \<Rightarrow> Revision \<Rightarrow> bool" where
  "resumable h s c \<longleftrightarrow> head s \<le> c \<or> length (stream_events h s c) \<le> streamBuffer"

definition opened_sub :: "WatchID \<Rightarrow> Key \<Rightarrow> Revision \<Rightarrow> subscription \<Rightarrow> bool" where
  "opened_sub i key c sub \<longleftrightarrow> sub_id sub = i \<and> sub_key sub = key \<and> sub_cursor sub = c
     \<and> sub_peer sub = None \<and> sub_ch sub = [] \<and> \<not> sub_closed sub \<and> \<not> sub_doneClosed sub"

lemma Watch_stream:
  assumes tr: "tracks h s"
  shows "\<exists>s' res. (if CurrentRev s \<le> c then (let (s', st) = OpenLiveStream s in Some (s', Inr st))
                  else OpenStream s c) = Some (s', res)
    \<and> tracks h s' \<and> grows s s' \<and> core s' = core (s\<lparr>nextStream := nextStream s + 1\<rparr>)
    \<and> (if resumable h s c then res = Inr (nextStream s + 1) \<and> map_of (streamHeap s') (nextStream s + 1) \<noteq> None
       else res = Inl ErrVersionReclaimed)"
proof (cases "head s \<le> c")
  case True
  obtain s' where "OpenLiveStream s = (s', nextStream s + 1)" "tracks h s'"
    "core s' = core (s\<lparr>nextStream := nextStream s + 1\<rparr>)"
    "\<forall>j. map_of (streamHeap s') j = (if j = nextStream s + 1
         then Some (fresh_stream s (head s) []) else map_of (streamHeap s) j)"
    using OpenLiveStream_tracks [OF tr] by blast
  with True show ?thesis by (simp add: CurrentRev_def resumable_def grows_def)
next
  case False
  then have le: "c \<le> head s" by simp
  show ?thesis
  proof (cases "length (stream_events h s c) \<le> streamBuffer")
    case True
    from OpenStream_opens [OF tr le True] False True show ?thesis
      by (auto simp: CurrentRev_def resumable_def grows_def)
  next
    case long: False
    from long obtain s' where s': "OpenStream s c = Some (s', Inl ErrVersionReclaimed)" "tracks h s'"
      "core s' = core (s\<lparr>nextStream := nextStream s + 1\<rparr>)"
      "map_of (streamHeap s') (nextStream s + 1) \<noteq> None"
      "\<forall>j. j \<noteq> nextStream s + 1 \<longrightarrow> map_of (streamHeap s') j = map_of (streamHeap s) j"
      using OpenStream_overflows [OF tr le] by auto
    have "map_of (streamHeap s') j \<noteq> None" if "map_of (streamHeap s) j \<noteq> None" for j
      using s'(4,5) that by (cases "j = nextStream s + 1") auto
    then have "grows s s'" by (simp add: grows_def)
    then show ?thesis using False long s'(1-3) by (simp add: CurrentRev_def resumable_def)
  qed
qed

lemma Watch_runs:
  assumes tr: "tracks h s" and ok: "watcher_ok s w" and room: "id_room 1 w"
  shows "\<exists>s' w' res. Watch (s, w) key c = Some ((s', w'), res)
    \<and> tracks h s' \<and> grows s s' \<and> core s' = core (s\<lparr>nextStream := nextStream s + 1\<rparr>)
    \<and> watcher_ok s' w' \<and> w_nextID w' = w_nextID w + 1 \<and> w_acks w' = w_acks w
    \<and> (if resumable h s c then
         res = Inr (watch_id (w_nextID w + 1))
         \<and> w_subs w' = mput (watch_id (w_nextID w + 1)) (length (w_heap w)) (w_subs w)
         \<and> (\<exists>sub. w_heap w' = w_heap w @ [sub] \<and> opened_sub (watch_id (w_nextID w + 1)) key c sub)
       else res = Inl ErrVersionReclaimed \<and> w_subs w' = w_subs w \<and> w_heap w' = w_heap w)"
proof -
  let ?n = "w_nextID w + 1"
  obtain s' res where s': "(if CurrentRev s \<le> c then (let (s', st) = OpenLiveStream s in Some (s', Inr st))
      else OpenStream s c) = Some (s', res)"
    "tracks h s'" "grows s s'" "core s' = core (s\<lparr>nextStream := nextStream s + 1\<rparr>)"
    "if resumable h s c then res = Inr (nextStream s + 1) \<and> map_of (streamHeap s') (nextStream s + 1) \<noteq> None
     else res = Inl ErrVersionReclaimed"
    using Watch_stream [OF tr] by blast
  have ok': "watcher_ok s' w" by (rule watcher_ok_grows [OF ok s'(3)])
  have iss: "issued ?n i" if "issued (w_nextID w) i" for i
    using issued_mono [OF that] next_id(2) [OF room] by simp
  show ?thesis
  proof (cases "resumable h s c")
    case False
    with s'(5) have r: "res = Inl ErrVersionReclaimed" by simp
    have "Watch (s, w) key c = Some ((s', w\<lparr>w_nextID := ?n\<rparr>), Inl ErrVersionReclaimed)"
      using s'(1) by (simp add: Watch_def Watch_at_def r)
    moreover have "watcher_ok s' (w\<lparr>w_nextID := ?n\<rparr>)"
      using ok' iss by (auto simp: watcher_ok_def)
    ultimately show ?thesis using s'(2-4) False by simp
  next
    case True
    with s'(5) obtain stream where r: "res = Inr (nextStream s + 1)"
      and stream: "map_of (streamHeap s') (nextStream s + 1) = Some stream" by auto
    define sub where "sub = \<lparr>sub_id = watch_id ?n, sub_key = key, sub_stream = nextStream s + 1,
      sub_snapshot = snapshotEntries (st_Snapshot stream), sub_cursor = c, sub_ch = [],
      sub_chClosed = False, sub_peer = None, sub_doneClosed = False, sub_closed = False,
      sub_gen = 0, sub_retries = []\<rparr>"
    let ?w = "w\<lparr>w_nextID := ?n, w_subs := mput (watch_id ?n) (length (w_heap w)) (w_subs w),
                w_heap := w_heap w @ [sub]\<rparr>"
    have "Watch (s, w) key c = Some ((s', ?w), Inr (watch_id ?n))"
      using s'(1) stream by (simp add: Watch_def Watch_at_def r sub_def watch_id_def Let_def)
    moreover have "watcher_ok s' ?w"
    proof -
      have "sub_ok s' (watch_id ?n) sub" using stream by (simp add: sub_ok_def sub_def)
      moreover have "issued ?n (watch_id ?n)" by (auto simp: issued_def)
      moreover have "a < length (w_heap w)" if "map_of (w_subs w) i = Some a" for i a
        using watcher_okD(1) [OF ok that] .
      ultimately show ?thesis
        using ok' iss by (auto simp: watcher_ok_def nth_append intro: less_SucI)
    qed
    moreover have "opened_sub (watch_id ?n) key c sub" by (simp add: opened_sub_def sub_def)
    ultimately show ?thesis using s'(2-4) True by (intro exI [of _ s'] exI [of _ ?w]) simp
  qed
qed

lemma Stream_Close_runs:
  assumes tr: "tracks h s" and here: "map_of (streamHeap s) i \<noteq> None"
  shows "\<exists>s'. Stream_Close s i = Some s' \<and> tracks h s' \<and> grows s s' \<and> core s' = core s"
proof -
  obtain st where st: "map_of (streamHeap s) i = Some st" using here by blast
  have "\<not> st_ChClosed st" if "i \<in> set (streams s)"
    using tr st that by (auto simp: tracks_def streams_ok_def stream_ok_def)
  then have "Stream_Close s i \<noteq> None" using st by (simp add: Stream_Close_def Let_def)
  then obtain s' where s': "Stream_Close s i = Some s'" by blast
  note tracks' = Stream_Close_tracks [OF tr s']
  then have "map_option st_Ch (map_of (streamHeap s') j) = map_option st_Ch (map_of (streamHeap s) j)" for j
    by blast
  then have "grows s s'" unfolding grows_def by (metis option.map_disc_iff)
  with s' tracks' show ?thesis by blast
qed

lemma Cancel_runs:
  assumes tr: "tracks h s" and ok: "watcher_ok s w"
  shows "\<exists>s' w' p. CancelWatch (s, w) i = Some ((s', w'), p)
    \<and> tracks h s' \<and> grows s s' \<and> core s' = core s \<and> watcher_ok s' w'
    \<and> map_of (w_subs w') = (map_of (w_subs w))(i := None) \<and> w_nextID w' = w_nextID w
    \<and> length (w_heap w') = length (w_heap w)
    \<and> (\<forall>a. map_of (w_subs w) i \<noteq> Some a \<longrightarrow> w_heap w' ! a = w_heap w ! a)"
proof (cases "map_of (w_subs w) i")
  case None
  then have "(map_of (w_subs w))(i := None) = map_of (w_subs w)" by auto
  then show ?thesis using assms None by (simp add: CancelWatch_def)
next
  case (Some a)
  let ?sub = "w_heap w ! a"
  have a: "a < length (w_heap w)" "sub_ok s i ?sub" using watcher_okD [OF ok Some] by blast+
  then obtain s' where s': "Stream_Close s (sub_stream ?sub) = Some s'" "tracks h s'" "grows s s'"
    "core s' = core s"
    using Stream_Close_runs [OF tr] by (auto simp: sub_ok_def)
  let ?w = "set_sub (w\<lparr>w_subs := mdel i (w_subs w), w_acks := mdel i (w_acks w)\<rparr>) a
      (?sub\<lparr>sub_closed := True, sub_doneClosed := True\<rparr>)"
  have "CancelWatch (s, w) i = Some ((s', ?w), sub_peer ?sub)"
    using Some a s'(1) by (simp add: CancelWatch_def sub_ok_def Let_def)
  moreover have "watcher_ok s' ?w"
    unfolding watcher_ok_def
  proof (intro conjI allI impI)
    show "mwf (w_subs ?w)" using ok by (simp add: watcher_ok_def set_sub_def)
    fix j b assume "map_of (w_subs ?w) j = Some b"
    then have j: "j \<noteq> i" "map_of (w_subs w) j = Some b" by (auto simp: set_sub_def split: if_splits)
    then have "b \<noteq> a" using sub_address_inj [OF ok _ Some, of j] by auto
    with watcher_okD [OF watcher_ok_grows [OF ok s'(3)] j(2)]
    show "b < length (w_heap ?w)" "sub_ok s' j (w_heap ?w ! b)" "issued (w_nextID ?w) j"
      by (simp_all add: set_sub_def)
  qed
  ultimately show ?thesis
    using Some s' by (intro exI [of _ s'] exI [of _ ?w] exI [of _ "sub_peer ?sub"]) (auto simp: set_sub_def)
qed

section \<open>The delivery threads\<close>

lemma upd_sub_ok:
  "watcher_ok s (ws_mgr r) \<Longrightarrow> same_identity (the_sub a r) sub \<Longrightarrow> watcher_ok s (ws_mgr (upd_sub a sub r))"
  by (auto simp: upd_sub_def the_sub_def intro: watcher_ok_set_sub)

lemma upd_sub_frame [simp]:
  "w_subs (ws_mgr (upd_sub a sub r)) = w_subs (ws_mgr r)"
  "w_nextID (ws_mgr (upd_sub a sub r)) = w_nextID (ws_mgr r)"
  by (simp_all add: upd_sub_def set_sub_def)

lemma same_identity_upd [simp]:
  "same_identity sub sub" "same_identity sub (sub\<lparr>sub_cursor := c\<rparr>)" "same_identity sub (sub\<lparr>sub_ch := q\<rparr>)"
  "same_identity sub (sub\<lparr>sub_chClosed := b\<rparr>)" "same_identity sub (sub\<lparr>sub_retries := rs\<rparr>)"
  "same_identity sub (sub\<lparr>sub_peer := p\<rparr>)"
  by (simp_all add: same_identity_def)

lemma scheduleRetry_identity: "scheduleRetry sub ev = (sub', new) \<Longrightarrow> same_identity sub sub'"
  by (auto simp: scheduleRetry_def split: if_splits)

lemma thread_step_watcher:
  assumes "thread_step a k t r r'" and "watcher_ok s (ws_mgr r)"
  shows "watcher_ok s (ws_mgr r')" "w_subs (ws_mgr r') = w_subs (ws_mgr r)"
    "w_nextID (ws_mgr r') = w_nextID (ws_mgr r)"
  using assms
  by (cases; auto simp: Let_def intro!: upd_sub_ok dest: scheduleRetry_identity)+

lemma stream_recv_grows:
  assumes "tracks h s" and "stream_recv s i = Some (s', res)"
  shows "tracks h s'" "grows s s'"
  using stream_recv_tracks [OF assms] by (auto simp: grows_def split: recv.splits)

lemma thread_step_store:
  assumes "thread_step a k t r r'" and "tracks h (ws_store r)"
  shows "tracks h (ws_store r')" "grows (ws_store r) (ws_store r')"
  using assms by (cases; auto simp: Let_def dest: stream_recv_grows)+

end
