(* ===== verification/SessionProps.thy ===== *)
theory SessionProps
  imports Sessions WatcherProps
begin

text \<open>
  The invariant of the services around the session manager, and what each operation of the
  session manager does to it. No operation panics as long as the store has room for the
  deletions that lost leases cause and the watcher has ids left.
\<close>

section \<open>The invariant\<close>

text \<open>
  The watch ids of a session were issued; the key it records for a watch that is still active is
  the key of the subscription, and the channel is the subscription's channel.
\<close>

definition session_ok :: "Watcher \<Rightarrow> SessionID \<Rightarrow> Session \<Rightarrow> bool" where
  "session_ok w i sess \<longleftrightarrow> s_ID sess = i \<and> s_State sess \<noteq> SessionUnset \<and> distinct (s_LeaseIDs sess)
     \<and> mwf (s_Watches sess) \<and> mwf (s_Keys sess) \<and> mwf (s_Chans sess)
     \<and> dom (map_of (s_Keys sess)) \<subseteq> dom (map_of (s_Watches sess))
     \<and> dom (map_of (s_Chans sess)) \<subseteq> dom (map_of (s_Keys sess))
     \<and> (\<forall>j k. map_of (s_Keys sess) j = Some k \<longrightarrow> issued (w_nextID w) j
          \<and> (\<forall>a. map_of (w_subs w) j = Some a \<longrightarrow> sub_key (w_heap w ! a) = k))
     \<and> (\<forall>j c a. map_of (s_Chans sess) j = Some c \<longrightarrow> map_of (w_subs w) j = Some a \<longrightarrow> c = a)"

definition sessions_ok :: "Watcher \<Rightarrow> SessionMgr \<Rightarrow> bool" where
  "sessions_ok w m \<longleftrightarrow> mwf (sessions m)
     \<and> (\<forall>i sess. map_of (sessions m) i = Some sess \<longrightarrow> session_ok w i sess)"

definition services_ok :: "services \<Rightarrow> bool" where
  "services_ok v \<longleftrightarrow> (\<exists>h. tracks h (sv_store v)) \<and> watcher_ok (sv_store v) (sv_watcher v)
     \<and> lease_ok (sv_leases v) \<and> sessions_ok (sv_watcher v) (sv_mgr v)"

lemma services_okI:
  "tracks h (sv_store v) \<Longrightarrow> watcher_ok (sv_store v) (sv_watcher v) \<Longrightarrow> lease_ok (sv_leases v) \<Longrightarrow>
   sessions_ok (sv_watcher v) (sv_mgr v) \<Longrightarrow> services_ok v"
  by (auto simp: services_ok_def)

lemma sessions_okD: "sessions_ok w m \<Longrightarrow> map_of (sessions m) i = Some sess \<Longrightarrow> session_ok w i sess"
  by (simp add: sessions_ok_def)

lemma put_session_sel [simp]:
  "map_of (sessions (put_session m i sess)) = (map_of (sessions m))(i \<mapsto> sess)"
  "staleAfter (put_session m i sess) = staleAfter m"
  by (simp_all add: put_session_def)

lemma put_session_ok: "sessions_ok w m \<Longrightarrow> session_ok w i sess \<Longrightarrow> sessions_ok w (put_session m i sess)"
  by (auto simp: sessions_ok_def put_session_def)

text \<open>What the watcher may do without the sessions noticing.\<close>

definition watcher_moves :: "Watcher \<Rightarrow> Watcher \<Rightarrow> bool" where
  "watcher_moves w w' \<longleftrightarrow> w_nextID w \<le> w_nextID w'
     \<and> (\<forall>j a. issued (w_nextID w) j \<longrightarrow> map_of (w_subs w') j = Some a \<longrightarrow>
          map_of (w_subs w) j = Some a \<and> sub_key (w_heap w' ! a) = sub_key (w_heap w ! a))"

lemma session_ok_moves:
  assumes "session_ok w i sess" and "watcher_moves w w'"
  shows "session_ok w' i sess"
proof -
  have iss: "issued (w_nextID w) j" if "map_of (s_Keys sess) j = Some k" for j k
    using assms(1) that by (simp add: session_ok_def)
  have "issued (w_nextID w) j" if c: "map_of (s_Chans sess) j = Some c" for j c
  proof -
    have "j \<in> dom (map_of (s_Keys sess))" using assms(1) c by (auto simp: session_ok_def)
    then show ?thesis using iss by auto
  qed
  with iss show ?thesis
    using assms issued_mono unfolding session_ok_def watcher_moves_def by (metis (no_types, lifting))
qed

lemma sessions_ok_moves: "sessions_ok w m \<Longrightarrow> watcher_moves w w' \<Longrightarrow> sessions_ok w' m"
  using session_ok_moves unfolding sessions_ok_def by blast

lemma watcher_moves_refl [simp]: "watcher_moves w w"
  by (simp add: watcher_moves_def)

lemma watcher_moves_trans: "watcher_moves w w1 \<Longrightarrow> watcher_moves w1 w2 \<Longrightarrow> watcher_moves w w2"
  using issued_mono [of "w_nextID w" _ "w_nextID w1"] by (fastforce simp: watcher_moves_def)

section \<open>Operations of the manager alone\<close>

lemma Connect_ok: "sessions_ok w m \<Longrightarrow> sessions_ok w (fst (Connect now m i))"
  by (auto simp: Connect_def session_ok_def intro!: put_session_ok split: option.split)

lemma Session_Heartbeat_ok: "sessions_ok w m \<Longrightarrow> sessions_ok w (fst (Session_Heartbeat now m i))"
  by (auto simp: Session_Heartbeat_def session_ok_def dest: sessions_okD intro!: put_session_ok split: option.split)

lemma BindLease_ok: "sessions_ok w m \<Longrightarrow> sessions_ok w (fst (BindLease m i l))"
  by (auto simp: BindLease_def session_ok_def dest: sessions_okD intro!: put_session_ok split: option.split)

section \<open>Watching\<close>

lemma Watch_moves:
  assumes "watcher_ok s w" and "id_room 1 w" and "w_nextID w' = w_nextID w + 1"
    and "map_of (w_subs w') = (map_of (w_subs w))(watch_id (w_nextID w + 1) \<mapsto> length (w_heap w))
      \<or> map_of (w_subs w') = map_of (w_subs w)"
    and "prefix (w_heap w) (w_heap w')"
  shows "watcher_moves w w'"
proof -
  have "w_heap w' ! a = w_heap w ! a" if "map_of (w_subs w) j = Some a" for j a
    using watcher_okD(1) [OF assms(1) that] assms(5) by (auto simp: prefix_def nth_append)
  with assms next_id [OF assms(2)] show ?thesis
    by (auto simp: watcher_moves_def split: if_splits)
qed

text \<open>The outcome of \<^verbatim>\<open>RegisterWatch\<close>: the watch exists, and the session, if there is one, has it.\<close>

lemma RegisterWatch_runs:
  assumes ok: "services_ok v" and tr: "tracks h (sv_store v)" and room: "id_room 1 (sv_watcher v)"
  shows "\<exists>v' res. RegisterWatch v i key c = Some (v', res) \<and> services_ok v'
    \<and> tracks h (sv_store v') \<and> w_nextID (sv_watcher v') = w_nextID (sv_watcher v) + 1
    \<and> head (sv_store v') = head (sv_store v)
    \<and> (if resumable h (sv_store v) c
       then let j = watch_id (w_nextID (sv_watcher v) + 1); a = length (w_heap (sv_watcher v))
            in res = Inr (j, a) \<and> map_of (w_subs (sv_watcher v')) = (map_of (w_subs (sv_watcher v)))(j \<mapsto> a)
               \<and> opened_sub j key c (w_heap (sv_watcher v') ! a)
               \<and> map_of (sessions (sv_mgr v')) = (case map_of (sessions (sv_mgr v)) i of
                    None \<Rightarrow> map_of (sessions (sv_mgr v))
                  | Some sess \<Rightarrow> (map_of (sessions (sv_mgr v)))
                      (i \<mapsto> sess\<lparr>s_Watches := mput j c (s_Watches sess), s_Keys := mput j key (s_Keys sess),
                                s_Chans := mput j a (s_Chans sess)\<rparr>))
       else res = Inl ErrVersionReclaimed \<and> sv_mgr v' = sv_mgr v)"
proof -
  let ?w = "sv_watcher v" and ?j = "watch_id (w_nextID (sv_watcher v) + 1)" and ?a = "length (w_heap (sv_watcher v))"
  have wok: "watcher_ok (sv_store v) ?w" and sok: "sessions_ok ?w (sv_mgr v)" and lok: "lease_ok (sv_leases v)"
    using ok by (auto simp: services_ok_def)
  from Watch_runs [OF tr wok room, of key c] obtain s' w' res where
    w': "Watch (sv_store v, ?w) key c = Some ((s', w'), res)" "tracks h s'"
      "core s' = core ((sv_store v)\<lparr>nextStream := nextStream (sv_store v) + 1\<rparr>)"
      "watcher_ok s' w'" "w_nextID w' = w_nextID ?w + 1"
    and cases: "if resumable h (sv_store v) c then
         res = Inr ?j \<and> w_subs w' = mput ?j ?a (w_subs ?w)
         \<and> (\<exists>sub. w_heap w' = w_heap ?w @ [sub] \<and> opened_sub ?j key c sub)
       else res = Inl ErrVersionReclaimed \<and> w_subs w' = w_subs ?w \<and> w_heap w' = w_heap ?w"
    by blast
  have hd: "head s' = head (sv_store v)" using core_eqD [OF w'(3)] by simp
  have moves: "watcher_moves ?w w'"
    using cases by (intro Watch_moves [OF wok room w'(5)]) (auto split: if_splits)
  then have sok': "sessions_ok w' (sv_mgr v)" by (rule sessions_ok_moves [OF sok])
  show ?thesis
  proof (cases "resumable h (sv_store v) c")
    case False
    then have "RegisterWatch v i key c = Some (v\<lparr>sv_store := s', sv_watcher := w'\<rparr>, Inl ErrVersionReclaimed)"
      using w'(1) cases by (simp add: RegisterWatch_def)
    moreover have "services_ok (v\<lparr>sv_store := s', sv_watcher := w'\<rparr>)"
      using w' lok sok' by (intro services_okI [of h]) simp_all
    ultimately show ?thesis
      using w'(2,5) hd False
      by (intro exI [of _ "v\<lparr>sv_store := s', sv_watcher := w'\<rparr>"] exI [of _ "Inl ErrVersionReclaimed"]) simp
  next
    case True
    then obtain sub where r: "res = Inr ?j" and subs: "w_subs w' = mput ?j ?a (w_subs ?w)"
      and heap: "w_heap w' = w_heap ?w @ [sub]" and sub: "opened_sub ?j key c sub"
      using cases by auto
    show ?thesis
    proof (cases "map_of (sessions (sv_mgr v)) i")
      case None
      have "RegisterWatch v i key c = Some (v\<lparr>sv_store := s', sv_watcher := w'\<rparr>, Inr (?j, ?a))"
        using w'(1) None by (simp add: RegisterWatch_def r subs)
      moreover have "services_ok (v\<lparr>sv_store := s', sv_watcher := w'\<rparr>)"
        using w' lok sok' by (intro services_okI [of h]) simp_all
      ultimately show ?thesis
        using w'(2,5) hd True None sub
        by (intro exI [of _ "v\<lparr>sv_store := s', sv_watcher := w'\<rparr>"] exI [of _ "Inr (?j, ?a)"]) (simp add: subs heap)
    next
      case (Some sess)
      let ?sess = "sess\<lparr>s_Watches := mput ?j c (s_Watches sess), s_Keys := mput ?j key (s_Keys sess),
                        s_Chans := mput ?j ?a (s_Chans sess)\<rparr>"
      let ?v = "v\<lparr>sv_store := s', sv_watcher := w', sv_mgr := put_session (sv_mgr v) i ?sess\<rparr>"
      have "RegisterWatch v i key c = Some (?v, Inr (?j, ?a))"
        using w'(1) Some by (simp add: RegisterWatch_def r subs)
      moreover have "session_ok w' i ?sess"
        using sessions_okD [OF sok' Some] sub
        by (auto simp: session_ok_def subs heap issued_def w'(5) opened_sub_def)
      then have "services_ok ?v"
        using w' lok sok' by (intro services_okI [of h]) (auto intro: put_session_ok)
      ultimately show ?thesis
        using w'(2,5) hd True Some sub
        by (intro exI [of _ ?v] exI [of _ "Inr (?j, ?a)"]) (simp add: subs heap)
    qed
  qed
qed

section \<open>Acknowledging and attaching\<close>

lemma same_watches_moves:
  assumes "w_subs w' = w_subs w" and "w_nextID w' = w_nextID w"
    and "\<forall>a. sub_key (w_heap w' ! a) = sub_key (w_heap w ! a)"
  shows "watcher_moves w w'"
  using assms by (simp add: watcher_moves_def)

lemma Attach_moves: "watcher_moves w (Attach w i p)"
proof -
  have "sub_key ((w_heap w)[b := (w_heap w ! b)\<lparr>sub_peer := Some p\<rparr>] ! a) = sub_key (w_heap w ! a)" for a b
    by (cases "b = a"; cases "a < length (w_heap w)") (simp_all add: list_update_beyond)
  then show ?thesis
    by (intro same_watches_moves) (auto simp: Attach_def set_sub_def split: option.split)
qed

lemma AttachPeer_ok:
  assumes "services_ok v"
  shows "services_ok (AttachPeer now v i j p)"
proof -
  obtain h where tr: "tracks h (sv_store v)" and wok: "watcher_ok (sv_store v) (sv_watcher v)"
    and lok: "lease_ok (sv_leases v)" and sok: "sessions_ok (sv_watcher v) (sv_mgr v)"
    using assms by (auto simp: services_ok_def)
  have sok': "sessions_ok (Attach (sv_watcher v) j p) (sv_mgr v)"
    by (rule sessions_ok_moves [OF sok Attach_moves])
  then have "sessions_ok (Attach (sv_watcher v) j p) (sv_mgr (AttachPeer now v i j p))"
    using sessions_okD [OF sok', of i]
    by (cases "map_of (sessions (sv_mgr v)) i")
      (simp_all add: AttachPeer_def put_session_ok session_ok_def)
  then show ?thesis
    using tr lok Attach_ok [OF wok] by (intro services_okI [of h]) (simp_all add: AttachPeer_def)
qed

lemma session_ok_seen: "session_ok w i sess \<Longrightarrow> session_ok w i (sess\<lparr>s_LastSeen := now\<rparr>)"
  by (simp add: session_ok_def)

lemma session_ok_ack:
  assumes "session_ok w i sess"
  shows "session_ok w i ((if b then sess\<lparr>s_Watches := mput j c (s_Watches sess)\<rparr> else sess)\<lparr>s_LastSeen := now\<rparr>)"
proof (rule session_ok_seen)
  have "session_ok w i (sess\<lparr>s_Watches := mput j c (s_Watches sess)\<rparr>)"
    using assms unfolding session_ok_def by (simp add: subset_insertI2)
  with assms show "session_ok w i (if b then sess\<lparr>s_Watches := mput j c (s_Watches sess)\<rparr> else sess)"
    by simp
qed

lemma AckWatch_ok:
  assumes "services_ok v"
  shows "services_ok (AckWatch now v i j c)"
proof -
  obtain h where tr: "tracks h (sv_store v)" and wok: "watcher_ok (sv_store v) (sv_watcher v)"
    and lok: "lease_ok (sv_leases v)" and sok: "sessions_ok (sv_watcher v) (sv_mgr v)"
    using assms by (auto simp: services_ok_def)
  have sok': "sessions_ok (Ack (sv_watcher v) j c) (sv_mgr v)"
    by (rule sessions_ok_moves [OF sok]) (rule same_watches_moves; simp)
  then have "sessions_ok (Ack (sv_watcher v) j c) (sv_mgr (AckWatch now v i j c))"
    using sessions_okD [OF sok', of i]
    by (cases "map_of (sessions (sv_mgr v)) i")
      (simp_all add: AckWatch_def Let_def put_session_ok session_ok_ack)
  then show ?thesis
    using tr lok Ack_ok [OF wok] by (intro services_okI [of h]) (simp_all add: AckWatch_def)
qed

section \<open>Cancelling, disconnecting, closing\<close>

text \<open>What cancelling some watches leaves as it was.\<close>

definition cancelled :: "WatchID set \<Rightarrow> services \<Rightarrow> services \<Rightarrow> bool" where
  "cancelled ids v v' \<longleftrightarrow> sv_leases v' = sv_leases v \<and> sv_locks v' = sv_locks v
     \<and> core (sv_store v') = core (sv_store v)
     \<and> w_nextID (sv_watcher v') = w_nextID (sv_watcher v)
     \<and> length (w_heap (sv_watcher v')) = length (w_heap (sv_watcher v))
     \<and> map_of (w_subs (sv_watcher v')) =
         (\<lambda>j. if j \<in> ids then None else map_of (w_subs (sv_watcher v)) j)
     \<and> (\<forall>j a. map_of (w_subs (sv_watcher v')) j = Some a \<longrightarrow>
          w_heap (sv_watcher v') ! a = w_heap (sv_watcher v) ! a)"

lemma cancelled_empty [simp]: "cancelled {} v v"
  by (simp add: cancelled_def)

lemma cancelled_trans: "cancelled xs v v1 \<Longrightarrow> cancelled ys v1 v2 \<Longrightarrow> cancelled (xs \<union> ys) v v2"
  by (auto simp: cancelled_def split: if_splits)

lemma cancelled_mgr [simp]:
  "cancelled ids (v\<lparr>sv_mgr := m\<rparr>) v' = cancelled ids v v'"
  "cancelled ids v (v'\<lparr>sv_mgr := m\<rparr>) = cancelled ids v v'"
  by (simp_all add: cancelled_def cong: if_cong)

lemma cancelled_moves: "cancelled ids v v' \<Longrightarrow> watcher_moves (sv_watcher v) (sv_watcher v')"
  by (auto simp: cancelled_def watcher_moves_def split: if_splits)

lemma cancel_all_runs:
  assumes "services_ok v" and "tracks h (sv_store v)"
  shows "\<exists>v'. cancel_all ids v = Some v' \<and> services_ok v' \<and> tracks h (sv_store v')
    \<and> sv_mgr v' = sv_mgr v \<and> cancelled (set ids) v v'"
  using assms
proof (induction ids arbitrary: v)
  case Nil
  then show ?case by simp
next
  case (Cons i ids)
  have wok: "watcher_ok (sv_store v) (sv_watcher v)" using Cons.prems(1) by (simp add: services_ok_def)
  obtain s' w' p where c: "CancelWatch (sv_store v, sv_watcher v) i = Some ((s', w'), p)" "tracks h s'"
    "core s' = core (sv_store v)" "watcher_ok s' w'"
    "map_of (w_subs w') = (map_of (w_subs (sv_watcher v)))(i := None)"
    "w_nextID w' = w_nextID (sv_watcher v)" "length (w_heap w') = length (w_heap (sv_watcher v))"
    "\<forall>a. map_of (w_subs (sv_watcher v)) i \<noteq> Some a \<longrightarrow> w_heap w' ! a = w_heap (sv_watcher v) ! a"
    using Cancel_runs [OF Cons.prems(2) wok, of i] by blast
  let ?v = "v\<lparr>sv_store := s', sv_watcher := w',
       sv_closed := sv_closed v @ (case p of None \<Rightarrow> [] | Some p' \<Rightarrow> [(p', i)])\<rparr>"
  have "w_heap w' ! b = w_heap (sv_watcher v) ! b" if "map_of (w_subs w') j = Some b" for j b
  proof -
    have j: "j \<noteq> i" "map_of (w_subs (sv_watcher v)) j = Some b" using that by (auto simp: c(5) split: if_splits)
    then have "map_of (w_subs (sv_watcher v)) i \<noteq> Some b" using sub_address_inj [OF wok j(2)] by blast
    with c(8) show ?thesis by blast
  qed
  moreover have "map_of (w_subs w') = (\<lambda>j. if j \<in> {i} then None else map_of (w_subs (sv_watcher v)) j)"
    by (rule ext) (simp add: c(5))
  ultimately have can: "cancelled {i} v ?v"
    using c(3,6,7) by (simp add: cancelled_def)
  have "sessions_ok w' (sv_mgr v)"
    using sessions_ok_moves [OF _ cancelled_moves [OF can]] Cons.prems(1) by (simp add: services_ok_def)
  then have "services_ok ?v"
    using c Cons.prems(1) by (intro services_okI [of h]) (simp_all add: services_ok_def)
  from Cons.IH [OF this] c(2) obtain v' where v': "cancel_all ids ?v = Some v'" "services_ok v'"
    "tracks h (sv_store v')" "sv_mgr v' = sv_mgr v" "cancelled (set ids) ?v v'"
    by auto
  moreover have "cancelled (set (i # ids)) v v'"
    using cancelled_trans [OF can v'(5)] by simp
  ultimately show ?case using c(1) by auto
qed

lemma services_ok_put:
  assumes "services_ok v" and "session_ok (sv_watcher v) i sess"
  shows "services_ok (v\<lparr>sv_mgr := put_session (sv_mgr v) i sess\<rparr>)"
  using assms by (auto simp: services_ok_def intro: put_session_ok)

lemma Disconnect_runs:
  assumes ok: "services_ok v" and tr: "tracks h (sv_store v)" and s: "map_of (sessions (sv_mgr v)) i = Some sess"
  shows "\<exists>v'. Disconnect now v i = Some (v', None) \<and> services_ok v' \<and> tracks h (sv_store v')
    \<and> sv_mgr v' = put_session (sv_mgr v) i
        (sess\<lparr>s_State := SessionDisconnected, s_LastSeen := now, s_Chans := []\<rparr>)
    \<and> cancelled (dom (map_of (s_Watches sess))) v v'"
proof -
  let ?sess = "sess\<lparr>s_State := SessionDisconnected, s_LastSeen := now, s_Chans := []\<rparr>"
  let ?v = "v\<lparr>sv_mgr := put_session (sv_mgr v) i ?sess\<rparr>"
  have "session_ok (sv_watcher v) i sess" using ok s by (auto simp: services_ok_def sessions_okD)
  then have "services_ok ?v" by (intro services_ok_put [OF ok]) (simp add: session_ok_def)
  from cancel_all_runs [OF this, of h "map fst (s_Watches sess)"] tr s show ?thesis
    by (auto simp: Disconnect_def dom_map_of_conv_image_fst)
qed

lemma Session_Close_runs:
  assumes ok: "services_ok v" and tr: "tracks h (sv_store v)" and s: "map_of (sessions (sv_mgr v)) i = Some sess"
  shows "\<exists>v'. Session_Close v i = Some v' \<and> services_ok v' \<and> tracks h (sv_store v')
    \<and> sv_mgr v' = put_session (sv_mgr v) i (sess\<lparr>s_State := SessionClosed\<rparr>)
    \<and> cancelled (dom (map_of (s_Watches sess))) v v'"
proof -
  let ?v = "v\<lparr>sv_mgr := put_session (sv_mgr v) i (sess\<lparr>s_State := SessionClosed\<rparr>)\<rparr>"
  have "session_ok (sv_watcher v) i sess" using ok s by (auto simp: services_ok_def sessions_okD)
  then have "services_ok ?v" by (intro services_ok_put [OF ok]) (simp add: session_ok_def)
  from cancel_all_runs [OF this, of h "map fst (s_Watches sess)"] tr s show ?thesis
    by (auto simp: Session_Close_def dom_map_of_conv_image_fst)
qed

section \<open>Closing several sessions\<close>

lemma mput_existing:
  "mwf m \<Longrightarrow> map_of m i = Some x \<Longrightarrow> mput i y m = map (\<lambda>(k, z). (k, if k = i then y else z)) m"
proof (induction m)
  case (Cons p m)
  have "map (\<lambda>(k, z). (k, if k = i then y else z)) m = m" if "i \<notin> fst ` set m"
    using that by (intro map_idI) (auto simp: image_iff)
  with Cons show ?case by (cases p) (auto simp: mwf_def)
qed simp

definition close_in :: "SessionID set \<Rightarrow> SessionMgr \<Rightarrow> SessionMgr" where
  "close_in ids m = m\<lparr>sessions := map (\<lambda>(i, sess).
     (i, if i \<in> ids then sess\<lparr>s_State := SessionClosed\<rparr> else sess)) (sessions m)\<rparr>"

definition watches_in :: "SessionID set \<Rightarrow> SessionMgr \<Rightarrow> WatchID set" where
  "watches_in ids m = {j. \<exists>i sess. i \<in> ids \<and> map_of (sessions m) i = Some sess
     \<and> j \<in> dom (map_of (s_Watches sess))}"

lemma close_in_empty [simp]: "close_in {} m = m"
  by (simp add: close_in_def case_prod_beta)

lemma watches_in_empty [simp]: "watches_in {} m = {}"
  by (simp add: watches_in_def)

lemma lookup_close_in:
  "map_of (sessions (close_in ids m)) i =
    map_option (\<lambda>sess. if i \<in> ids then sess\<lparr>s_State := SessionClosed\<rparr> else sess) (map_of (sessions m) i)"
proof -
  have "map_of (map (\<lambda>(k, z). (k, f k z)) xs) i = map_option (f i) (map_of xs i)"
    for f :: "SessionID \<Rightarrow> Session \<Rightarrow> Session" and xs
    by (induction xs) auto
  from this [of "\<lambda>k z. if k \<in> ids then z\<lparr>s_State := SessionClosed\<rparr> else z" "sessions m"]
  show ?thesis by (simp add: close_in_def)
qed

lemma watches_in_close [simp]: "watches_in xs (close_in ids m) = watches_in xs m"
proof -
  have "(\<exists>sess. map_of (sessions (close_in ids m)) i = Some sess \<and> j \<in> dom (map_of (s_Watches sess))) \<longleftrightarrow>
      (\<exists>sess. map_of (sessions m) i = Some sess \<and> j \<in> dom (map_of (s_Watches sess)))" for i j
    by (cases "map_of (sessions m) i") (simp_all add: lookup_close_in)
  then show ?thesis unfolding watches_in_def by blast
qed

lemma close_in_close: "close_in ys (close_in xs m) = close_in (xs \<union> ys) m"
proof -
  let ?f = "\<lambda>ids (i :: SessionID, sess :: Session). (i, if i \<in> ids then sess\<lparr>s_State := SessionClosed\<rparr> else sess)"
  have "?f ys \<circ> ?f xs = ?f (xs \<union> ys)" by (auto simp: fun_eq_iff)
  then show ?thesis by (simp add: close_in_def)
qed

lemma close_in_one:
  assumes "mwf (sessions m)" and s: "map_of (sessions m) i = Some sess"
  shows "put_session m i (sess\<lparr>s_State := SessionClosed\<rparr>) = close_in {i} m"
proof -
  have "z = sess" if "(i, z) \<in> set (sessions m)" for z
    using that s mwf_in_iff [OF assms(1)] by auto
  then show ?thesis
    by (auto simp: put_session_def close_in_def mput_existing [OF assms] intro!: arg_cong [of _ _ "\<lambda>x. m\<lparr>sessions := x\<rparr>"])
qed

lemma close_all_runs:
  assumes "services_ok v" and "tracks h (sv_store v)"
  shows "\<exists>v'. close_all ids v = Some v' \<and> services_ok v' \<and> tracks h (sv_store v')
    \<and> sv_mgr v' = close_in (set ids) (sv_mgr v) \<and> cancelled (watches_in (set ids) (sv_mgr v)) v v'"
  using assms
proof (induction ids arbitrary: v)
  case Nil
  then show ?case by simp
next
  case (Cons i ids)
  have "\<exists>v1. Session_Close v i = Some v1 \<and> services_ok v1 \<and> tracks h (sv_store v1)
      \<and> sv_mgr v1 = close_in {i} (sv_mgr v) \<and> cancelled (watches_in {i} (sv_mgr v)) v v1"
  proof (cases "map_of (sessions (sv_mgr v)) i")
    case None
    then have "map (\<lambda>(j, sess). (j, if j \<in> {i} then sess\<lparr>s_State := SessionClosed\<rparr> else sess))
        (sessions (sv_mgr v)) = sessions (sv_mgr v)"
      by (intro map_idI) (auto simp: map_of_eq_None_iff image_iff)
    then have "close_in {i} (sv_mgr v) = sv_mgr v" by (simp add: close_in_def)
    moreover have "watches_in {i} (sv_mgr v) = {}" using None by (simp add: watches_in_def)
    ultimately show ?thesis using None Cons.prems by (simp add: Session_Close_def)
  next
    case (Some sess)
    have wf: "mwf (sessions (sv_mgr v))" using Cons.prems(1) by (simp add: services_ok_def sessions_ok_def)
    have "watches_in {i} (sv_mgr v) = dom (map_of (s_Watches sess))" using Some by (simp add: watches_in_def dom_def)
    with Session_Close_runs [OF Cons.prems Some] show ?thesis by (simp add: close_in_one [OF wf Some])
  qed
  then obtain v1 where v1: "Session_Close v i = Some v1" "services_ok v1" "tracks h (sv_store v1)"
    "sv_mgr v1 = close_in {i} (sv_mgr v)" "cancelled (watches_in {i} (sv_mgr v)) v v1" by blast
  from Cons.IH [OF v1(2,3)] obtain v' where v': "close_all ids v1 = Some v'" "services_ok v'"
    "tracks h (sv_store v')" "sv_mgr v' = close_in (set (i # ids)) (sv_mgr v)"
    "cancelled (watches_in (set ids) (sv_mgr v)) v1 v'"
    by (auto simp: v1(4) close_in_close)
  have "watches_in {i} (sv_mgr v) \<union> watches_in (set ids) (sv_mgr v) = watches_in (set (i # ids)) (sv_mgr v)"
    by (auto simp: watches_in_def)
  with cancelled_trans [OF v1(5) v'(5)] v1(1) v' show ?case by auto
qed

section \<open>Watching again\<close>

text \<open>
  The rows that watching again adds: for every watch whose cursor can still be served, the new
  id, the address of the new subscription, the key and the cursor. A watch that cannot be served
  uses up an id and has no row.
\<close>

fun resume_plan ::
  "(Revision \<Rightarrow> bool) \<Rightarrow> (WatchID, Key) gomap \<Rightarrow> uint64 \<Rightarrow> nat \<Rightarrow> (WatchID \<times> Revision) list
     \<Rightarrow> (WatchID \<times> nat \<times> Key \<times> Revision) list" where
  "resume_plan ok keys n a [] = []"
| "resume_plan ok keys n a ((i, c) # rest) =
     (if ok c then (watch_id (n + 1), a, (case map_of keys i of None \<Rightarrow> [] | Some k \<Rightarrow> k), c)
                    # resume_plan ok keys (n + 1) (Suc a) rest
      else resume_plan ok keys (n + 1) a rest)"

definition plan_watches :: "(WatchID \<times> nat \<times> Key \<times> Revision) list \<Rightarrow> (WatchID, Revision) gomap" where
  "plan_watches plan = map (\<lambda>(j, a, k, c). (j, c)) plan"

definition plan_keys :: "(WatchID \<times> nat \<times> Key \<times> Revision) list \<Rightarrow> (WatchID, Key) gomap" where
  "plan_keys plan = map (\<lambda>(j, a, k, c). (j, k)) plan"

definition plan_chans :: "(WatchID \<times> nat \<times> Key \<times> Revision) list \<Rightarrow> (WatchID, nat) gomap" where
  "plan_chans plan = map (\<lambda>(j, a, k, c). (j, a)) plan"

lemma plan_maps_simps [simp]:
  "plan_watches [] = []" "plan_keys [] = []" "plan_chans [] = []"
  "plan_watches ((j, a, k, c) # p) = (j, c) # plan_watches p"
  "plan_keys ((j, a, k, c) # p) = (j, k) # plan_keys p"
  "plan_chans ((j, a, k, c) # p) = (j, a) # plan_chans p"
  by (simp_all add: plan_watches_def plan_keys_def plan_chans_def)

lemma fst_plan_maps [simp]:
  "map fst (plan_watches p) = map fst p" "map fst (plan_keys p) = map fst p" "map fst (plan_chans p) = map fst p"
  by (simp_all add: plan_watches_def plan_keys_def plan_chans_def case_prod_beta comp_def)

lemma fst_set_plan_maps [simp]:
  "fst ` set (plan_watches p) = fst ` set p" "fst ` set (plan_keys p) = fst ` set p"
  "fst ` set (plan_chans p) = fst ` set p"
  using fst_plan_maps [of p] by (metis list.set_map)+

lemma mput_fresh: "k \<notin> fst ` set m \<Longrightarrow> mput k v m = m @ [(k, v)]"
  by (induction m) auto

text \<open>The ids of the rows were not issued before.\<close>

lemma resume_plan_ids:
  assumes "unat n + length ws < 2 ^ 64" and "j \<in> fst ` set (resume_plan ok keys n a ws)"
  shows "\<exists>m. j = watch_id m \<and> n < m \<and> unat m \<le> unat n + length ws"
  using assms
proof (induction ok keys n a ws rule: resume_plan.induct)
  case (2 ok keys n a i c rest)
  have u: "unat (n + 1) = Suc (unat n)" using 2(3) by (intro unat_plus1) simp
  then have lt: "n < n + 1" by (simp add: word_less_nat_alt)
  consider "ok c" "j = watch_id (n + 1)" | "ok c" "j \<in> fst ` set (resume_plan ok keys (n + 1) (Suc a) rest)"
    | "\<not> ok c" "j \<in> fst ` set (resume_plan ok keys (n + 1) a rest)"
    using 2(4) by (auto split: if_splits)
  then show ?case
  proof cases
    case 1
    then show ?thesis using u lt by (intro exI [of _ "n + 1"]) simp
  next
    case 2
    with "2.IH"(1) 2(1) "2.prems"(1) u obtain m where "j = watch_id m" "n + 1 < m" "unat m \<le> unat (n + 1) + length rest"
      by auto
    then show ?thesis using u lt by (intro exI [of _ m]) auto
  next
    case 3
    with "2.IH"(2) "2.prems"(1) u obtain m where "j = watch_id m" "n + 1 < m" "unat m \<le> unat (n + 1) + length rest"
      by auto
    then show ?thesis using u lt by (intro exI [of _ m]) auto
  qed
qed simp

lemma distinct_resume_plan:
  "unat n + length ws < 2 ^ 64 \<Longrightarrow> distinct (map fst (resume_plan ok keys n a ws))"
proof (induction ok keys n a ws rule: resume_plan.induct)
  case (2 ok keys n a i c rest)
  have u: "unat (n + 1) = Suc (unat n)" using 2(3) by (intro unat_plus1) simp
  with 2(3) have "unat (n + 1) + length rest < 2 ^ 64" by simp
  from resume_plan_ids [OF this, of "watch_id (n + 1)" ok keys "Suc a"] this 2 show ?case by auto
qed simp

lemma core_frame: "core s1 = core (s\<lparr>nextStream := n\<rparr>) \<Longrightarrow> core (s1\<lparr>nextStream := m\<rparr>) = core (s\<lparr>nextStream := m\<rparr>)"
  using core_eqD [of s1 "s\<lparr>nextStream := n\<rparr>"] by (simp add: core_def)

lemma resumable_core:
  assumes "core s' = core (s\<lparr>nextStream := n\<rparr>)"
  shows "resumable h s' = resumable h s"
  using core_eqD [OF assms] by (simp add: fun_eq_iff resumable_def stream_events_def log_full_def)

definition ro_ids :: "reopened \<Rightarrow> WatchID set" where
  "ro_ids ro = fst ` set (ro_watches ro) \<union> fst ` set (ro_keys ro) \<union> fst ` set (ro_chans ro)
     \<union> fst ` set (ro_restored ro)"

definition ro_append :: "reopened \<Rightarrow> (WatchID \<times> nat \<times> Key \<times> Revision) list \<Rightarrow> reopened" where
  "ro_append ro plan = \<lparr>ro_watches = ro_watches ro @ plan_watches plan, ro_keys = ro_keys ro @ plan_keys plan,
     ro_chans = ro_chans ro @ plan_chans plan, ro_restored = ro_restored ro @ plan_chans plan\<rparr>"

lemma ro_append_simps:
  "ro_append ro [] = ro"
  "ro_append ro ((j, a, k, c) # p) = ro_append (ro_append ro [(j, a, k, c)]) p"
  by (simp_all add: ro_append_def)

lemma ro_put:
  assumes "j \<notin> ro_ids ro"
  shows "ro\<lparr>ro_watches := mput j c (ro_watches ro), ro_keys := mput j k (ro_keys ro),
            ro_chans := mput j a (ro_chans ro), ro_restored := mput j a (ro_restored ro)\<rparr> =
    ro_append ro [(j, a, k, c)]"
  using assms by (simp add: ro_append_def ro_ids_def mput_fresh)

lemma ro_ids_append [simp]: "ro_ids (ro_append ro [(j, a, k, c)]) = insert j (ro_ids ro)"
  by (auto simp: ro_append_def ro_ids_def)

text \<open>What opening the watches of a plan does to store and watcher, \<open>n\<close> of them asked for.\<close>

definition resumed :: "Event list \<Rightarrow> nat \<Rightarrow> (WatchID \<times> nat \<times> Key \<times> Revision) list
    \<Rightarrow> Store \<times> Watcher \<Rightarrow> Store \<times> Watcher \<Rightarrow> bool" where
  "resumed h n plan sw sw' \<longleftrightarrow> tracks h (fst sw') \<and> watcher_ok (fst sw') (snd sw')
     \<and> core (fst sw') = core ((fst sw)\<lparr>nextStream := nextStream (fst sw')\<rparr>)
     \<and> unat (w_nextID (snd sw')) = unat (w_nextID (snd sw)) + n \<and> prefix (w_heap (snd sw)) (w_heap (snd sw'))
     \<and> map_of (w_subs (snd sw')) = map_of (w_subs (snd sw)) ++ map_of (plan_chans plan)
     \<and> (\<forall>(j, a, k, c) \<in> set plan. a < length (w_heap (snd sw')) \<and> opened_sub j k c (w_heap (snd sw') ! a))"

lemma resumed_core:
  assumes "core s1 = core (s\<lparr>nextStream := nextStream s + 1\<rparr>)" and "core s' = core (s1\<lparr>nextStream := nextStream s'\<rparr>)"
  shows "core s' = core (s\<lparr>nextStream := nextStream s'\<rparr>)"
  using assms(2) core_frame [OF assms(1)] by metis

lemma resumed_refused:
  assumes "core s1 = core (s\<lparr>nextStream := nextStream s + 1\<rparr>)" and "unat (w_nextID w1) = Suc (unat (w_nextID w))"
    and "w_subs w1 = w_subs w" and "w_heap w1 = w_heap w" and "resumed h n plan (s1, w1) sw'"
  shows "resumed h (Suc n) plan (s, w) sw'"
  using assms(2-5) resumed_core [OF assms(1)] by (simp add: resumed_def)

lemma resumed_opened:
  assumes "core s1 = core (s\<lparr>nextStream := nextStream s + 1\<rparr>)" and "unat (w_nextID w1) = Suc (unat (w_nextID w))"
    and subs: "w_subs w1 = mput j (length (w_heap w)) (w_subs w)" and heap: "w_heap w1 = w_heap w @ [sub]"
    and sub: "opened_sub j k c sub" and new: "j \<notin> fst ` set plan" and rest: "resumed h n plan (s1, w1) sw'"
  shows "resumed h (Suc n) ((j, length (w_heap w), k, c) # plan) (s, w) sw'"
proof -
  have "prefix (w_heap w @ [sub]) (w_heap (snd sw'))" using rest by (simp add: resumed_def heap)
  then have "length (w_heap w) < length (w_heap (snd sw'))" "w_heap (snd sw') ! length (w_heap w) = sub"
    "prefix (w_heap w) (w_heap (snd sw'))" by (auto simp: prefix_def nth_append)
  moreover have "j \<notin> dom (map_of (plan_chans plan))" using new by (simp add: dom_map_of_conv_image_fst)
  ultimately show ?thesis
    using assms(2) sub rest resumed_core [OF assms(1)] by (simp add: resumed_def subs map_add_upd_left)
qed

lemma reopen_runs:
  assumes "tracks h s" and "watcher_ok s w" and "id_room (length ws) w"
    and "\<forall>j \<in> ro_ids ro. issued (w_nextID w) j"
    and "plan = resume_plan (resumable h s) keys (w_nextID w) (length (w_heap w)) ws"
  shows "\<exists>sw'. reopen ws keys ro (s, w) = Some (sw', ro_append ro plan) \<and> resumed h (length ws) plan (s, w) sw'"
  using assms
proof (induction ws arbitrary: s w ro plan)
  case Nil
  then show ?case by (simp add: ro_append_simps core_def resumed_def)
next
  case (Cons p ws)
  obtain i c where p: "p = (i, c)" by (cases p)
  let ?k = "case map_of keys i of None \<Rightarrow> [] | Some k \<Rightarrow> k"
  let ?j = "watch_id (w_nextID w + 1)" and ?a = "length (w_heap w)"
  have room: "id_room 1 w" using Cons.prems(3) by (rule id_room_less) simp
  obtain s1 w1 res where w1: "Watch (s, w) ?k c = Some ((s1, w1), res)" "tracks h s1"
      "core s1 = core (s\<lparr>nextStream := nextStream s + 1\<rparr>)" "watcher_ok s1 w1"
      "w_nextID w1 = w_nextID w + 1"
    and cases: "if resumable h s c then
         res = Inr ?j \<and> w_subs w1 = mput ?j ?a (w_subs w)
         \<and> (\<exists>sub. w_heap w1 = w_heap w @ [sub] \<and> opened_sub ?j ?k c sub)
       else res = Inl ErrVersionReclaimed \<and> w_subs w1 = w_subs w \<and> w_heap w1 = w_heap w"
    using Watch_runs [OF Cons.prems(1,2) room, of ?k c] by blast
  have same: "resumable h s1 = resumable h s" by (rule resumable_core [OF w1(3)])
  have u1: "unat (w_nextID w1) = Suc (unat (w_nextID w))" using next_id(1) [OF room] by (simp add: w1(5))
  have room1: "id_room (length ws) w1" using Cons.prems(3) u1 by (simp add: id_room_def)
  have iss: "\<forall>j \<in> ro_ids ro. issued (w_nextID w1) j"
    using Cons.prems(4) issued_mono next_id(2) [OF room] by (fastforce simp: w1(5))
  let ?plan = "resume_plan (resumable h s) keys (w_nextID w + 1) (length (w_heap w1)) ws"
  note IH = Cons.IH [OF w1(2,4) room1 _ refl, unfolded same w1(5)]
  show ?case
  proof (cases "resumable h s c")
    case False
    with cases have r: "res = Inl ErrVersionReclaimed" "w_subs w1 = w_subs w" "w_heap w1 = w_heap w" by simp_all
    from IH [OF iss [unfolded w1(5)]] obtain sw' where "reopen ws keys ro (s1, w1) = Some (sw', ro_append ro ?plan)"
      "resumed h (length ws) ?plan (s1, w1) sw'" by blast
    with resumed_refused [OF w1(3) u1 r(2,3)] False w1(1) show ?thesis by (simp add: p r Cons.prems(5))
  next
    case True
    then obtain sub where r: "res = Inr ?j" and subs: "w_subs w1 = mput ?j ?a (w_subs w)"
      and heap: "w_heap w1 = w_heap w @ [sub]" and sub: "opened_sub ?j ?k c sub"
      using cases by auto
    let ?ro = "ro_append ro [(?j, ?a, ?k, c)]"
    have "\<forall>j \<in> ro_ids ?ro. issued (w_nextID w + 1) j" using iss by (auto simp: issued_def w1(5))
    from IH [OF this] obtain sw' where sw': "reopen ws keys ?ro (s1, w1) = Some (sw', ro_append ?ro ?plan)"
      "resumed h (length ws) ?plan (s1, w1) sw'" by blast
    have "?j \<notin> ro_ids ro" using Cons.prems(4) next_id(3) [OF room] by blast
    then have "reopen (p # ws) keys ro (s, w) = Some (sw', ro_append ro ((?j, ?a, ?k, c) # ?plan))"
      using w1(1) ro_put [where c = c and k = "?k" and a = "?a"] sw'(1)
      unfolding ro_append_simps(2) [of ro ?j ?a ?k c ?plan] by (simp add: p r subs)
    moreover have "?j \<notin> fst ` set ?plan"
      using resume_plan_ids [of "w_nextID w + 1" ws ?j] room1 by (auto simp: id_room_def w1(5))
    ultimately show ?thesis
      using resumed_opened [OF w1(3) u1 subs heap sub _ sw'(2)] True by (simp add: p Cons.prems(5) heap)
  qed
qed

lemma resume_moves:
  assumes "id_room (length ws) w" and "unat (w_nextID w') = unat (w_nextID w) + length ws"
    and "prefix (w_heap w) (w_heap w')" and "watcher_ok s w"
    and "map_of (w_subs w') = map_of (w_subs w) ++ map_of (plan_chans (resume_plan ok keys (w_nextID w) b ws))"
  shows "watcher_moves w w'"
  unfolding watcher_moves_def
proof (intro conjI allI impI)
  show "w_nextID w \<le> w_nextID w'" using assms(2) by (simp add: word_le_nat_alt)
  fix j a assume iss: "issued (w_nextID w) j" and a: "map_of (w_subs w') j = Some a"
  have "j \<notin> fst ` set (resume_plan ok keys (w_nextID w) b ws)"
  proof
    assume "j \<in> fst ` set (resume_plan ok keys (w_nextID w) b ws)"
    then obtain m where "j = watch_id m" "w_nextID w < m"
      using resume_plan_ids [of "w_nextID w" ws j ok keys b] assms(1) by (auto simp: id_room_def)
    then show False using iss by (auto simp: issued_def)
  qed
  then have "map_of (plan_chans (resume_plan ok keys (w_nextID w) b ws)) j = None"
    by (simp add: map_of_eq_None_iff)
  with a show j: "map_of (w_subs w) j = Some a" by (simp add: assms(5) map_add_Some_iff)
  show "sub_key (w_heap w' ! a) = sub_key (w_heap w ! a)"
    using watcher_okD(1) [OF assms(4) j] assms(3) by (auto simp: prefix_def nth_append)
qed

lemma lookup_plan:
  assumes "distinct (map fst plan)"
  shows "map_of (plan_keys plan) j = Some k \<Longrightarrow> \<exists>a c. (j, a, k, c) \<in> set plan"
    and "map_of (plan_chans plan) j = Some a \<Longrightarrow> \<exists>k c. (j, a, k, c) \<in> set plan"
    and "(j, a, k, c) \<in> set plan \<Longrightarrow> map_of (plan_chans plan) j = Some a"
    and "(j, a, k, c) \<in> set plan \<Longrightarrow> map_of (plan_keys plan) j = Some k"
    and "(j, a, k, c) \<in> set plan \<Longrightarrow> map_of (plan_watches plan) j = Some c"
proof -
  show "map_of (plan_keys plan) j = Some k \<Longrightarrow> \<exists>a c. (j, a, k, c) \<in> set plan"
    by (drule map_of_SomeD) (auto simp: plan_keys_def)
  show "map_of (plan_chans plan) j = Some a \<Longrightarrow> \<exists>k c. (j, a, k, c) \<in> set plan"
    by (drule map_of_SomeD) (auto simp: plan_chans_def)
  have d: "distinct (map fst (plan_keys plan))" "distinct (map fst (plan_chans plan))"
    "distinct (map fst (plan_watches plan))" using assms by simp_all
  show "(j, a, k, c) \<in> set plan \<Longrightarrow> map_of (plan_chans plan) j = Some a"
    by (intro map_of_is_SomeI [OF d(2)]) (force simp: plan_chans_def)
  show "(j, a, k, c) \<in> set plan \<Longrightarrow> map_of (plan_keys plan) j = Some k"
    by (intro map_of_is_SomeI [OF d(1)]) (force simp: plan_keys_def)
  show "(j, a, k, c) \<in> set plan \<Longrightarrow> map_of (plan_watches plan) j = Some c"
    by (intro map_of_is_SomeI [OF d(3)]) (force simp: plan_watches_def)
qed

lemma session_ok_plan:
  assumes sess: "session_ok w0 i sess" and plan: "distinct (map fst plan)"
    and iss: "\<forall>j \<in> fst ` set plan. issued (w_nextID w) j"
    and subs: "map_of (w_subs w) = f ++ map_of (plan_chans plan)"
    and opened: "\<forall>(j, a, k, c) \<in> set plan. opened_sub j k c (w_heap w ! a)"
  shows "session_ok w i (sess\<lparr>s_Watches := plan_watches plan, s_Keys := plan_keys plan, s_Chans := plan_chans plan\<rparr>)"
proof -
  have dom: "dom (map_of (plan_keys plan)) = fst ` set plan" "dom (map_of (plan_chans plan)) = fst ` set plan"
    "dom (map_of (plan_watches plan)) = fst ` set plan"
    by (simp_all add: dom_map_of_conv_image_fst)
  have key: "sub_key (w_heap w ! a) = k"
    if k: "map_of (plan_keys plan) j = Some k" and a: "map_of (w_subs w) j = Some a" for j k a
  proof -
    obtain a' c where row: "(j, a', k, c) \<in> set plan" using lookup_plan(1) [OF plan k] by blast
    then have "a' = a" using lookup_plan(3) [OF plan row] a by (simp add: subs map_add_def)
    with opened row show ?thesis by (auto simp: opened_sub_def)
  qed
  have "issued (w_nextID w) j" if "map_of (plan_keys plan) j = Some k" for j k
    using iss dom(1) that by blast
  with key sess plan show ?thesis
    by (auto simp: session_ok_def dom mwf_def subs map_add_def)
qed

lemma Reconnect_finish_runs:
  assumes ok: "services_ok v" and tr: "tracks h (sv_store v)" and s: "map_of (sessions (sv_mgr v)) i = Some sess"
    and room: "id_room (length ws) (sv_watcher v)"
    and plan: "plan = resume_plan (resumable h (sv_store v)) keys (w_nextID (sv_watcher v))
      (length (w_heap (sv_watcher v))) ws"
  shows "\<exists>v'. Reconnect_finish v i ws keys = Some (v', plan_chans plan) \<and> services_ok v' \<and> tracks h (sv_store v')
    \<and> sv_mgr v' = put_session (sv_mgr v) i
        (sess\<lparr>s_Watches := plan_watches plan, s_Keys := plan_keys plan, s_Chans := plan_chans plan\<rparr>)
    \<and> sv_leases v' = sv_leases v \<and> sv_locks v' = sv_locks v
    \<and> map_of (w_subs (sv_watcher v')) = map_of (w_subs (sv_watcher v)) ++ map_of (plan_chans plan)
    \<and> prefix (w_heap (sv_watcher v)) (w_heap (sv_watcher v'))
    \<and> (\<forall>(j, a, k, c) \<in> set plan. opened_sub j k c (w_heap (sv_watcher v') ! a))
    \<and> unat (w_nextID (sv_watcher v')) = unat (w_nextID (sv_watcher v)) + length ws"
proof -
  let ?w = "sv_watcher v" and ?ro = "\<lparr>ro_watches = [], ro_keys = [], ro_chans = [], ro_restored = []\<rparr>"
  have wok: "watcher_ok (sv_store v) ?w" and sok: "sessions_ok ?w (sv_mgr v)" and lok: "lease_ok (sv_leases v)"
    using ok by (auto simp: services_ok_def)
  have "\<forall>j \<in> ro_ids ?ro. issued (w_nextID ?w) j" by (simp add: ro_ids_def)
  from reopen_runs [OF tr wok room this, OF plan] obtain sw' where
    q: "reopen ws keys ?ro (sv_store v, ?w) = Some (sw', ro_append ?ro plan)"
    "resumed h (length ws) plan (sv_store v, ?w) sw'" by blast
  obtain s' w' where sw': "sw' = (s', w')" by (cases sw')
  have r: "reopen ws keys ?ro (sv_store v, ?w) = Some ((s', w'), ro_append ?ro plan)"
    "tracks h s'" "watcher_ok s' w'" "unat (w_nextID w') = unat (w_nextID ?w) + length ws"
    "prefix (w_heap ?w) (w_heap w')" "map_of (w_subs w') = map_of (w_subs ?w) ++ map_of (plan_chans plan)"
    "\<forall>(j, a, k, c) \<in> set plan. opened_sub j k c (w_heap w' ! a)"
    using q by (auto simp: resumed_def sw')
  have moves: "watcher_moves ?w w'"
    using resume_moves [OF room r(4,5) wok] r(6) by (simp add: plan)
  have lt: "unat (w_nextID ?w) + length ws < 2 ^ 64" using room by (simp add: id_room_def)
  have dist: "distinct (map fst plan)" unfolding plan by (rule distinct_resume_plan [OF lt])
  have "\<forall>j \<in> fst ` set plan. issued (w_nextID w') j"
    using resume_plan_ids [OF lt] r(4) unfolding plan issued_def by (metis word_le_nat_alt)
  from session_ok_plan [OF sessions_okD [OF sok s] dist this r(6,7)]
  have "services_ok (v\<lparr>sv_store := s', sv_watcher := w', sv_mgr := put_session (sv_mgr v) i
      (sess\<lparr>s_Watches := plan_watches plan, s_Keys := plan_keys plan, s_Chans := plan_chans plan\<rparr>)\<rparr>)"
    using r(2,3) lok sessions_ok_moves [OF sok moves]
    by (intro services_okI [of h]) (auto intro: put_session_ok)
  then show ?thesis using r s by (simp add: Reconnect_finish_def ro_append_def)
qed

section \<open>Nothing but writes extends the history\<close>

lemma cancel_all_extends:
  assumes "cancel_all ids v = Some v'" and "services_ok v"
  shows "log_extends (sv_store v) (sv_store v')"
  using cancel_all_runs [OF assms(2), of _ ids] assms(1) by (intro log_same) auto

lemma close_all_extends:
  assumes "close_all ids v = Some v'" and "services_ok v"
  shows "log_extends (sv_store v) (sv_store v')"
  using close_all_runs [OF assms(2), of _ ids] assms(1) by (intro log_same) auto

lemma RegisterWatch_extends:
  assumes "RegisterWatch v i key c = Some (v', res)" and "services_ok v" and "id_room 1 (sv_watcher v)"
  shows "log_extends (sv_store v) (sv_store v')"
  using RegisterWatch_runs [OF assms(2) _ assms(3), of _ i key c] assms(1) by (intro log_same) auto

lemma Reconnect_finish_extends:
  assumes "Reconnect_finish v i ws keys = Some (v', chans)" and "services_ok v"
    and "map_of (sessions (sv_mgr v)) i = Some sess" and "id_room (length ws) (sv_watcher v)"
  shows "log_extends (sv_store v) (sv_store v')"
  using Reconnect_finish_runs [OF assms(2) _ assms(3,4) refl, of _ keys] assms(1) by (intro log_same) auto

section \<open>The expiry handler keeps the streams\<close>

lemma delete_keys_keeps: "delete_keys ks s = Some s' \<Longrightarrow> grows s s'"
  by (induction ks arbitrary: s) (auto split: Option.bind_splits dest!: Delete_grows intro: grows_trans)

lemma delete_keys_grows:
  "store_ready (n + length ks) s \<Longrightarrow>
   \<exists>s'. delete_keys ks s = Some s' \<and> store_ready n s' \<and> grows s s' \<and> log_extends s s'"
  using delete_keys_runs delete_keys_keeps by metis

interpretation handler_streams: expiry_callback expiryHandler backend_ready
  "\<lambda>ks e e'. fst e' = fst e \<and> grows (snd e) (snd e') \<and> log_extends (snd e) (snd e')"
proof
  fix m i n e now
  assume "lease_ok m" and gone: "map_of (leases m) i = None"
    and "backend_ready (n + length (KeysOf m i)) e"
  then obtain s' where "delete_keys (KeysOf m i) (snd e) = Some s'" "store_ready n s'" "grows (snd e) s'"
    "log_extends (snd e) s'"
    using delete_keys_grows [of n "KeysOf m i" "snd e"] by (auto simp: backend_ready_def)
  then show "\<exists>e'. expiryHandler i now (m, e) = Some (m\<lparr>bindings := mdel i (bindings m)\<rparr>, e')
      \<and> backend_ready n e' \<and> fst e' = fst e \<and> grows (snd e) (snd e') \<and> log_extends (snd e) (snd e')"
    using expiryHandler_unregistered [OF gone, of now "fst e" "snd e"]
    by (auto simp: backend_ready_def)
qed (auto intro: grows_trans log_extends_trans backend_ready_less)

end
