(* ===== verification/SessionRuns.thy ===== *)
theory SessionRuns
  imports SessionProps
begin

text \<open>
  \<^verbatim>\<open>Reconnect\<close> as a whole, and runs in which the operations of the session manager interleave
  with the other users of the lease manager, the store and the watcher.
\<close>

section \<open>Reconnecting\<close>

lemma resumable_window:
  assumes "tracks h s" and "logStart s \<le> c"
  shows "resumable h s c \<longleftrightarrow> unat (head s) \<le> unat c + 512"
proof -
  have "unat (head s) = length h" using assms(1) by (simp add: tracks_def)
  then show ?thesis
    using assms(2) by (auto simp: resumable_def stream_events_def streamBuffer_def word_le_nat_alt)
qed

definition renewal_room :: "Time \<Rightarrow> services \<Rightarrow> SessionID \<Rightarrow> nat" where
  "renewal_room now v i = (case map_of (sessions (sv_mgr v)) i of None \<Rightarrow> 0
     | Some sess \<Rightarrow> length (concat (map (\<lambda>l. lost_keys (sv_leases v) l now) (s_LeaseIDs sess))))"

definition watch_room :: "services \<Rightarrow> SessionID \<Rightarrow> bool" where
  "watch_room v i \<longleftrightarrow> id_room (case map_of (sessions (sv_mgr v)) i of None \<Rightarrow> 0
     | Some sess \<Rightarrow> length (s_Watches sess)) (sv_watcher v)"

lemma Reconnect_runs:
  assumes ok: "services_ok v" and s: "map_of (sessions (sv_mgr v)) i = Some sess"
    and ids: "watch_room v i" and writes: "store_ready (renewal_room now1 v i) (sv_store v)"
  shows "\<exists>l1 s1 h v'. let plan = resume_plan (resumable h s1) (s_Keys sess)
        (w_nextID (sv_watcher v)) (length (w_heap (sv_watcher v))) (s_Watches sess) in
      RenewMany (Some expiryHandler) (sv_leases v, (sv_locks v, sv_store v)) (s_LeaseIDs sess) now1 =
        Some ((l1, (sv_locks v, s1)), filter (\<lambda>l. renew_error (sv_leases v) l now1 = None) (s_LeaseIDs sess))
      \<and> tracks h s1
      \<and> Reconnect (Some expiryHandler) now1 now2 v i = Some (v', Inr (plan_chans plan))
      \<and> services_ok v' \<and> tracks h (sv_store v') \<and> log_extends (sv_store v) (sv_store v')
      \<and> sv_leases v' = l1 \<and> sv_locks v' = sv_locks v
      \<and> sv_mgr v' = put_session (sv_mgr v) i
          (sess\<lparr>s_State := SessionConnected, s_LastSeen := now2, s_Watches := plan_watches plan,
                s_Keys := plan_keys plan, s_Chans := plan_chans plan\<rparr>)
      \<and> (\<forall>l. map_of (leases l1) l = (if l \<in> set (s_LeaseIDs sess) then renewed_lease (sv_leases v) l now1
             else map_of (leases (sv_leases v)) l))
      \<and> map_of (w_subs (sv_watcher v')) = map_of (w_subs (sv_watcher v)) ++ map_of (plan_chans plan)
      \<and> prefix (w_heap (sv_watcher v)) (w_heap (sv_watcher v'))
      \<and> (\<forall>(j, a, k, c) \<in> set plan. opened_sub j k c (w_heap (sv_watcher v') ! a))
      \<and> unat (w_nextID (sv_watcher v')) = unat (w_nextID (sv_watcher v)) + length (s_Watches sess)"
proof -
  have wok: "watcher_ok (sv_store v) (sv_watcher v)" and sok: "sessions_ok (sv_watcher v) (sv_mgr v)"
    and lok: "lease_ok (sv_leases v)" using ok by (auto simp: services_ok_def)
  note sess = sessions_okD [OF sok s]
  have "distinct (s_LeaseIDs sess)" using sess by (simp add: session_ok_def)
  from handler_streams.RenewMany_runs [OF this lok, of 0 now1 "(sv_locks v, sv_store v)"] writes s
  obtain l1 e1 where r: "RenewMany (Some expiryHandler) (sv_leases v, (sv_locks v, sv_store v)) (s_LeaseIDs sess) now1 =
      Some ((l1, e1), filter (\<lambda>l. renew_error (sv_leases v) l now1 = None) (s_LeaseIDs sess))"
    "lease_ok l1" "backend_ready 0 e1" "fst e1 = sv_locks v"
      "grows (sv_store v) (snd e1) \<and> log_extends (sv_store v) (snd e1)"
    "\<forall>l. map_of (leases l1) l = (if l \<in> set (s_LeaseIDs sess) then renewed_lease (sv_leases v) l now1
             else map_of (leases (sv_leases v)) l)"
    by (auto simp: backend_ready_def renewal_room_def)
  define s1 where "s1 = snd e1"
  have e1: "e1 = (sv_locks v, s1)" using r(4) by (simp add: s1_def prod_eq_iff)
  obtain h where tr: "tracks h s1" using r(3) by (auto simp: backend_ready_def store_ready_def s1_def)
  let ?sess = "sess\<lparr>s_State := SessionConnected, s_LastSeen := now2\<rparr>"
  let ?v = "v\<lparr>sv_leases := l1, sv_locks := sv_locks v, sv_store := s1, sv_mgr := put_session (sv_mgr v) i ?sess\<rparr>"
  have "session_ok (sv_watcher v) i ?sess" using sess by (simp add: session_ok_def)
  then have ok': "services_ok ?v"
    using tr r(2,5) watcher_ok_grows [OF wok] put_session_ok [OF sok]
    by (intro services_okI [of h]) (simp_all add: s1_def)
  have s': "map_of (sessions (sv_mgr ?v)) i = Some ?sess" by simp
  have tr': "tracks h (sv_store ?v)" using tr by simp
  have room: "id_room (length (s_Watches sess)) (sv_watcher ?v)" using ids s by (simp add: watch_room_def)
  from Reconnect_finish_runs [OF ok' tr' s' room refl, of "s_Keys sess"] obtain v' where
    v': "let plan = resume_plan (resumable h s1) (s_Keys sess) (w_nextID (sv_watcher v))
        (length (w_heap (sv_watcher v))) (s_Watches sess) in
      Reconnect_finish ?v i (s_Watches sess) (s_Keys sess) = Some (v', plan_chans plan)
      \<and> services_ok v' \<and> tracks h (sv_store v') \<and> sv_leases v' = l1 \<and> sv_locks v' = sv_locks v
      \<and> sv_mgr v' = put_session (sv_mgr v) i
          (sess\<lparr>s_State := SessionConnected, s_LastSeen := now2, s_Watches := plan_watches plan,
                s_Keys := plan_keys plan, s_Chans := plan_chans plan\<rparr>)
      \<and> map_of (w_subs (sv_watcher v')) = map_of (w_subs (sv_watcher v)) ++ map_of (plan_chans plan)
      \<and> prefix (w_heap (sv_watcher v)) (w_heap (sv_watcher v'))
      \<and> (\<forall>(j, a, k, c) \<in> set plan. opened_sub j k c (w_heap (sv_watcher v') ! a))
      \<and> unat (w_nextID (sv_watcher v')) = unat (w_nextID (sv_watcher v)) + length (s_Watches sess)"
    by (auto simp: Let_def put_session_def)
  have "log_extends (sv_store ?v) (sv_store v')"
    using v' Reconnect_finish_extends [OF _ ok' s', of "s_Watches sess" "s_Keys sess" v'] room by (auto simp: Let_def)
  then have "log_extends (sv_store v) (sv_store v')"
    using r(5) log_extends_trans [of "sv_store v" s1] by (simp add: s1_def)
  then show ?thesis
    using v' tr r(1,6) s
    by (intro exI [of _ l1] exI [of _ s1] exI [of _ h] exI [of _ v'])
      (simp add: Let_def Reconnect_def Reconnect_mark_def e1)
qed

section \<open>Runs\<close>

text \<open>
  The other users: clients of the lease manager, of the store (writes, readers, reclaiming), of
  the lock manager, and the delivery threads of the subscriptions. Every step that consumes
  revisions or watch ids asks for room.
\<close>

inductive session_step :: "services \<Rightarrow> services \<Rightarrow> bool" where
  connect: "Connect now (sv_mgr v) i = (m', r) \<Longrightarrow> session_step v (v\<lparr>sv_mgr := m'\<rparr>)"
| heartbeat: "Session_Heartbeat now (sv_mgr v) i = (m', r) \<Longrightarrow> session_step v (v\<lparr>sv_mgr := m'\<rparr>)"
| bind_lease: "BindLease (sv_mgr v) i l = (m', r) \<Longrightarrow> session_step v (v\<lparr>sv_mgr := m'\<rparr>)"
| register: "id_room 1 (sv_watcher v) \<Longrightarrow> RegisterWatch v i key c = Some (v', r) \<Longrightarrow> session_step v v'"
| attach: "session_step v (AttachPeer now v i j p)"
| ack: "session_step v (AckWatch now v i j c)"
| disconnect: "Disconnect now v i = Some (v', r) \<Longrightarrow> session_step v v'"
| close: "Session_Close v i = Some v' \<Longrightarrow> session_step v v'"
| reconnect: "watch_room v i \<Longrightarrow> store_ready (renewal_room now1 v i) (sv_store v) \<Longrightarrow>
    Reconnect (Some expiryHandler) now1 now2 v i = Some (v', r) \<Longrightarrow> session_step v v'"
| expire_stale: "ExpireStale now v = Some (v', ids) \<Longrightarrow> session_step v v'"
| leases: "lease_step (sv_leases v, e) (m', e') \<Longrightarrow> session_step v (v\<lparr>sv_leases := m'\<rparr>)"
| put_delete: "store_ready 1 (sv_store v) \<Longrightarrow> store_write x (sv_store v) = Some s' \<Longrightarrow>
    session_step v (v\<lparr>sv_store := s'\<rparr>)"
| reclaim: "Suc (unat b) < 2 ^ 63 \<Longrightarrow> session_step v (v\<lparr>sv_store := fst (Reclaim (sv_store v) b)\<rparr>)"
| begin_read: "session_step v (v\<lparr>sv_store := fst (BeginRead (sv_store v) rv)\<rparr>)"
| end_read: "session_step v (v\<lparr>sv_store := snd (Reader_Close rd (sv_store v))\<rparr>)"
| deliver: "thread_step a k t \<lparr>ws_store = sv_store v, ws_mgr = sv_watcher v, ws_threads = ts, ws_got = g,
    ws_sent = x\<rparr> r \<Longrightarrow> session_step v (v\<lparr>sv_store := ws_store r, sv_watcher := ws_mgr r\<rparr>)"
| locks: "session_step v (v\<lparr>sv_locks := lk\<rparr>)"

definition session_start :: "services \<Rightarrow> bool" where
  "session_start v \<longleftrightarrow> (\<exists>cap < 2 ^ 63. sv_store v = New cap) \<and> sv_watcher v = NewWatcher
     \<and> sv_leases v = NewLeaseMgr \<and> (\<exists>d. sv_mgr v = NewSessionMgr d)"

lemma thread_step_keys:
  assumes "thread_step a k t r r'"
  shows "\<forall>b. sub_key (w_heap (ws_mgr r') ! b) = sub_key (w_heap (ws_mgr r) ! b)"
proof -
  have upd: "sub_key (w_heap (ws_mgr (upd_sub a sub q)) ! b) = sub_key (w_heap (ws_mgr q) ! b)"
    if "sub_key sub = sub_key (the_sub a q)" for sub q b
    using that by (cases "b = a"; cases "a < length (w_heap (ws_mgr q))")
      (simp_all add: upd_sub_def set_sub_def the_sub_def list_update_beyond)
  show ?thesis
    using assms by (cases; auto simp: Let_def upd dest!: scheduleRetry_sel)
qed

lemma services_ok_store:
  assumes "services_ok v" and "tracks h s'" and "grows (sv_store v) s'"
  shows "services_ok (v\<lparr>sv_store := s'\<rparr>)"
  using assms watcher_ok_grows by (intro services_okI [of h]) (auto simp: services_ok_def)

lemma grows_heap:
  "\<forall>i. map_of (streamHeap s') i =
     (if i \<in> A then map_option f (map_of (streamHeap s) i) else map_of (streamHeap s) i) \<Longrightarrow> grows s s'"
  by (simp add: grows_def)

lemma store_write_grows:
  assumes "store_ready 1 s" and "store_write x s = Some s'"
  shows "\<exists>h. tracks h s'" "grows s s'"
proof -
  obtain h where h: "tracks h s" "Suc (length h) < 2 ^ 63"
    using assms(1) by (auto simp: store_ready_def tracks_def)
  from store_write_runs [of 0 s x] assms show "\<exists>h. tracks h s'" by (auto simp: store_ready_def)
  show "grows s s'" using assms(2) by (cases x) (auto dest: Put_grows Delete_grows)
qed

lemma session_step_ok:
  assumes "services_ok v" and "session_step v v'"
  shows "services_ok v'"
proof -
  obtain h where tr: "tracks h (sv_store v)" and wok: "watcher_ok (sv_store v) (sv_watcher v)"
    and lok: "lease_ok (sv_leases v)" and sok: "sessions_ok (sv_watcher v) (sv_mgr v)"
    using assms(1) by (auto simp: services_ok_def)
  have mgr: "services_ok (v\<lparr>sv_mgr := m\<rparr>)" if "sessions_ok (sv_watcher v) m" for m
    using tr wok lok that by (intro services_okI [of h]) simp_all
  from assms(2) show ?thesis
  proof cases
    case (connect now i m' r)
    then show ?thesis using mgr Connect_ok [OF sok, of now i] by simp
  next
    case (heartbeat now i m' r)
    then show ?thesis using mgr Session_Heartbeat_ok [OF sok, of now i] by simp
  next
    case (bind_lease i l m' r)
    then show ?thesis using mgr BindLease_ok [OF sok, of i l] by simp
  next
    case (register i key c r)
    then show ?thesis using RegisterWatch_runs [OF assms(1) tr, of i key c] by auto
  next
    case (attach now i j p)
    then show ?thesis using AttachPeer_ok [OF assms(1)] by simp
  next
    case (ack now i j c)
    then show ?thesis using AckWatch_ok [OF assms(1)] by simp
  next
    case (disconnect now i r)
    then show ?thesis
      using Disconnect_runs [OF assms(1) tr, of i _ now] assms(1)
      by (cases "map_of (sessions (sv_mgr v)) i") (force simp: Disconnect_def)+
  next
    case (close i)
    then show ?thesis
      using Session_Close_runs [OF assms(1) tr, of i] assms(1)
      by (cases "map_of (sessions (sv_mgr v)) i") (force simp: Session_Close_def)+
  next
    case (reconnect i now1 now2 r)
    then show ?thesis
    proof (cases "map_of (sessions (sv_mgr v)) i")
      case None
      then show ?thesis using reconnect assms(1) by (simp add: Reconnect_def)
    next
      case (Some sess)
      from Reconnect_runs [OF assms(1) this reconnect(1,2), of now2] reconnect(3)
      show ?thesis by (auto simp: Let_def)
    qed
  next
    case (expire_stale now ids)
    then show ?thesis
      using close_all_runs [OF assms(1) tr, of "stale_ids now (sv_mgr v)"] by (auto simp: ExpireStale_def Let_def)
  next
    case (leases e m' e')
    then have "lease_ok m'" using lease_step_inv [OF leases(2)] lok by (simp add: lease_inv_def)
    then show ?thesis using leases(1) tr wok sok by (auto intro: services_okI [of h])
  next
    case (put_delete x s')
    then show ?thesis using services_ok_store [OF assms(1)] store_write_grows by blast
  next
    case (reclaim b)
    then show ?thesis using services_ok_store [OF assms(1) Reclaim_tracks [OF tr]] by (simp add: grows_def)
  next
    case (begin_read rv)
    have "grows (sv_store v) (fst (BeginRead (sv_store v) rv))" by (simp add: grows_def BeginRead_def Let_def)
    then show ?thesis using begin_read services_ok_store [OF assms(1) BeginRead_tracks [OF tr]] by simp
  next
    case (end_read rd)
    have "grows (sv_store v) (snd (Reader_Close rd (sv_store v)))" by (simp add: grows_def Reader_Close_def)
    then show ?thesis using end_read services_ok_store [OF assms(1) Reader_Close_tracks [OF tr]] by simp
  next
    case (deliver a k t ts g x r)
    let ?r = "\<lparr>ws_store = sv_store v, ws_mgr = sv_watcher v, ws_threads = ts, ws_got = g, ws_sent = x\<rparr>"
    have st: "tracks h (ws_store r)" "grows (sv_store v) (ws_store r)"
      using thread_step_store [OF deliver(2)] tr by simp_all
    have w: "watcher_ok (sv_store v) (ws_mgr r)" "w_subs (ws_mgr r) = w_subs (sv_watcher v)"
      "w_nextID (ws_mgr r) = w_nextID (sv_watcher v)"
      using thread_step_watcher [OF deliver(2)] wok by simp_all
    have "watcher_moves (sv_watcher v) (ws_mgr r)"
      using thread_step_keys [OF deliver(2)] w(2,3) by (intro same_watches_moves) auto
    then show ?thesis
      using deliver(1) st lok watcher_ok_grows [OF w(1) st(2)] sessions_ok_moves [OF sok]
      by (auto intro: services_okI [of h])
  next
    case (locks lk)
    then show ?thesis using assms(1) by (simp add: services_ok_def)
  qed
qed

lemma session_start_ok: "session_start v \<Longrightarrow> services_ok v"
  using tracks_New watcher_ok_New
  by (auto simp: session_start_def NewSessionMgr_def sessions_ok_def lease_ok_def NewLeaseMgr_def
      intro!: services_okI [of "[]"])

interpretation session_runs: invariant_system session_start session_step services_ok
  by unfold_locales (auto intro: session_start_ok session_step_ok)

end
