(* ===== verification/SessionTheorems.thy ===== *)
theory SessionTheorems
  imports SessionRuns
begin

text \<open>
  The properties of client sessions: what a reconnect restores, what the stale loop closes, and
  how acknowledgements and concurrent registrations change which watches a session owns.
\<close>

lemma resume_plan_rows:
  "map (\<lambda>(j, a, k, c). (k, c)) (resume_plan ok keys n a ws) =
   map (\<lambda>(i, c). (case map_of keys i of None \<Rightarrow> [] | Some k \<Rightarrow> k, c)) (filter (\<lambda>(i, c). ok c) ws)"
  by (induction ok keys n a ws rule: resume_plan.induct) auto

lemma resume_plan_fresh:
  assumes "id_room (length ws) w" and "j \<in> fst ` set (resume_plan ok keys (w_nextID w) a ws)"
  shows "\<not> issued (w_nextID w) j"
proof -
  obtain m where "j = watch_id m" "w_nextID w < m"
    using resume_plan_ids [of "w_nextID w" ws j ok keys a] assms by (auto simp: id_room_def)
  then show ?thesis by (auto simp: issued_def)
qed

section \<open>Runs\<close>


definition services0 :: services where
  "services0 = \<lparr>sv_mgr = NewSessionMgr 60, sv_leases = NewLeaseMgr, sv_locks = NewLockMgr,
     sv_store = New 16, sv_watcher = NewWatcher, sv_closed = []\<rparr>"

definition services1 :: services where
  "services1 = services0\<lparr>sv_mgr := fst (Connect 0 (sv_mgr services0) ''s1'')\<rparr>"

lemma services0_start: "session_start services0"
proof -
  have "\<exists>cap < 2 ^ 63. New 16 = New cap" by (rule exI [of _ 16]) simp
  then show ?thesis by (auto simp: session_start_def services0_def)
qed

lemma services1_step: "session_step services0 services1"
  unfolding services1_def by (rule session_step.connect [of 0 services0 "''s1''" _ None]) code_simp


section \<open>Reconnecting\<close>


definition services2 :: services where
  "services2 = (case RegisterWatch services1 ''s1'' ''k'' 0 of Some (v, _) \<Rightarrow> v | None \<Rightarrow> services1)"

lemma services1_ok: "services_ok services1" "tracks [] (sv_store services1)"
proof -
  show "services_ok services1"
    by (rule session_runs.reachable_inv [OF services0_start r_into_rtranclp, of services1]) (rule services1_step)
  show "tracks [] (sv_store services1)" using tracks_New [of 16] by (simp add: services1_def services0_def)
qed

lemma services1_sel:
  "sv_watcher services1 = NewWatcher" "sv_store services1 = New 16" "sv_leases services1 = NewLeaseMgr"
  "map_of (sessions (sv_mgr services1)) ''s1'' = Some \<lparr>s_ID = ''s1'', s_State = SessionConnected,
     s_LeaseIDs = [], s_Watches = [], s_Keys = [], s_Chans = [], s_LastSeen = 0\<rparr>"
  by (simp_all add: services1_def services0_def Connect_def NewSessionMgr_def put_session_def)

lemma services2_facts:
  "services_ok services2" "tracks [] (sv_store services2)" "head (sv_store services2) = 0"
  "w_nextID (sv_watcher services2) = 1"
  "map_of (w_subs (sv_watcher services2)) (watch_id 1) = Some 0"
  "map_of (sessions (sv_mgr services2)) ''s1'' = Some \<lparr>s_ID = ''s1'', s_State = SessionConnected,
     s_LeaseIDs = [], s_Watches = [(watch_id 1, 0)], s_Keys = [(watch_id 1, ''k'')],
     s_Chans = [(watch_id 1, 0)], s_LastSeen = 0\<rparr>"
proof -
  have room: "id_room 1 (sv_watcher services1)" by (simp add: services1_sel id_room_def NewWatcher_def)
  have "resumable [] (New 16) 0" by (simp add: resumable_def New_def Let_def)
  moreover have "head (New 16) = 0" by (simp add: New_def Let_def)
  ultimately show "services_ok services2" "tracks [] (sv_store services2)" "head (sv_store services2) = 0"
    "w_nextID (sv_watcher services2) = 1"
    "map_of (w_subs (sv_watcher services2)) (watch_id 1) = Some 0"
    "map_of (sessions (sv_mgr services2)) ''s1'' = Some \<lparr>s_ID = ''s1'', s_State = SessionConnected,
       s_LeaseIDs = [], s_Watches = [(watch_id 1, 0)], s_Keys = [(watch_id 1, ''k'')],
       s_Chans = [(watch_id 1, 0)], s_LastSeen = 0\<rparr>"
    using RegisterWatch_runs [OF services1_ok room, of "''s1''" "''k''" 0]
    by (auto simp: services2_def services1_sel NewWatcher_def Let_def)
qed


section \<open>Stale sessions\<close>

lemma stale_ids_close: "stale_ids now (close_in ids m) = stale_ids now m"
proof -
  have "map fst (filter (\<lambda>(i, sess). P sess) (map (\<lambda>(i, sess). (i, f i sess)) xs)) =
      map fst (filter (\<lambda>(i, sess). P sess) xs)"
    if "\<And>i sess. P (f i sess) = P sess"
    for P and f :: "SessionID \<Rightarrow> Session \<Rightarrow> Session" and xs
    using that by (induction xs) auto
  from this [of "\<lambda>sess. staleAfter m \<le> saturate (now - s_LastSeen sess)"
      "\<lambda>i sess. if i \<in> ids then sess\<lparr>s_State := SessionClosed\<rparr> else sess" "sessions m"]
  show ?thesis by (simp add: stale_ids_def close_in_def)
qed

definition is_stale :: "Time \<Rightarrow> Duration \<Rightarrow> Session \<Rightarrow> bool" where
  "is_stale now d sess \<longleftrightarrow> d \<le> saturate (now - s_LastSeen sess)"

text \<open>
  C22: \<^verbatim>\<open>ExpireStale\<close> closes exactly the sessions last seen at least \<^verbatim>\<open>staleAfter\<close> ago and cancels
  exactly their watches; it removes no session and touches no lease. A session that was closed
  stays in the table and is reported as stale, and closed, again by the next round.
\<close>

theorem stale_sessions_closed:
  assumes "services_ok v"
  shows "\<exists>v' v''. ExpireStale now v = Some (v', map fst (filter (is_stale now (staleAfter (sv_mgr v)) \<circ> snd) (sessions (sv_mgr v))))
    \<and> services_ok v'
    \<and> (\<forall>i. map_of (sessions (sv_mgr v')) i = map_option (\<lambda>sess.
         if is_stale now (staleAfter (sv_mgr v)) sess then sess\<lparr>s_State := SessionClosed\<rparr> else sess) (map_of (sessions (sv_mgr v)) i))
    \<and> (\<forall>j. map_of (w_subs (sv_watcher v')) j =
         (if \<exists>i sess. map_of (sessions (sv_mgr v)) i = Some sess \<and> is_stale now (staleAfter (sv_mgr v)) sess \<and> j \<in> dom (map_of (s_Watches sess))
          then None else map_of (w_subs (sv_watcher v)) j))
    \<and> sv_leases v' = sv_leases v
    \<and> ExpireStale now v' = Some (v'', map fst (filter (is_stale now (staleAfter (sv_mgr v)) \<circ> snd) (sessions (sv_mgr v))))"
proof -
  let ?m = "sv_mgr v"
  define stale where "stale = is_stale now (staleAfter ?m)"
  obtain h where tr: "tracks h (sv_store v)" using assms(1) by (auto simp: services_ok_def)
  have wf: "mwf (sessions ?m)" using assms(1) by (simp add: services_ok_def sessions_ok_def)
  have ids: "stale_ids now ?m = map fst (filter (stale \<circ> snd) (sessions ?m))"
    by (simp add: stale_ids_def stale_def is_stale_def case_prod_unfold comp_def)
  have mem: "i \<in> set (stale_ids now ?m) \<longleftrightarrow> stale sess" if "map_of (sessions ?m) i = Some sess" for i sess
    using that mwf_in_iff [OF wf, of i] by (force simp: ids)
  obtain v' where v': "close_all (stale_ids now ?m) v = Some v'" "services_ok v'" "tracks h (sv_store v')"
    "sv_mgr v' = close_in (set (stale_ids now ?m)) ?m"
    "cancelled (watches_in (set (stale_ids now ?m)) ?m) v v'"
    using close_all_runs [OF assms(1) tr] by blast
  have "stale_ids now (sv_mgr v') = stale_ids now ?m" by (simp add: v'(4) stale_ids_close)
  moreover obtain v'' where "close_all (stale_ids now ?m) v' = Some v''"
    using close_all_runs [OF v'(2,3)] by blast
  ultimately have again: "ExpireStale now v' = Some (v'', stale_ids now ?m)" by (simp add: ExpireStale_def)
  have look: "map_of (sessions (sv_mgr v')) i = map_option (\<lambda>sess.
      if stale sess then sess\<lparr>s_State := SessionClosed\<rparr> else sess) (map_of (sessions ?m) i)" for i
    using mem [of i] by (cases "map_of (sessions ?m) i") (simp_all add: v'(4) lookup_close_in)
  have "j \<in> watches_in (set (stale_ids now ?m)) ?m \<longleftrightarrow>
      (\<exists>i sess. map_of (sessions ?m) i = Some sess \<and> stale sess \<and> j \<in> dom (map_of (s_Watches sess)))" for j
    unfolding watches_in_def using mem by blast
  then have subs: "map_of (w_subs (sv_watcher v')) j =
      (if \<exists>i sess. map_of (sessions ?m) i = Some sess \<and> stale sess \<and> j \<in> dom (map_of (s_Watches sess))
       then None else map_of (w_subs (sv_watcher v)) j)" for j
    using v'(5) by (simp add: cancelled_def)
  have "sv_leases v' = sv_leases v" using v'(5) by (simp add: cancelled_def)
  moreover have "ExpireStale now v = Some (v', stale_ids now ?m)" using v'(1) by (simp add: ExpireStale_def)
  ultimately show ?thesis
    using v'(2) look subs again unfolding ids stale_def by blast
qed

theorem stale_sessions_closed_witness:
  "\<exists>v'. ExpireStale 100 services2 = Some (v', [''s1''])
     \<and> map_option s_State (map_of (sessions (sv_mgr v')) ''s1'') = Some SessionClosed"
proof -
  have stale: "staleAfter (sv_mgr services2) = 60" "map fst (sessions (sv_mgr services2)) = [''s1'']"
    by code_simp+
  then obtain sess where "sessions (sv_mgr services2) = [(''s1'', sess)]" by auto
  then have "sessions (sv_mgr services2) = [(''s1'', sess)]" "s_LastSeen sess = 0"
    using services2_facts(6) by auto
  with stale_sessions_closed [OF services2_facts(1), of 100] services2_facts(6) show ?thesis
    by (auto simp: is_stale_def stale(1) is_stale_def saturate_def)
qed

section \<open>Who owns a watch\<close>

text \<open>
  Acknowledging a watch makes it the session's own, whoever registered it: the next
  disconnect of the session cancels it, and a reconnect instead watches again under the empty
  key, which every event matches.
\<close>

theorem ack_adopts_any_watch:
  assumes "services_ok v" and "map_of (sessions (sv_mgr v)) i = Some sess"
    and "s_LeaseIDs sess = []" and "j \<notin> dom (map_of (s_Watches sess))"
    and "0 < rv" and "head (sv_store v) \<le> rv"
    and "id_room (Suc (length (s_Watches sess))) (sv_watcher v)"
    and "unat (head (sv_store v)) < 2 ^ 63"
  shows "(\<exists>v1. Disconnect now (AckWatch now v i j rv) i = Some (v1, None)
        \<and> map_of (w_subs (sv_watcher v1)) j = None)
    \<and> (\<exists>v2 restored sess2 j2 a. Reconnect (Some expiryHandler) now now (AckWatch now v i j rv) i = Some (v2, Inr restored)
        \<and> map_of (sessions (sv_mgr v2)) i = Some sess2
        \<and> map_of (s_Keys sess2) j2 = Some [] \<and> map_of (s_Watches sess2) j2 = Some rv
        \<and> map_of (w_subs (sv_watcher v2)) j2 = Some a \<and> (\<forall>ev. Match ev (sub_key (w_heap (sv_watcher v2) ! a))))"
proof -
  let ?v = "AckWatch now v i j rv"
  let ?sess = "sess\<lparr>s_Watches := mput j rv (s_Watches sess), s_LastSeen := now\<rparr>"
  have ok: "services_ok ?v" by (rule AckWatch_ok [OF assms(1)])
  have sok: "session_ok (sv_watcher v) i sess" using assms(1,2) by (auto simp: services_ok_def sessions_okD)
  obtain h where tr: "tracks h (sv_store v)" using assms(1) by (auto simp: services_ok_def)
  have "map_of (s_Watches sess) j = None" using assms(4) by (simp add: domIff)
  then have s: "map_of (sessions (sv_mgr ?v)) i = Some ?sess"
    using assms(2,5) by (simp add: AckWatch_def)
  have st: "sv_store ?v = sv_store v" "sv_leases ?v = sv_leases v" "sv_locks ?v = sv_locks v"
    "w_nextID (sv_watcher ?v) = w_nextID (sv_watcher v)"
    by (simp_all add: AckWatch_def)
  have "tracks h (sv_store ?v)" using tr by (simp add: st)
  from Disconnect_runs [OF ok this s, of now] obtain v1 where
    "Disconnect now ?v i = Some (v1, None)" "cancelled (dom (map_of (s_Watches ?sess))) ?v v1" by auto
  then have A: "\<exists>v1. Disconnect now ?v i = Some (v1, None) \<and> map_of (w_subs (sv_watcher v1)) j = None"
    by (auto simp: cancelled_def)
  have fresh: "j \<notin> fst ` set (s_Watches sess)"
    using assms(4) by (simp add: dom_map_of_conv_image_fst)
  have "watch_room ?v i" using s assms(7) by (simp add: watch_room_def st id_room_def mput_fresh [OF fresh])
  moreover have "store_ready (renewal_room now ?v i) (sv_store ?v)"
    using tr assms(3,8) s by (auto simp: renewal_room_def store_ready_def st)
  ultimately obtain l1 s1 h1 v2 where r:
    "let plan = resume_plan (resumable h1 s1) (s_Keys ?sess) (w_nextID (sv_watcher ?v))
        (length (w_heap (sv_watcher ?v))) (s_Watches ?sess) in
      RenewMany (Some expiryHandler) (sv_leases ?v, (sv_locks ?v, sv_store ?v)) (s_LeaseIDs ?sess) now =
        Some ((l1, (sv_locks ?v, s1)), filter (\<lambda>l. renew_error (sv_leases ?v) l now = None) (s_LeaseIDs ?sess))
      \<and> Reconnect (Some expiryHandler) now now ?v i = Some (v2, Inr (plan_chans plan))
      \<and> sv_mgr v2 = put_session (sv_mgr ?v) i
          (?sess\<lparr>s_State := SessionConnected, s_LastSeen := now, s_Watches := plan_watches plan,
                s_Keys := plan_keys plan, s_Chans := plan_chans plan\<rparr>)
      \<and> map_of (w_subs (sv_watcher v2)) = map_of (w_subs (sv_watcher ?v)) ++ map_of (plan_chans plan)
      \<and> (\<forall>(j, a, k, c) \<in> set plan. opened_sub j k c (w_heap (sv_watcher v2) ! a))"
    using Reconnect_runs [OF ok s, of now now] unfolding Let_def by blast
  define plan where "plan = resume_plan (resumable h1 s1) (s_Keys ?sess) (w_nextID (sv_watcher ?v))
        (length (w_heap (sv_watcher ?v))) (s_Watches ?sess)"
  note r = r [unfolded Let_def plan_def [symmetric]]
  have "s1 = sv_store v" using r assms(3) by (simp add: st)
  then have res: "resumable h1 s1 rv" using assms(6) by (simp add: resumable_def)
  have "map_of (s_Keys sess) j = None"
    using sok assms(4) by (auto simp: session_ok_def)
  then have "([], rv) \<in> set (map (\<lambda>(j, c). (case map_of (s_Keys ?sess) j of None \<Rightarrow> [] | Some k \<Rightarrow> k, c))
      (filter (\<lambda>(j, c). resumable h1 s1 c) (s_Watches ?sess)))"
    using res by (force simp: mput_fresh [OF fresh])
  then have "([], rv) \<in> set (map (\<lambda>(j, a, k, c). (k, c)) plan)"
    unfolding plan_def resume_plan_rows .
  then obtain j2 a where row: "(j2, a, [], rv) \<in> set plan" by auto
  have "unat (w_nextID (sv_watcher ?v)) + length (s_Watches ?sess) < 2 ^ 64"
    using assms(7) by (simp add: id_room_def st mput_fresh [OF fresh])
  then have dist: "distinct (map fst plan)" unfolding plan_def by (rule distinct_resume_plan)
  have "sub_key (w_heap (sv_watcher v2) ! a) = []" using r row by (auto simp: opened_sub_def)
  then have match: "\<forall>ev. Match ev (sub_key (w_heap (sv_watcher v2) ! a))" by (simp add: Match_def)
  have "map_of (w_subs (sv_watcher v2)) j2 = Some a"
    using r lookup_plan(3) [OF dist row] by (simp add: map_add_def)
  with r lookup_plan(4,5) [OF dist row] match
  have "\<exists>v2 restored sess2 j2 a. Reconnect (Some expiryHandler) now now ?v i = Some (v2, Inr restored)
        \<and> map_of (sessions (sv_mgr v2)) i = Some sess2
        \<and> map_of (s_Keys sess2) j2 = Some [] \<and> map_of (s_Watches sess2) j2 = Some rv
        \<and> map_of (w_subs (sv_watcher v2)) j2 = Some a \<and> (\<forall>ev. Match ev (sub_key (w_heap (sv_watcher v2) ! a)))"
    by (intro exI [of _ v2] exI [of _ "plan_chans plan"] exI [of _ "?sess\<lparr>s_State := SessionConnected,
        s_LastSeen := now, s_Watches := plan_watches plan, s_Keys := plan_keys plan, s_Chans := plan_chans plan\<rparr>"]
        exI [of _ j2] exI [of _ a]) simp
  with A show ?thesis by blast
qed

theorem ack_adopts_any_watch_witness:
  "\<exists>v1. Disconnect 1 (AckWatch 1 services1 ''s1'' ''watch-7'' 3) ''s1'' = Some (v1, None)"
proof -
  have "head (New 16) = 0" by (simp add: New_def Let_def)
  then show ?thesis
    using ack_adopts_any_watch [OF services1_ok(1) services1_sel(4), of "''watch-7''" 3 1]
    by (auto simp: services1_sel id_room_def NewWatcher_def)
qed

section \<open>Registering during a reconnect\<close>

text \<open>
  A watch registered for a session between the second and the last critical section of its
  \<^verbatim>\<open>Reconnect\<close> is forgotten: the last section overwrites the session's maps, the watch stays active
  in the watcher, and closing the session does not cancel it.
\<close>

theorem register_during_reconnect_forgotten:
  assumes "services_ok v" and "map_of (sessions (sv_mgr v)) i = Some sess"
    and "id_room (Suc (length (s_Watches sess))) (sv_watcher v)" and "head (sv_store v) \<le> rv"
  shows "\<exists>m1 v1 j a v2 restored v3.
      Reconnect_mark now (sv_mgr v) i = Some (m1, s_Watches sess, s_Keys sess)
      \<and> RegisterWatch (v\<lparr>sv_mgr := m1\<rparr>) i key rv = Some (v1, Inr (j, a))
      \<and> Reconnect_finish v1 i (s_Watches sess) (s_Keys sess) = Some (v2, restored)
      \<and> (\<forall>sess2. map_of (sessions (sv_mgr v2)) i = Some sess2 \<longrightarrow>
           j \<notin> dom (map_of (s_Watches sess2)) \<and> j \<notin> dom (map_of restored))
      \<and> Session_Close v2 i = Some v3
      \<and> map_of (w_subs (sv_watcher v3)) j = Some a \<and> \<not> sub_closed (w_heap (sv_watcher v3) ! a)"
proof -
  let ?sess = "sess\<lparr>s_State := SessionConnected, s_LastSeen := now\<rparr>"
  let ?v = "v\<lparr>sv_mgr := put_session (sv_mgr v) i ?sess\<rparr>"
  obtain h where tr: "tracks h (sv_store v)" using assms(1) by (auto simp: services_ok_def)
  have "session_ok (sv_watcher v) i sess" using assms(1,2) by (auto simp: services_ok_def sessions_okD)
  then have ok: "services_ok ?v" by (intro services_ok_put [OF assms(1)]) (simp add: session_ok_def)
  have mark: "Reconnect_mark now (sv_mgr v) i = Some (put_session (sv_mgr v) i ?sess, s_Watches sess, s_Keys sess)"
    using assms(2) by (simp add: Reconnect_mark_def)
  have room1: "id_room 1 (sv_watcher ?v)" using assms(3) by (auto intro: id_room_less)
  have tr': "tracks h (sv_store ?v)" using tr by simp
  let ?j = "watch_id (w_nextID (sv_watcher v) + 1)" and ?a = "length (w_heap (sv_watcher v))"
  have "resumable h (sv_store ?v) rv" using assms(4) by (simp add: resumable_def)
  with RegisterWatch_runs [OF ok tr' room1, of i key rv] obtain v1 sess1 where
    v1: "RegisterWatch ?v i key rv = Some (v1, Inr (?j, ?a))" "services_ok v1" "tracks h (sv_store v1)"
      "w_nextID (sv_watcher v1) = w_nextID (sv_watcher v) + 1"
      "map_of (w_subs (sv_watcher v1)) ?j = Some ?a" "map_of (sessions (sv_mgr v1)) i = Some sess1"
    by (auto simp: Let_def)
  have room: "id_room (length (s_Watches sess)) (sv_watcher v1)"
    using assms(3) next_id(1) [of "sv_watcher v"] room1 by (simp add: id_room_def v1(4))
  let ?plan = "resume_plan (resumable h (sv_store v1)) (s_Keys sess) (w_nextID (sv_watcher v1))
      (length (w_heap (sv_watcher v1))) (s_Watches sess)"
  obtain v2 where v2: "Reconnect_finish v1 i (s_Watches sess) (s_Keys sess) = Some (v2, plan_chans ?plan)"
    "services_ok v2" "tracks h (sv_store v2)"
    "sv_mgr v2 = put_session (sv_mgr v1) i
       (sess1\<lparr>s_Watches := plan_watches ?plan, s_Keys := plan_keys ?plan, s_Chans := plan_chans ?plan\<rparr>)"
    "map_of (w_subs (sv_watcher v2)) = map_of (w_subs (sv_watcher v1)) ++ map_of (plan_chans ?plan)"
    using Reconnect_finish_runs [OF v1(2,3,6) room refl, of "s_Keys sess"] by blast
  have "issued (w_nextID (sv_watcher v1)) ?j" by (auto simp: issued_def v1(4))
  then have notin: "?j \<notin> fst ` set ?plan" using resume_plan_fresh [OF room] by blast
  then have out: "?j \<notin> dom (map_of (plan_watches ?plan))" "?j \<notin> dom (map_of (plan_chans ?plan))"
    by (simp_all add: dom_map_of_conv_image_fst)
  let ?sess2 = "sess1\<lparr>s_Watches := plan_watches ?plan, s_Keys := plan_keys ?plan, s_Chans := plan_chans ?plan\<rparr>"
  have s2: "map_of (sessions (sv_mgr v2)) i = Some ?sess2" by (simp add: v2(4))
  have "map_of (w_subs (sv_watcher v2)) ?j = Some ?a"
    using out(2) v1(5) by (simp add: v2(5) map_add_dom_app_simps(3))
  moreover obtain v3 where v3: "Session_Close v2 i = Some v3" "services_ok v3"
    "cancelled (dom (map_of (s_Watches ?sess2))) v2 v3"
    using Session_Close_runs [OF v2(2,3) s2] by blast
  ultimately have active: "map_of (w_subs (sv_watcher v3)) ?j = Some ?a"
    using out(1) by (simp add: cancelled_def)
  moreover have "\<not> sub_closed (w_heap (sv_watcher v3) ! ?a)"
    using watcher_okD(2) [OF _ active] v3(2) by (auto simp: services_ok_def sub_ok_def)
  ultimately show ?thesis
    using mark v1(1) v2(1) v3(1) s2 out by (auto intro!: exI)
qed

theorem register_during_reconnect_forgotten_witness:
  "\<exists>m1 v1 j a. Reconnect_mark 1 (sv_mgr services2) ''s1'' =
       Some (m1, [(watch_id 1, 0)], [(watch_id 1, ''k'')])
     \<and> RegisterWatch (services2\<lparr>sv_mgr := m1\<rparr>) ''s1'' ''z'' 0 = Some (v1, Inr (j, a))"
proof -
  have "id_room 2 (sv_watcher services2)" by (simp add: id_room_def services2_facts)
  then show ?thesis
    using register_during_reconnect_forgotten [OF services2_facts(1,6), of 0 1 "''z''"]
    by (auto simp: services2_facts(3) numeral_2_eq_2)
qed

end
