(* ===== verification/Hash.thy ===== *)
theory Hash
  imports Store
begin

unbundle bit_operations_syntax

text \<open>
  Routing by hash: \<^verbatim>\<open>internal/store/hash.go\<close>, \<^verbatim>\<open>internal/watch/cursor.go\<close> and \<^verbatim>\<open>internal/watch/hash.go\<close>,
  with the portable \<^verbatim>\<open>Sum64\<close> of the vendored xxhash package (\<^verbatim>\<open>xxhash.go\<close>, \<^verbatim>\<open>xxhash_other.go\<close>) that
  they call. On amd64 and arm64 the package computes the same digest in assembly.
\<close>

section \<open>xxhash\<close>

definition prime1 :: uint64 where "prime1 = 11400714785074694791"
definition prime2 :: uint64 where "prime2 = 14029467366897019727"
definition prime3 :: uint64 where "prime3 = 1609587929392839161"
definition prime4 :: uint64 where "prime4 = 9650029242287828579"
definition prime5 :: uint64 where "prime5 = 2870177450012600261"

text \<open>\<^verbatim>\<open>binary.LittleEndian\<close>, on the bytes that the caller has cut off.\<close>

definition byte_at :: "char \<Rightarrow> uint64" where
  "byte_at c = of_nat (of_char c)"

fun little_endian :: "string \<Rightarrow> uint64" where
  "little_endian [] = 0"
| "little_endian (c # cs) = byte_at c + push_bit 8 (little_endian cs)"

definition u64 :: "string \<Rightarrow> nat \<Rightarrow> uint64" where
  "u64 b i = little_endian (take 8 (drop i b))"

definition u32 :: "string \<Rightarrow> uint64" where
  "u32 b = little_endian (take 4 b)"

definition xx_round :: "uint64 \<Rightarrow> uint64 \<Rightarrow> uint64" where
  "xx_round acc0 input = word_rotl 31 (acc0 + input * prime2) * prime1"

definition mergeRound :: "uint64 \<Rightarrow> uint64 \<Rightarrow> uint64" where
  "mergeRound acc0 val = (acc0 XOR xx_round 0 val) * prime1 + prime4"

text \<open>The four loops of \<^verbatim>\<open>Sum64\<close>, each with what it leaves of the input.\<close>

type_synonym lanes = "uint64 \<times> uint64 \<times> uint64 \<times> uint64"

function stripe_loop :: "lanes \<Rightarrow> string \<Rightarrow> lanes \<times> string" where
  "stripe_loop v b =
     (if 32 \<le> length b then
        (case v of (v1, v2, v3, v4) \<Rightarrow>
           stripe_loop (xx_round v1 (u64 b 0), xx_round v2 (u64 b 8), xx_round v3 (u64 b 16),
             xx_round v4 (u64 b 24)) (drop 32 b))
      else (v, b))"
  by pat_completeness auto
termination by (relation "measure (\<lambda>(v, b). length b)") auto

function word_loop :: "uint64 \<Rightarrow> string \<Rightarrow> uint64 \<times> string" where
  "word_loop h b =
     (if 8 \<le> length b
      then word_loop (word_rotl 27 (h XOR xx_round 0 (u64 b 0)) * prime1 + prime4) (drop 8 b)
      else (h, b))"
  by pat_completeness auto
termination by (relation "measure (\<lambda>(h, b). length b)") auto

fun byte_loop :: "uint64 \<Rightarrow> string \<Rightarrow> uint64" where
  "byte_loop h [] = h"
| "byte_loop h (c # cs) = byte_loop (word_rotl 11 (h XOR byte_at c * prime5) * prime1) cs"

declare stripe_loop.simps [simp del] word_loop.simps [simp del]

definition stripes_digest :: "string \<Rightarrow> uint64 \<times> string" where
  "stripes_digest b =
     (case stripe_loop (prime1 + prime2, prime2, 0, - prime1) b of
        ((v1, v2, v3, v4), b') \<Rightarrow>
          let h = word_rotl 1 v1 + word_rotl 7 v2 + word_rotl 12 v3 + word_rotl 18 v4
          in (mergeRound (mergeRound (mergeRound (mergeRound h v1) v2) v3) v4, b'))"

definition avalanche :: "uint64 \<Rightarrow> uint64" where
  "avalanche h0 =
     (let h1 = (h0 XOR drop_bit 33 h0) * prime2;
          h2 = (h1 XOR drop_bit 29 h1) * prime3
      in h2 XOR drop_bit 32 h2)"

definition Sum64 :: "string \<Rightarrow> uint64" where
  "Sum64 b =
     (let (h1, b1) = (if 32 \<le> length b then stripes_digest b else (prime5, b));
          (h2, b2) = word_loop (h1 + of_nat (length b)) b1;
          (h3, b3) = (if 4 \<le> length b2
                      then (word_rotl 23 (h2 XOR u32 b2 * prime1) * prime2 + prime3, drop 4 b2)
                      else (h2, b2))
      in avalanche (byte_loop h3 b3))"

section \<open>Shards and topics\<close>

definition HashKey :: "Key \<Rightarrow> uint64" where
  "HashKey key = Sum64 key"

definition ShardOf :: "Key \<Rightarrow> int \<Rightarrow> uint32" where
  "ShardOf key shards = (if shards \<le> 1 then 0 else ucast (HashKey key mod of_int shards))"

text \<open>\<^verbatim>\<open>Topic\<close> divides by the shard count: zero panics.\<close>

definition Topic :: "Key \<Rightarrow> int \<Rightarrow> uint32 option" where
  "Topic key shards =
     (if (of_int shards :: uint64) = 0 then None else Some (ucast (Sum64 key mod of_int shards)))"

section \<open>The published test vectors\<close>

text \<open>The digests of the empty string and of \<^verbatim>\<open>a\<close>, \<^verbatim>\<open>abc\<close> that the xxHash specification lists.\<close>

lemma Sum64_empty: "Sum64 [] = 0xEF46DB3751D8E999"
  by code_simp

lemma Sum64_a: "Sum64 ''a'' = 0xD24EC4F1A98C6E5B"
  by code_simp

lemma Sum64_abc: "Sum64 ''abc'' = 0x44BC2CF5AD770999"
  by code_simp

section \<open>Ranges\<close>

lemma shards_word:
  assumes "1 \<le> n" and "n \<le> 2 ^ 32"
  shows "uint (of_int n :: uint64) = n" "(of_int n :: uint64) \<noteq> 0"
proof -
  show u: "uint (of_int n :: uint64) = n"
    using assms by (simp add: uint_word_of_int_eq take_bit_int_eq_self)
  then show "(of_int n :: uint64) \<noteq> 0" using assms(1) by auto
qed

lemma hash_mod_range:
  assumes "1 \<le> n" and "n \<le> 2 ^ 32"
  shows "uint (ucast (Sum64 key mod of_int n :: uint64) :: uint32) = uint (Sum64 key) mod n"
proof -
  have "uint (Sum64 key mod of_int n :: uint64) = uint (Sum64 key) mod n"
    using shards_word(1) [OF assms] by (simp add: uint_mod)
  moreover have "uint (Sum64 key) mod n < 2 ^ 32"
    using assms pos_mod_bound [of n "uint (Sum64 key)"] by linarith
  moreover have "0 \<le> uint (Sum64 key) mod n" using assms by simp
  ultimately show ?thesis
    by (simp add: unsigned_ucast_eq take_bit_int_eq_self)
qed

lemma Topic_range:
  assumes "1 \<le> n" and "n \<le> 2 ^ 32"
  shows "\<exists>t. Topic key n = Some t \<and> uint t = uint (Sum64 key) mod n"
  using hash_mod_range [OF assms] shards_word(2) [OF assms] by (simp add: Topic_def)

lemma ShardOf_range:
  assumes "1 \<le> n" and "n \<le> 2 ^ 32"
  shows "uint (ShardOf key n) = uint (HashKey key) mod n"
proof (cases "n = 1")
  case True
  then show ?thesis by (simp add: ShardOf_def)
next
  case False
  then show ?thesis using hash_mod_range [OF assms] assms by (simp add: ShardOf_def HashKey_def)
qed

lemma ShardCount_range: "1 \<le> int (ShardCount s) \<and> int (ShardCount s) \<le> 4"
  by (simp add: ShardCount_def)

end
