(* ===== verification/Settings.thy ===== *)
theory Settings
  imports Leases
begin

text \<open>
  The settings of the service (\<^verbatim>\<open>cmd/coordination/config.go\<close>) and the choice of its clock
  (\<^verbatim>\<open>main.go\<close>). \<open>env\<close> is \<^verbatim>\<open>os.Getenv\<close>, the empty string for a variable that is not set. The parsers
  \<^verbatim>\<open>time.ParseDuration\<close> and \<^verbatim>\<open>time.Parse\<close> of the standard library are arguments: their results are
  taken as they are.
\<close>

section \<open>Settings\<close>

record Config =
  cfg_ListenAddr :: string
  cfg_StoreLogCapacity :: int
  cfg_LeaseTTL :: Duration
  cfg_ExpiryInterval :: Duration
  cfg_HeartbeatInterval :: Duration
  cfg_StaleAfter :: Duration
  cfg_NodeName :: string
  cfg_ManualClockAt :: string
  cfg_RetainRevisions :: uint64

type_synonym environment = "string \<Rightarrow> string"

definition envOr :: "environment \<Rightarrow> string \<Rightarrow> string \<Rightarrow> string" where
  "envOr env key fallback = (if env key \<noteq> [] then env key else fallback)"

definition envInt :: "environment \<Rightarrow> string \<Rightarrow> int \<Rightarrow> int" where
  "envInt env key fallback =
     (if env key \<noteq> [] then (case Atoi (env key) of Some parsed \<Rightarrow> parsed | None \<Rightarrow> fallback) else fallback)"

definition envUint :: "environment \<Rightarrow> string \<Rightarrow> uint64 \<Rightarrow> uint64" where
  "envUint env key fallback =
     (if env key \<noteq> [] then (case ParseUint (env key) of Some parsed \<Rightarrow> parsed | None \<Rightarrow> fallback) else fallback)"

definition envDur ::
  "(string \<Rightarrow> Duration option) \<Rightarrow> environment \<Rightarrow> string \<Rightarrow> Duration \<Rightarrow> Duration" where
  "envDur ParseDuration env key fallback =
     (if env key \<noteq> [] then (case ParseDuration (env key) of Some parsed \<Rightarrow> parsed | None \<Rightarrow> fallback)
      else fallback)"

definition Second :: Duration where "Second = 1000000000"
definition Millisecond :: Duration where "Millisecond = 1000000"

definition loadConfig :: "(string \<Rightarrow> Duration option) \<Rightarrow> environment \<Rightarrow> Config" where
  "loadConfig ParseDuration env =
     \<lparr>cfg_ListenAddr = envOr env ''COORD_LISTEN'' ''127.0.0.1:18081'',
      cfg_StoreLogCapacity = envInt env ''COORD_STORE_LOG'' 1024,
      cfg_LeaseTTL = envDur ParseDuration env ''COORD_LEASE_TTL'' (30 * Second),
      cfg_ExpiryInterval = envDur ParseDuration env ''COORD_EXPIRY_INTERVAL'' Second,
      cfg_HeartbeatInterval = envDur ParseDuration env ''COORD_HEARTBEAT_INTERVAL'' (5 * Second),
      cfg_StaleAfter = envDur ParseDuration env ''COORD_STALE_AFTER'' (60 * Second),
      cfg_NodeName = envOr env ''COORD_NODE'' ''node-1'',
      cfg_ManualClockAt = env ''COORD_MANUAL_CLOCK_AT'',
      cfg_RetainRevisions = envUint env ''COORD_RETAIN_REVISIONS'' 256\<rparr>"

section \<open>Clocks\<close>

definition buildClock :: "(string \<Rightarrow> Time option) \<Rightarrow> Config \<Rightarrow> Clock" where
  "buildClock Parse cfg =
     (if cfg_ManualClockAt cfg \<noteq> [] then
        (case Parse (cfg_ManualClockAt cfg) of Some at \<Rightarrow> ManualClock at | None \<Rightarrow> WallClock)
      else WallClock)"

definition buildHeartbeatClock :: "(string \<Rightarrow> Time option) \<Rightarrow> Config \<Rightarrow> Clock" where
  "buildHeartbeatClock Parse cfg =
     (if cfg_ManualClockAt cfg \<noteq> [] then
        (case Parse (cfg_ManualClockAt cfg) of Some at \<Rightarrow> ManualClock at | None \<Rightarrow> WallClock)
      else WallClock)"

end
