(* ===== verification/HttpServer.thy ===== *)
theory HttpServer
  imports Sessions ElectionRuns Hash Settings
begin

text \<open>
  The server behind the HTTP interface: its state (\<^verbatim>\<open>cmd/coordination/server.go\<close>), start-up
  (\<^verbatim>\<open>main.go\<close>), requests, replies and the route table. A request body is given as what
  \<^verbatim>\<open>encoding/json\<close> makes of it for the struct it is decoded into: the struct, or the text of the
  error. A reply is the status and the value handed to the JSON encoder.
\<close>

section \<open>State and start-up\<close>

record Server =
  srv_cfg :: Config
  srv_sv :: services
  srv_el :: Election
  srv_clock :: Clock
  srv_hbClock :: Clock

definition NewServer :: "Config \<Rightarrow> services \<Rightarrow> Election \<Rightarrow> Clock \<Rightarrow> Clock \<Rightarrow> Server" where
  "NewServer cfg v e clock hbClock =
     \<lparr>srv_cfg = cfg, srv_sv = v, srv_el = e, srv_clock = clock, srv_hbClock = hbClock\<rparr>"

text \<open>
  \<^verbatim>\<open>time.NewTicker\<close> panics for an interval that is not positive, in the goroutine that calls it,
  which ends the process. The heartbeat and the stale loop halve their interval; the reclaim
  loop's is constant, and the expiry loop uses \<^verbatim>\<open>time.After\<close>, which takes any interval.
\<close>

definition NewTicker :: "Duration \<Rightarrow> unit option" where
  "NewTicker d = (if 0 < d then Some () else None)"

definition startup ::
  "(string \<Rightarrow> Duration option) \<Rightarrow> (string \<Rightarrow> Time option) \<Rightarrow> environment \<Rightarrow> Server option" where
  "startup ParseDuration Parse env =
     (let cfg = loadConfig ParseDuration env;
          clock = buildClock Parse cfg;
          st = New (cfg_StoreLogCapacity cfg);
          el = Follow (NewElection (cfg_NodeName cfg) (cfg_LeaseTTL cfg) (cfg_HeartbeatInterval cfg))
      in do {
        _ \<leftarrow> NewTicker (cfg_HeartbeatInterval cfg sdiv 2);
        _ \<leftarrow> NewTicker (cfg_StaleAfter cfg sdiv 2);
        _ \<leftarrow> NewTicker (2 * Second);
        Some (NewServer cfg
          \<lparr>sv_mgr = NewSessionMgr (cfg_StaleAfter cfg), sv_leases = NewLeaseMgr, sv_locks = NewLockMgr,
           sv_store = st, sv_watcher = NewWatcher, sv_closed = []\<rparr>
          el clock (buildHeartbeatClock Parse cfg))
      })"

text \<open>The lease manager with what its callback reaches, as a part of the services.\<close>

definition lease_part :: "services \<Rightarrow> lease_world" where
  "lease_part v = (sv_leases v, (sv_locks v, sv_store v))"

definition set_lease_part :: "lease_world \<Rightarrow> services \<Rightarrow> services" where
  "set_lease_part w v = (case w of (m, (lk, s)) \<Rightarrow> v\<lparr>sv_leases := m, sv_locks := lk, sv_store := s\<rparr>)"

definition set_sv :: "Server \<Rightarrow> services \<Rightarrow> Server" where
  "set_sv sv v = sv\<lparr>srv_sv := v\<rparr>"

section \<open>Requests\<close>

record kvPutRequest =
  kp_Key :: string
  kp_Value :: string
  kp_LeaseID :: LeaseID

record leaseRequest =
  lr_ID :: LeaseID
  lr_TTLMS :: int
  lr_Holder :: string

record lockRequest =
  kr_ID :: LockID
  kr_Client :: string
  kr_LeaseID :: LeaseID
  kr_TimeoutMS :: int

record sessionRequest =
  sr_ID :: SessionID
  sr_LeaseID :: LeaseID

record electionRequest =
  er_Name :: string
  er_NewTerm :: Term
  er_NewName :: string

type_synonym 'a body = "string + 'a"

text \<open>\<open>http_Query\<close> is \<^verbatim>\<open>r.URL.Query().Get\<close>.\<close>

record Request =
  http_Path :: string
  http_Query :: "string \<Rightarrow> string"
  http_kv :: "kvPutRequest body"
  http_lease :: "leaseRequest body"
  http_ids :: "LeaseID list body"
  http_lock :: "lockRequest body"
  http_session :: "sessionRequest body"
  http_election :: "electionRequest body"

section \<open>Replies\<close>

text \<open>Durations, times and byte slices stand for the text that Go renders them to.\<close>

datatype payload =
  PNull | PBool bool | PInt int | PStr string | PBytes Value | PDuration Duration | PTime Time
| PList "payload list" | PObj "(string \<times> payload) list"

datatype Response = Reply nat payload | ConsolePage | NotFoundPage | MovedTo string

definition writeJSON :: "nat \<Rightarrow> (string \<times> payload) list \<Rightarrow> Response" where
  "writeJSON status kvs = Reply status (PObj kvs)"

definition StatusOK :: nat where "StatusOK = 200"
definition StatusBadRequest :: nat where "StatusBadRequest = 400"
definition StatusNotFound :: nat where "StatusNotFound = 404"
definition StatusConflict :: nat where "StatusConflict = 409"
definition StatusInternalServerError :: nat where "StatusInternalServerError = 500"

lemmas status_defs = StatusOK_def StatusBadRequest_def StatusNotFound_def StatusConflict_def
  StatusInternalServerError_def

definition errorJSON :: "nat \<Rightarrow> string \<Rightarrow> Response" where
  "errorJSON status msg = writeJSON status [(''error'', PStr msg)]"

fun StoreError_text :: "StoreError \<Rightarrow> string" where
  "StoreError_text ErrVersionReclaimed = ''store: version was reclaimed''"
| "StoreError_text ErrKeyMissing = ''store: key has no visible version''"
| "StoreError_text ErrNilValue = ''store: nil value''"

fun LeaseError_text :: "LeaseError \<Rightarrow> string" where
  "LeaseError_text ErrLeaseExpired = ''lease: expired or missing''"
| "LeaseError_text ErrLeaseExists = ''lease: already exists''"

fun LockError_text :: "LockError \<Rightarrow> string" where
  "LockError_text ErrUnlocked = ''lock: not held''"
| "LockError_text ErrNotHolder = ''lock: not the holder''"
| "LockError_text ErrTimedOut = ''lock: wait timed out''"
| "LockError_text errEntryGone = ''lock: entry vanished while waiting''"

fun SessionError_text :: "SessionError \<Rightarrow> string" where
  "SessionError_text ErrNoSession = ''session: not found''"

fun ElectionError_text :: "ElectionError \<Rightarrow> string" where
  "ElectionError_text ErrLostElection = ''election: leadership already held''"
| "ElectionError_text (LeaseFailed e) = LeaseError_text e"

section \<open>Routes\<close>

datatype route =
  RHealth | RConsole | RStatus | RKVPut | RKVSnapshot | RKVGet | RLeaseCreate | RLeaseRenew
| RLeaseBatchRenew | RLeaseRevoke | RLeaseGet | RLockAcquire | RLockRelease | RLockSnapshot | RWatch
| RSessionConnect | RSessionReconnect | RSessionStatus | RSessionResumeAll | RElectionCampaign
| RElectionHandoff | RElectionResign | RElectionStatus

definition Routes :: "(string \<times> route) list" where
  "Routes =
     [(''/healthz'', RHealth), (''/'', RConsole), (''/api/status'', RStatus),
      (''/api/kv/put'', RKVPut), (''/api/kv/snapshot'', RKVSnapshot), (''/api/kv/'', RKVGet),
      (''/api/lease/create'', RLeaseCreate), (''/api/lease/renew'', RLeaseRenew),
      (''/api/lease/batch-renew'', RLeaseBatchRenew), (''/api/lease/revoke'', RLeaseRevoke),
      (''/api/lease/'', RLeaseGet), (''/api/lock/acquire'', RLockAcquire),
      (''/api/lock/release'', RLockRelease), (''/api/lock/snapshot'', RLockSnapshot),
      (''/api/watch'', RWatch), (''/api/session/connect'', RSessionConnect),
      (''/api/session/reconnect'', RSessionReconnect), (''/api/session/status'', RSessionStatus),
      (''/api/session/resume-all'', RSessionResumeAll), (''/api/election/campaign'', RElectionCampaign),
      (''/api/election/handoff'', RElectionHandoff), (''/api/election/resign'', RElectionResign),
      (''/api/election/status'', RElectionStatus)]"

text \<open>
  \<^verbatim>\<open>http.ServeMux\<close> on a clean path: an exact pattern, or a redirect when only the path with a
  slash is a pattern, or the longest pattern ending in a slash that is a prefix of the path.
\<close>

fun longest_subtree :: "(string \<times> route) list \<Rightarrow> string \<Rightarrow> (string \<times> route) option" where
  "longest_subtree [] path = None"
| "longest_subtree ((pat, rt) # rest) path =
     (case longest_subtree rest path of
        None \<Rightarrow> if pat \<noteq> [] \<and> last pat = CHR ''/'' \<and> prefix pat path then Some (pat, rt) else None
      | Some (pat', rt') \<Rightarrow>
          if pat \<noteq> [] \<and> last pat = CHR ''/'' \<and> prefix pat path \<and> length pat' < length pat
          then Some (pat, rt) else Some (pat', rt'))"

definition ServeMux :: "string \<Rightarrow> (string + route) option" where
  "ServeMux path =
     (case map_of Routes path of
        Some rt \<Rightarrow> Some (Inr rt)
      | None \<Rightarrow>
          if map_of Routes (path @ ''/'') \<noteq> None then Some (Inl (path @ ''/''))
          else map_option (\<lambda>(pat, rt). Inr rt) (longest_subtree Routes path))"

definition nowOf :: "Server \<Rightarrow> Time \<Rightarrow> Time" where
  "nowOf sv real_time = Clock_Now (srv_clock sv) real_time"

text \<open>The console page is served for the root only.\<close>

definition handleConsole :: "Request \<Rightarrow> Response" where
  "handleConsole r = (if http_Path r \<noteq> ''/'' then NotFoundPage else ConsolePage)"

end
