(* ===== verification/Api.thy ===== *)
theory Api
  imports HttpServer
begin

text \<open>
  The request handlers (\<^verbatim>\<open>cmd/coordination/api.go\<close>). A handler takes the server and what it reads
  of the request and returns the server and the reply; \<open>None\<close> is a panic. \<open>now\<close>, \<open>t\<close> and \<open>hb\<close> are
  readings of the clocks. The reply of a handler that waits (\<^verbatim>\<open>handleLockAcquire\<close>, \<^verbatim>\<open>handleWatch\<close>) is
  given by its parts.
\<close>

section \<open>Health and status\<close>

definition handleHealth :: Response where
  "handleHealth = writeJSON StatusOK [(''status'', PStr ''ok'')]"

fun clockMode :: "Clock \<Rightarrow> string" where
  "clockMode WallClock = ''wall''"
| "clockMode (ManualClock t) = ''manual''"

text \<open>The loop over the snapshot stops after eight samples.\<close>

fun topic_samples :: "(Key \<times> VersionedValue) list \<Rightarrow> int \<Rightarrow> nat \<Rightarrow> (string \<times> payload) list option" where
  "topic_samples [] shards n = Some []"
| "topic_samples ((key, vv) # rest) shards n =
     (if 8 \<le> n then Some []
      else do {
        t \<leftarrow> Topic key shards;
        samples \<leftarrow> topic_samples rest shards (Suc n);
        Some ((key, PInt (uint t)) # samples)
      })"

definition handleStatus :: "Server \<Rightarrow> Response option" where
  "handleStatus sv =
     (let v = srv_sv sv;
          (role, trm, leader) = Current (srv_el sv);
          snap = Snapshot (sv_store v) (CurrentRev (sv_store v));
          shards = int (ShardCount (sv_store v));
          connected = length (SessionsByState (sv_mgr v) SessionConnected);
          disconnected = length (SessionsByState (sv_mgr v) SessionDisconnected)
      in do {
        samples \<leftarrow> topic_samples snap shards 0;
        Some (writeJSON StatusOK
          [(''node'', PStr (cfg_NodeName (srv_cfg sv))),
           (''clock_mode'', PStr (clockMode (srv_clock sv))),
           (''current_rev'', PInt (uint (CurrentRev (sv_store v)))),
           (''keys'', PInt (int (length snap))),
           (''shards'', PInt shards),
           (''leases'', PInt (int (LeaseCount (sv_leases v)))),
           (''locks'', PInt (int (LockCount (sv_locks v)))),
           (''watches'', PInt (int (WatchCount (sv_watcher v)))),
           (''sessions'', PInt (int (SessionCount (sv_mgr v)))),
           (''connected'', PInt (int connected)),
           (''disconnected'', PInt (int disconnected)),
           (''election_role'', PStr (Role_String role)),
           (''term'', PInt (uint trm)),
           (''leader'', PStr leader),
           (''can_lead'', PBool (CanLead role)),
           (''leader_lease'', PStr (LeaderLease (srv_el sv))),
           (''topic_samples'', PObj samples)])
      })"

section \<open>Keys\<close>

text \<open>
  \<^verbatim>\<open>BindKey\<close> and \<^verbatim>\<open>Put\<close> are two critical sections of two components, so the handler is also given
  by its two halves.
\<close>

definition kv_put_bind :: "Server \<Rightarrow> kvPutRequest \<Rightarrow> (Server \<times> LeaseError option) option" where
  "kv_put_bind sv req =
     (if kp_LeaseID req \<noteq> [] then do {
        (m', err) \<leftarrow> BindKey (sv_leases (srv_sv sv)) (kp_LeaseID req) (kp_Key req);
        Some (set_sv sv ((srv_sv sv)\<lparr>sv_leases := m'\<rparr>), err)
      }
      else Some (sv, None))"

definition kv_put_write :: "Server \<Rightarrow> kvPutRequest \<Rightarrow> (Server \<times> Response) option" where
  "kv_put_write sv req = do {
     (s', res) \<leftarrow> Put (sv_store (srv_sv sv)) (kp_Key req) (Some (kp_Value req));
     let sv' = set_sv sv ((srv_sv sv)\<lparr>sv_store := s'\<rparr>);
     Some (sv', case res of
       Inl err \<Rightarrow> errorJSON StatusInternalServerError (StoreError_text err)
     | Inr rv \<Rightarrow> writeJSON StatusOK [(''rev'', PInt (uint rv))])
   }"

definition handleKVPut :: "Server \<Rightarrow> kvPutRequest body \<Rightarrow> (Server \<times> Response) option" where
  "handleKVPut sv body =
     (case body of
        Inl err \<Rightarrow> Some (sv, errorJSON StatusBadRequest err)
      | Inr req \<Rightarrow>
          if kp_Key req = [] then Some (sv, errorJSON StatusBadRequest ''key is required'')
          else do {
            (sv1, err) \<leftarrow> kv_put_bind sv req;
            case err of
              Some e \<Rightarrow> Some (sv1, errorJSON StatusBadRequest (LeaseError_text e))
            | None \<Rightarrow> kv_put_write sv1 req
          })"

definition entry_payload_of :: "VersionedValue \<Rightarrow> payload" where
  "entry_payload_of vv = PObj [(''Value'', PBytes (vv_Value vv)), (''Rev'', PInt (uint (vv_Rev vv))),
     (''Deleted'', PBool (vv_Deleted vv))]"

definition rev_parameter :: "string \<Rightarrow> Revision \<Rightarrow> Revision" where
  "rev_parameter raw fallback =
     (if raw \<noteq> [] then (case ParseUint raw of Some parsed \<Rightarrow> parsed | None \<Rightarrow> fallback) else fallback)"

definition handleKVSnapshot :: "Server \<Rightarrow> Request \<Rightarrow> Response" where
  "handleKVSnapshot sv r =
     (let s = sv_store (srv_sv sv);
          rv = rev_parameter (http_Query r ''rev'') (CurrentRev s);
          snap = Snapshot s rv
      in writeJSON StatusOK [(''rev'', PInt (uint rv)),
           (''entries'', PObj (map (\<lambda>(k, vv). (k, entry_payload_of vv)) snap))])"

definition handleKVGet :: "Server \<Rightarrow> Request \<Rightarrow> Server \<times> Response" where
  "handleKVGet sv r =
     (let key = TrimPrefix (http_Path r) ''/api/kv/'';
          v = srv_sv sv
      in if key = [] \<or> CHR ''/'' \<in> set key
         then (sv, errorJSON StatusNotFound ''key not found'')
         else case BeginRead (sv_store v) (CurrentRev (sv_store v)) of
           (s1, Inl err) \<Rightarrow>
             (set_sv sv (v\<lparr>sv_store := s1\<rparr>), errorJSON StatusInternalServerError (StoreError_text err))
         | (s1, Inr reader) \<Rightarrow>
             let reply = (case GetAt reader s1 key of
                   Inl err \<Rightarrow> errorJSON StatusNotFound (StoreError_text err)
                 | Inr vv \<Rightarrow> writeJSON StatusOK [(''key'', PStr key),
                     (''value'', PStr (case vv_Value vv of None \<Rightarrow> [] | Some b \<Rightarrow> b)),
                     (''rev'', PInt (uint (vv_Rev vv)))]);
                 (reader', s2) = Reader_Close reader s1
             in (set_sv sv (v\<lparr>sv_store := s2\<rparr>), reply))"

section \<open>Leases\<close>

text \<open>\<^verbatim>\<open>time.Duration(req.TTLMS) * time.Millisecond\<close> is a product of two 64-bit integers.\<close>

definition lease_ttl :: "Config \<Rightarrow> leaseRequest \<Rightarrow> Duration" where
  "lease_ttl cfg req =
     (if 0 < lr_TTLMS req then go_int (lr_TTLMS req * Millisecond) else cfg_LeaseTTL cfg)"

definition handleLeaseCreate :: "Time \<Rightarrow> Server \<Rightarrow> leaseRequest body \<Rightarrow> Server \<times> Response" where
  "handleLeaseCreate t sv body =
     (case body of
        Inl err \<Rightarrow> (sv, errorJSON StatusBadRequest err)
      | Inr req \<Rightarrow>
          let ttl = lease_ttl (srv_cfg sv) req
          in case Create t (sv_leases (srv_sv sv)) (lr_ID req) ttl (lr_Holder req) of
               (m', Some err) \<Rightarrow>
                 (set_sv sv ((srv_sv sv)\<lparr>sv_leases := m'\<rparr>), errorJSON StatusConflict (LeaseError_text err))
             | (m', None) \<Rightarrow>
                 (set_sv sv ((srv_sv sv)\<lparr>sv_leases := m'\<rparr>),
                  writeJSON StatusOK [(''id'', PStr (lr_ID req)), (''ttl'', PDuration ttl)]))"

definition handleLeaseRenew ::
  "Time \<Rightarrow> Server \<Rightarrow> leaseRequest body \<Rightarrow> (Server \<times> Response) option" where
  "handleLeaseRenew now sv body =
     (case body of
        Inl err \<Rightarrow> Some (sv, errorJSON StatusBadRequest err)
      | Inr req \<Rightarrow> do {
          (w, res) \<leftarrow> Renew (Some expiryHandler) (lease_part (srv_sv sv)) (lr_ID req) now;
          Some (set_sv sv (set_lease_part w (srv_sv sv)),
            case res of
              Some err \<Rightarrow> errorJSON StatusConflict (LeaseError_text err)
            | None \<Rightarrow> writeJSON StatusOK [(''id'', PStr (lr_ID req)), (''renewed'', PBool True)])
        })"

text \<open>An error value is a pointer to a struct without exported fields: it is encoded as an empty object.\<close>

definition error_payload :: "LeaseError option \<Rightarrow> payload" where
  "error_payload err = (case err of None \<Rightarrow> PNull | Some _ \<Rightarrow> PObj [])"

definition handleLeaseBatchRenew ::
  "Time \<Rightarrow> Server \<Rightarrow> LeaseID list body \<Rightarrow> (Server \<times> Response) option" where
  "handleLeaseBatchRenew now sv body =
     (case body of
        Inl err \<Rightarrow> Some (sv, errorJSON StatusBadRequest err)
      | Inr ids \<Rightarrow> do {
          (w, results) \<leftarrow> BatchRenew (Some expiryHandler) (lease_part (srv_sv sv)) ids now;
          Some (set_sv sv (set_lease_part w (srv_sv sv)),
            writeJSON StatusOK [(''results'', PObj (map (\<lambda>(i, err). (i, error_payload err)) results))])
        })"

definition handleLeaseRevoke ::
  "Time \<Rightarrow> Server \<Rightarrow> leaseRequest body \<Rightarrow> (Server \<times> Response) option" where
  "handleLeaseRevoke t sv body =
     (case body of
        Inl err \<Rightarrow> Some (sv, errorJSON StatusBadRequest err)
      | Inr req \<Rightarrow> do {
          (w, res) \<leftarrow> Revoke (Some expiryHandler) t (lease_part (srv_sv sv)) (lr_ID req);
          Some (set_sv sv (set_lease_part w (srv_sv sv)),
            case res of
              Some err \<Rightarrow> errorJSON StatusConflict (LeaseError_text err)
            | None \<Rightarrow> writeJSON StatusOK [(''id'', PStr (lr_ID req)), (''revoked'', PBool True)])
        })"

definition handleLeaseGet :: "Server \<Rightarrow> Request \<Rightarrow> Response" where
  "handleLeaseGet sv r =
     (let i = TrimPrefix (http_Path r) ''/api/lease/'';
          m = sv_leases (srv_sv sv)
      in if i = [] then errorJSON StatusNotFound ''lease not found''
         else case Lookup m i of
           None \<Rightarrow> errorJSON StatusNotFound ''lease not found''
         | Some l \<Rightarrow> writeJSON StatusOK
             [(''id'', PStr (l_ID l)), (''holder'', PStr (l_Holder l)), (''ttl'', PDuration (l_TTL l)),
              (''expires_at'', PTime (l_ExpiresAt l)), (''renew_seq'', PInt (uint (l_RenewSeq l))),
              (''state'', PStr (LeaseState_String (l_State l))),
              (''keys'', PList (map PStr (KeysOf m i)))])"

section \<open>Locks\<close>

definition acquire_timeout :: "lockRequest \<Rightarrow> Duration" where
  "acquire_timeout req = (if 0 < kr_TimeoutMS req then go_int (kr_TimeoutMS req * Millisecond) else 5 * Second)"

definition acquire_reply :: "lockRequest \<Rightarrow> LockError option \<Rightarrow> Response" where
  "acquire_reply req res =
     (case res of
        Some err \<Rightarrow> errorJSON StatusConflict (LockError_text err)
      | None \<Rightarrow> writeJSON StatusOK [(''id'', PStr (kr_ID req)), (''client'', PStr (kr_Client req)),
                  (''acquired'', PBool True)])"

text \<open>What happens before \<^verbatim>\<open>Acquire\<close> is called: the reply to a bad body, or the call's time limit.\<close>

definition lock_acquire_enter :: "lockRequest body \<Rightarrow> Response + lockRequest \<times> Duration" where
  "lock_acquire_enter body =
     (case body of
        Inl err \<Rightarrow> Inl (errorJSON StatusBadRequest err)
      | Inr req \<Rightarrow> Inr (req, acquire_timeout req))"

text \<open>The handler while no other request is served: one \<^verbatim>\<open>Acquire\<close> call runs to its end.\<close>

inductive handleLockAcquire :: "lockRequest body \<Rightarrow> lock_world \<Rightarrow> lock_world \<times> Response \<Rightarrow> bool" where
  acquire_bad: "lock_acquire_enter body = Inl reply \<Longrightarrow> handleLockAcquire body w (w, reply)"
| acquire_run: "lock_acquire_enter body = Inr (req, limit) \<Longrightarrow>
    (acquire_step (kr_ID req) (kr_Client req) (kr_LeaseID req))\<^sup>*\<^sup>* (w, Attempt) (w', Returned res) \<Longrightarrow>
    handleLockAcquire body w (w', acquire_reply req res)"

definition handleLockRelease :: "Server \<Rightarrow> lockRequest body \<Rightarrow> (Server \<times> Response) option" where
  "handleLockRelease sv body =
     (case body of
        Inl err \<Rightarrow> Some (sv, errorJSON StatusBadRequest err)
      | Inr req \<Rightarrow> do {
          ((lk, st), res) \<leftarrow> Release (Some (Alive (sv_leases (srv_sv sv))))
            (sv_locks (srv_sv sv), Some (sv_store (srv_sv sv))) (kr_ID req) (kr_Client req);
          s' \<leftarrow> st;
          Some (set_sv sv ((srv_sv sv)\<lparr>sv_locks := lk, sv_store := s'\<rparr>),
            case res of
              Some err \<Rightarrow> errorJSON StatusConflict (LockError_text err)
            | None \<Rightarrow> writeJSON StatusOK [(''id'', PStr (kr_ID req)), (''released'', PBool True)])
        })"

definition handleLockSnapshot :: "Server \<Rightarrow> Response" where
  "handleLockSnapshot sv =
     writeJSON StatusOK [(''locks'', PList (map (\<lambda>rc. PObj
       [(''id'', PStr (ls_ID rc)), (''holder'', PStr (ls_Holder rc)), (''lease'', PStr (ls_Lease rc)),
        (''state'', PStr (LockState_String (ls_State rc)))]) (LockSnapshot (sv_locks (srv_sv sv)))))]"

section \<open>Watching\<close>

record ssePeer =
  sp_closed :: bool
  sp_sent :: "payload list"

definition event_payload :: "Event \<Rightarrow> payload" where
  "event_payload ev = PObj
     [(''type'', PStr (EventType_String (ev_Type ev))), (''key'', PStr (ev_Key ev)),
      (''value'', PStr (case ev_Value ev of None \<Rightarrow> [] | Some b \<Rightarrow> b)), (''rev'', PInt (uint (ev_Rev ev)))]"

text \<open>\<open>write_err\<close> is what writing to the connection returns.\<close>

definition ssePeer_Send :: "string option \<Rightarrow> ssePeer \<Rightarrow> Event \<Rightarrow> ssePeer \<times> string option" where
  "ssePeer_Send write_err p ev =
     (if sp_closed p then (p, Some ''watch: peer closed'')
      else case write_err of
        Some err \<Rightarrow> (p, Some err)
      | None \<Rightarrow> (p\<lparr>sp_sent := sp_sent p @ [event_payload ev]\<rparr>, None))"

definition ssePeer_Close :: "ssePeer \<Rightarrow> ssePeer" where
  "ssePeer_Close p = p\<lparr>sp_closed := True\<rparr>"

text \<open>
  The handler up to the point where it waits for the request to end, and its two deferred calls.
  \<open>flushes\<close> tells whether the connection can be flushed, \<open>peer\<close> names the peer it creates. Once the
  header is written, an error ends the reply without a word.
\<close>

datatype watch_outcome = WatchRefused Response | WatchNotOpened | WatchServing WatchID

definition handleWatch_open ::
  "Time \<Rightarrow> bool \<Rightarrow> nat \<Rightarrow> Server \<Rightarrow> Request \<Rightarrow> (Server \<times> watch_outcome) option" where
  "handleWatch_open now flushes peer sv r =
     (let sessionID = http_Query r ''session'';
          key = http_Query r ''key'';
          start = rev_parameter (http_Query r ''rev'') 0
      in if \<not> flushes
         then Some (sv, WatchRefused (errorJSON StatusInternalServerError ''streaming unsupported''))
         else do {
           (v1, res) \<leftarrow> RegisterWatch (srv_sv sv) sessionID key start;
           case res of
             Inl err \<Rightarrow> Some (set_sv sv v1, WatchNotOpened)
           | Inr (watchID, ch) \<Rightarrow>
               Some (set_sv sv (AttachPeer now v1 sessionID watchID peer), WatchServing watchID)
         })"

definition handleWatch_end :: "Server \<Rightarrow> WatchID \<Rightarrow> nat \<Rightarrow> Server option" where
  "handleWatch_end sv watchID peer = do {
     v1 \<leftarrow> cancel_all [watchID] (srv_sv sv);
     Some (set_sv sv (v1\<lparr>sv_closed := sv_closed v1 @ [(peer, watchID)]\<rparr>))
   }"

section \<open>Sessions\<close>

definition handleSessionConnect :: "Time \<Rightarrow> Server \<Rightarrow> sessionRequest body \<Rightarrow> Server \<times> Response" where
  "handleSessionConnect now sv body =
     (case body of
        Inl err \<Rightarrow> (sv, errorJSON StatusBadRequest err)
      | Inr req \<Rightarrow>
          let v = srv_sv sv;
              (m1, err) = Connect now (sv_mgr v) (sr_ID req)
          in case err of
               Some e \<Rightarrow> (set_sv sv (v\<lparr>sv_mgr := m1\<rparr>), errorJSON StatusConflict (SessionError_text e))
             | None \<Rightarrow>
                 let m2 = (if sr_LeaseID req \<noteq> [] then fst (BindLease m1 (sr_ID req) (sr_LeaseID req)) else m1)
                 in (set_sv sv (v\<lparr>sv_mgr := m2\<rparr>),
                     writeJSON StatusOK [(''id'', PStr (sr_ID req)), (''connected'', PBool True)]))"

definition handleSessionReconnect ::
  "Time \<Rightarrow> Time \<Rightarrow> Server \<Rightarrow> sessionRequest body \<Rightarrow> (Server \<times> Response) option" where
  "handleSessionReconnect now1 now2 sv body =
     (case body of
        Inl err \<Rightarrow> Some (sv, errorJSON StatusBadRequest err)
      | Inr req \<Rightarrow> do {
          (v', res) \<leftarrow> Reconnect (Some expiryHandler) now1 now2 (srv_sv sv) (sr_ID req);
          Some (set_sv sv v',
            case res of
              Inl e \<Rightarrow> errorJSON StatusConflict (SessionError_text e)
            | Inr restored \<Rightarrow> writeJSON StatusOK [(''id'', PStr (sr_ID req)), (''reconnected'', PBool True)])
        })"

definition handleSessionStatus :: "Server \<Rightarrow> Request \<Rightarrow> Response" where
  "handleSessionStatus sv r =
     (let i = http_Query r ''id''; m = sv_mgr (srv_sv sv)
      in if i \<noteq> [] then
           (case Session_Lookup m i of
              None \<Rightarrow> errorJSON StatusNotFound ''session not found''
            | Some sess \<Rightarrow> writeJSON StatusOK
                [(''id'', PStr (s_ID sess)), (''state'', PStr (SessionState_String (s_State sess))),
                 (''leases'', PList (map PStr (s_LeaseIDs sess))),
                 (''watch_cursors'', PObj (map (\<lambda>(j, c). (j, PInt (uint c))) (s_Watches sess)))])
         else writeJSON StatusOK
           [(''connected'', PList (map PStr (SessionsByState m SessionConnected))),
            (''disconnected'', PList (map PStr (SessionsByState m SessionDisconnected)))])"

text \<open>\<open>readings\<close> gives the two clock readings of each session's \<^verbatim>\<open>Reconnect\<close>.\<close>

definition handleSessionResumeAll ::
  "(SessionID \<Rightarrow> Time \<times> Time) \<Rightarrow> Server \<Rightarrow> (Server \<times> Response) option" where
  "handleSessionResumeAll readings sv =
     (let ids = SessionsByState (sv_mgr (srv_sv sv)) SessionDisconnected
      in do {
        (v', restored) \<leftarrow> ResumeAll (Some expiryHandler) (srv_sv sv) (map (\<lambda>i. (i, readings i)) ids);
        Some (set_sv sv v', writeJSON StatusOK [(''restored'', PList (map PStr restored))])
      })"

section \<open>Elections\<close>

definition election_fields :: "Election \<Rightarrow> (string \<times> payload) list" where
  "election_fields e =
     (let (role, trm, leader) = Current e
      in [(''role'', PStr (Role_String role)), (''term'', PInt (uint trm)), (''leader'', PStr leader)])"

definition set_election :: "Server \<Rightarrow> lease_world \<times> Election \<Rightarrow> Server" where
  "set_election sv we = sv\<lparr>srv_sv := set_lease_part (fst we) (srv_sv sv), srv_el := snd we\<rparr>"

definition handleElectionCampaign ::
  "Time \<Rightarrow> Time \<Rightarrow> Server \<Rightarrow> electionRequest body \<Rightarrow> Server \<times> Response" where
  "handleElectionCampaign t hb sv body =
     (case body of
        Inl err \<Rightarrow> (sv, errorJSON StatusBadRequest err)
      | Inr req \<Rightarrow>
          let name = (if er_Name req = [] then cfg_NodeName (srv_cfg sv) else er_Name req);
              (we, res) = Campaign lease_mgr_service t hb (lease_part (srv_sv sv), srv_el sv);
              sv' = set_election sv we
          in case res of
               Some err \<Rightarrow> (sv', errorJSON StatusConflict (ElectionError_text err))
             | None \<Rightarrow> (sv', writeJSON StatusOK ((''name'', PStr name) # election_fields (srv_el sv'))))"

definition handleElectionHandoff ::
  "Time \<Rightarrow> Time \<Rightarrow> Server \<Rightarrow> electionRequest body \<Rightarrow> (Server \<times> Response) option" where
  "handleElectionHandoff t hb sv body =
     (case body of
        Inl err \<Rightarrow> Some (sv, errorJSON StatusBadRequest err)
      | Inr req \<Rightarrow>
          if er_NewName req = [] then Some (sv, errorJSON StatusBadRequest ''new_name is required'')
          else if er_NewTerm req = 0 then Some (sv, errorJSON StatusBadRequest ''term is required'')
          else do {
            (we, res) \<leftarrow> Handoff lease_mgr_service t hb (er_NewTerm req) (er_NewName req)
              (lease_part (srv_sv sv), srv_el sv);
            let sv' = set_election sv we;
            Some (sv', case res of
              Some err \<Rightarrow> errorJSON StatusConflict (ElectionError_text err)
            | None \<Rightarrow> writeJSON StatusOK (election_fields (srv_el sv')))
          })"

definition handleElectionResign :: "Time \<Rightarrow> Server \<Rightarrow> (Server \<times> Response) option" where
  "handleElectionResign t sv = do {
     (w, e) \<leftarrow> Resign lease_mgr_service t (lease_part (srv_sv sv), srv_el sv);
     Some (set_election sv (w, Follow e), writeJSON StatusOK [(''resigned'', PBool True)])
   }"

definition handleElectionStatus :: "Time \<Rightarrow> Server \<Rightarrow> Response" where
  "handleElectionStatus hb sv =
     (let (role, trm, leader) = Current (srv_el sv)
      in writeJSON StatusOK
        [(''role'', PStr (Role_String role)), (''term'', PInt (uint trm)), (''leader'', PStr leader),
         (''leader_lease'', PStr (LeaseNameFor leader)),
         (''heartbeat_ok'', PBool (\<not> CheckTimeout hb (srv_el sv)))])"

section \<open>Serving a request\<close>

text \<open>
  The dispatch of every request whose handler does not wait; the two others have no result here.
  \<open>rd\<close> gives the times at which the clocks are read: the lease clock once or twice, the heartbeat
  clock, and the lease clock twice for each session to be resumed.
\<close>

record readings =
  rd_now :: Time
  rd_now2 :: Time
  rd_hb :: Time
  rd_sessions :: "SessionID \<Rightarrow> Time \<times> Time"

definition pure_reply :: "Server \<Rightarrow> Response \<Rightarrow> (Server \<times> Response) option" where
  "pure_reply sv reply = Some (sv, reply)"

fun serve_route :: "readings \<Rightarrow> Server \<Rightarrow> Request \<Rightarrow> route \<Rightarrow> (Server \<times> Response) option" where
  "serve_route rd sv r RHealth = pure_reply sv handleHealth"
| "serve_route rd sv r RConsole = pure_reply sv (handleConsole r)"
| "serve_route rd sv r RStatus = map_option (Pair sv) (handleStatus sv)"
| "serve_route rd sv r RKVPut = handleKVPut sv (http_kv r)"
| "serve_route rd sv r RKVSnapshot = pure_reply sv (handleKVSnapshot sv r)"
| "serve_route rd sv r RKVGet = Some (handleKVGet sv r)"
| "serve_route rd sv r RLeaseCreate = Some (handleLeaseCreate (nowOf sv (rd_now rd)) sv (http_lease r))"
| "serve_route rd sv r RLeaseRenew = handleLeaseRenew (nowOf sv (rd_now rd)) sv (http_lease r)"
| "serve_route rd sv r RLeaseBatchRenew = handleLeaseBatchRenew (nowOf sv (rd_now rd)) sv (http_ids r)"
| "serve_route rd sv r RLeaseRevoke = handleLeaseRevoke (nowOf sv (rd_now rd)) sv (http_lease r)"
| "serve_route rd sv r RLeaseGet = pure_reply sv (handleLeaseGet sv r)"
| "serve_route rd sv r RLockRelease = handleLockRelease sv (http_lock r)"
| "serve_route rd sv r RLockSnapshot = pure_reply sv (handleLockSnapshot sv)"
| "serve_route rd sv r RSessionConnect = Some (handleSessionConnect (nowOf sv (rd_now rd)) sv (http_session r))"
| "serve_route rd sv r RSessionReconnect =
     handleSessionReconnect (nowOf sv (rd_now rd)) (nowOf sv (rd_now2 rd)) sv (http_session r)"
| "serve_route rd sv r RSessionStatus = pure_reply sv (handleSessionStatus sv r)"
| "serve_route rd sv r RSessionResumeAll = 
     handleSessionResumeAll (\<lambda>i. map_prod (nowOf sv) (nowOf sv) (rd_sessions rd i)) sv"
| "serve_route rd sv r RElectionCampaign =
     Some (handleElectionCampaign (nowOf sv (rd_now rd)) (Clock_Now (srv_hbClock sv) (rd_hb rd)) sv (http_election r))"
| "serve_route rd sv r RElectionHandoff =
     handleElectionHandoff (nowOf sv (rd_now rd)) (Clock_Now (srv_hbClock sv) (rd_hb rd)) sv (http_election r)"
| "serve_route rd sv r RElectionResign = handleElectionResign (nowOf sv (rd_now rd)) sv"
| "serve_route rd sv r RElectionStatus = pure_reply sv (handleElectionStatus (Clock_Now (srv_hbClock sv) (rd_hb rd)) sv)"
| "serve_route rd sv r _ = None"

definition waits :: "route \<Rightarrow> bool" where
  "waits rt \<longleftrightarrow> rt = RLockAcquire \<or> rt = RWatch"

definition serve :: "readings \<Rightarrow> Server \<Rightarrow> Request \<Rightarrow> (Server \<times> Response) option" where
  "serve rd sv r =
     (case ServeMux (http_Path r) of
        None \<Rightarrow> Some (sv, NotFoundPage)
      | Some (Inl path) \<Rightarrow> Some (sv, MovedTo path)
      | Some (Inr rt) \<Rightarrow> serve_route rd sv r rt)"

end
