(* ===== verification/Service.thy ===== *)
theory Service
  imports Api
begin

text \<open>
  The running process: the background goroutines that \<^verbatim>\<open>main\<close> starts, one round of each loop at a
  time, and the steps in which requests, waiting requests, deliveries and rounds interleave.
\<close>

section \<open>The background loops\<close>

datatype round = ExpiryRound | HeartbeatRound | ReclaimRound | StaleRound

text \<open>\<open>now\<close> is a reading of the lease clock, \<open>hb1\<close> and \<open>hb2\<close> are readings of the heartbeat clock.\<close>

definition expiry_round :: "Time \<Rightarrow> Server \<Rightarrow> Server option" where
  "expiry_round now sv = do {
     (w, ids) \<leftarrow> ExpireOnce (Some expiryHandler) (lease_part (srv_sv sv)) now;
     Some (set_sv sv (set_lease_part w (srv_sv sv)))
   }"

definition stale_round :: "Time \<Rightarrow> Server \<Rightarrow> Server option" where
  "stale_round now sv = do {
     (v, ids) \<leftarrow> ExpireStale now (srv_sv sv);
     Some (set_sv sv v)
   }"

fun run_round :: "Time \<Rightarrow> Time \<Rightarrow> Time \<Rightarrow> round \<Rightarrow> Server \<Rightarrow> Server option" where
  "run_round now hb1 hb2 ExpiryRound sv = expiry_round now sv"
| "run_round now hb1 hb2 HeartbeatRound sv =
     map_option (set_election sv)
       (heartbeat_tick lease_mgr_service now hb1 hb2 (lease_part (srv_sv sv), srv_el sv))"
| "run_round now hb1 hb2 ReclaimRound sv =
     Some (set_sv sv ((srv_sv sv)\<lparr>sv_store :=
       reclaim_tick (cfg_RetainRevisions (srv_cfg sv)) (sv_store (srv_sv sv))\<rparr>))"
| "run_round now hb1 hb2 StaleRound sv = stale_round now sv"

section \<open>Steps of the process\<close>

text \<open>
  A request that does not wait is one step, and the two halves of a write under a lease are steps
  of their own as well, because other requests get in between (\<open>bind_key\<close>, \<open>write_key\<close>). An \<^verbatim>\<open>Acquire\<close> call is between two critical sections of
  the lock manager most of the time, a watch is open between its two halves, and each delivery
  thread makes its own steps.
\<close>

record waiting_call =
  wc_req :: lockRequest
  wc_pc :: acquire_pc

type_synonym process = "Server \<times> waiting_call list"

definition lock_part :: "services \<Rightarrow> lock_world" where
  "lock_part v = (sv_locks v, Some (sv_store v))"

definition set_lock_part :: "lock_world \<Rightarrow> services \<Rightarrow> services" where
  "set_lock_part w v =
     (case w of (lk, st) \<Rightarrow> v\<lparr>sv_locks := lk, sv_store := (case st of None \<Rightarrow> sv_store v | Some s \<Rightarrow> s)\<rparr>)"

definition watch_part :: "services \<Rightarrow> thread list \<Rightarrow> watch_run" where
  "watch_part v ts = \<lparr>ws_store = sv_store v, ws_mgr = sv_watcher v, ws_threads = ts, ws_got = [], ws_sent = []\<rparr>"

inductive server_step :: "process \<Rightarrow> process \<Rightarrow> bool" where
  request: "serve rd sv r = Some (sv', reply) \<Longrightarrow> server_step (sv, cs) (sv', cs)"
| bind_key: "kv_put_bind sv req = Some (sv', err) \<Longrightarrow> server_step (sv, cs) (sv', cs)"
| write_key: "kv_put_write sv req = Some (sv', reply) \<Longrightarrow> server_step (sv, cs) (sv', cs)"
| background: "run_round now hb1 hb2 rnd sv = Some sv' \<Longrightarrow> server_step (sv, cs) (sv', cs)"
| watch_open: "handleWatch_open now flushes peer sv r = Some (sv', out) \<Longrightarrow> server_step (sv, cs) (sv', cs)"
| watch_end: "handleWatch_end sv i peer = Some sv' \<Longrightarrow> server_step (sv, cs) (sv', cs)"
| deliver: "thread_step a k t (watch_part (srv_sv sv) ts) r \<Longrightarrow>
    server_step (sv, cs) (set_sv sv ((srv_sv sv)\<lparr>sv_store := ws_store r, sv_watcher := ws_mgr r\<rparr>), cs)"
| acquire: "lock_acquire_enter body = Inr (req, limit) \<Longrightarrow>
    server_step (sv, cs) (sv, cs @ [\<lparr>wc_req = req, wc_pc = Attempt\<rparr>])"
| acquire_goes_on: "k < length cs \<Longrightarrow> cs ! k = c \<Longrightarrow>
    acquire_step (kr_ID (wc_req c)) (kr_Client (wc_req c)) (kr_LeaseID (wc_req c))
      (lock_part (srv_sv sv), wc_pc c) (w, pc) \<Longrightarrow>
    server_step (sv, cs) (set_sv sv (set_lock_part w (srv_sv sv)), cs[k := c\<lparr>wc_pc := pc\<rparr>])"

end
