(* ===== verification/ApiProps.thy ===== *)
theory ApiProps
  imports Api SessionRuns ElectionRuns LockRuns
begin

text \<open>
  Every request that does not wait is answered, and the invariants of all the components survive
  it. The lease handlers and the election handlers rest on the frame of the lease service, the
  lock handlers on the refinement of the lock manager, the session handlers on the runs of the
  session manager.
\<close>

section \<open>The lease service inside the services\<close>

definition lease_frame :: "nat \<Rightarrow> backend \<Rightarrow> lease_world \<Rightarrow> bool" where
  "lease_frame = frame_ok backend_ready
     (\<lambda>ks e e'. fst e' = fst e \<and> grows (snd e) (snd e') \<and> log_extends (snd e) (snd e'))"

lemma lease_frame_iff:
  "lease_frame n (lk, s0) (m, (lk', s)) \<longleftrightarrow>
     lease_ok m \<and> store_ready (n + bound_total m) s \<and> lk' = lk \<and> grows s0 s \<and> log_extends s0 s"
  by (auto simp: lease_frame_def frame_ok_def backend_ready_def)

interpretation election_frame: lease_service lease_mgr_service "lease_frame n e0" service_held for n e0
  unfolding lease_mgr_service_def lease_frame_def by (rule handler_streams.lease_service_frame)

section \<open>The invariant of the server\<close>

text \<open>\<open>n\<close> more writes fit, beside the deletions of all the bound keys.\<close>

definition server_ok :: "nat \<Rightarrow> Server \<Rightarrow> bool" where
  "server_ok n sv \<longleftrightarrow> services_ok (srv_sv sv) \<and> lock_ok (sv_locks (srv_sv sv)) \<and> election_ok (srv_el sv)
     \<and> store_ready (n + bound_total (sv_leases (srv_sv sv))) (sv_store (srv_sv sv))"

text \<open>
  What a request leaves alone: \<open>quiet\<close> ones do not touch the sessions and the watches, the others
  open no more watches than their sessions already have. All of them only extend the history of
  the store.
\<close>

definition watch_load :: "SessionMgr \<Rightarrow> nat" where
  "watch_load m = sum_list (map (\<lambda>p. length (s_Watches (snd p))) (sessions m))"

definition quiet :: "Server \<Rightarrow> Server \<Rightarrow> bool" where
  "quiet sv sv' \<longleftrightarrow> sv_mgr (srv_sv sv') = sv_mgr (srv_sv sv) \<and> sv_watcher (srv_sv sv') = sv_watcher (srv_sv sv)
     \<and> length (wheap (sv_locks (srv_sv sv'))) = length (wheap (sv_locks (srv_sv sv)))
     \<and> srv_cfg sv' = srv_cfg sv \<and> log_extends (sv_store (srv_sv sv)) (sv_store (srv_sv sv'))"

definition tame :: "Server \<Rightarrow> Server \<Rightarrow> bool" where
  "tame sv sv' \<longleftrightarrow> watch_load (sv_mgr (srv_sv sv')) \<le> watch_load (sv_mgr (srv_sv sv))
     \<and> unat (w_nextID (sv_watcher (srv_sv sv')))
         \<le> unat (w_nextID (sv_watcher (srv_sv sv))) + watch_load (sv_mgr (srv_sv sv))
     \<and> length (wheap (sv_locks (srv_sv sv'))) = length (wheap (sv_locks (srv_sv sv)))
     \<and> srv_cfg sv' = srv_cfg sv \<and> log_extends (sv_store (srv_sv sv)) (sv_store (srv_sv sv'))"

lemma quiet_refl [simp]: "quiet sv sv"
  by (simp add: quiet_def)

lemma quiet_trans: "quiet sv sv1 \<Longrightarrow> quiet sv1 sv2 \<Longrightarrow> quiet sv sv2"
  by (auto simp: quiet_def intro: log_extends_trans)

lemma quiet_tame [intro]: "quiet sv sv' \<Longrightarrow> tame sv sv'"
  by (simp add: quiet_def tame_def)

lemma quiet_set [simp]:
  "log_extends (sv_store (srv_sv sv)) s \<Longrightarrow> quiet sv (set_sv sv ((srv_sv sv)\<lparr>sv_store := s\<rparr>))"
  "quiet sv (set_sv sv ((srv_sv sv)\<lparr>sv_leases := m\<rparr>))"
  by (simp_all add: quiet_def set_sv_def)

lemma store_ready_less: "store_ready n s \<Longrightarrow> k \<le> n \<Longrightarrow> store_ready k s"
  by (rule kv.ready_less)

lemma server_ok_less: "server_ok n sv \<Longrightarrow> k \<le> n \<Longrightarrow> server_ok k sv"
  by (auto simp: server_ok_def elim: store_ready_less)

lemma store_ready_tracks: "store_ready n s \<Longrightarrow> \<exists>h. tracks h s"
  by (auto simp: store_ready_def)

lemma server_frame: "server_ok n sv \<Longrightarrow> lease_frame n (snd (lease_part (srv_sv sv))) (lease_part (srv_sv sv))"
  by (auto simp: server_ok_def services_ok_def lease_part_def lease_frame_iff)

lemma services_ok_lease_part:
  assumes "services_ok v" and "lease_frame n (snd (lease_part v)) w"
  shows "services_ok (set_lease_part w v)"
proof -
  obtain m lk s where w: "w = (m, (lk, s))" by (metis surj_pair)
  have new: "lease_ok m" "grows (sv_store v) s" "\<exists>h. tracks h s"
    using assms(2) store_ready_tracks by (auto simp: w lease_part_def lease_frame_iff)
  then obtain h where "tracks h s" by blast
  then show ?thesis
    using assms(1) new watcher_ok_grows
    by (intro services_okI [of h]) (auto simp: services_ok_def w set_lease_part_def)
qed

lemma server_ok_lease_part:
  assumes "server_ok n sv" and "lease_frame k (snd (lease_part (srv_sv sv))) w" and "election_ok e"
  shows "server_ok k (sv\<lparr>srv_sv := set_lease_part w (srv_sv sv), srv_el := e\<rparr>)"
    and "quiet sv (sv\<lparr>srv_sv := set_lease_part w (srv_sv sv), srv_el := e\<rparr>)"
proof -
  obtain m lk s where w: "w = (m, (lk, s))" by (metis surj_pair)
  have "services_ok (set_lease_part w (srv_sv sv))"
    using assms(1,2) by (intro services_ok_lease_part) (auto simp: server_ok_def)
  then show "server_ok k (sv\<lparr>srv_sv := set_lease_part w (srv_sv sv), srv_el := e\<rparr>)"
    using assms by (auto simp: server_ok_def w set_lease_part_def lease_part_def lease_frame_iff)
  show "quiet sv (sv\<lparr>srv_sv := set_lease_part w (srv_sv sv), srv_el := e\<rparr>)"
    using assms(2) by (simp add: quiet_def w set_lease_part_def lease_part_def lease_frame_iff)
qed

lemma server_ok_set_part:
  assumes "server_ok n sv" and "lease_frame k (snd (lease_part (srv_sv sv))) w"
  shows "server_ok k (set_sv sv (set_lease_part w (srv_sv sv)))
    \<and> quiet sv (set_sv sv (set_lease_part w (srv_sv sv)))"
  using server_ok_lease_part [OF assms, of "srv_el sv"] assms(1) by (simp add: set_sv_def server_ok_def)

lemma server_ok_store:
  assumes "server_ok n sv" and "grows (sv_store (srv_sv sv)) s'"
    and "store_ready (k + bound_total (sv_leases (srv_sv sv))) s'"
  shows "server_ok k (set_sv sv ((srv_sv sv)\<lparr>sv_store := s'\<rparr>))"
proof -
  obtain h where "tracks h s'" using store_ready_tracks [OF assms(3)] by blast
  from services_ok_store [OF _ this assms(2)] show ?thesis
    using assms(1,3) by (simp add: server_ok_def set_sv_def)
qed

section \<open>Releasing a lock never forgets a stream\<close>

text \<open>An optional store keeps its streams too.\<close>

definition ogrows :: "Store option \<Rightarrow> Store option \<Rightarrow> bool" where
  "ogrows st st' \<longleftrightarrow> rel_option grows st st'"

lemma ogrows_refl [simp]: "ogrows st st"
  by (cases st) (simp_all add: ogrows_def)

lemma ogrows_trans: "ogrows st st1 \<Longrightarrow> ogrows st1 st2 \<Longrightarrow> ogrows st st2"
  by (cases st; cases st1; cases st2) (auto simp: ogrows_def intro: grows_trans)

lemma persistLocked_grows: "persistLocked st e = Some st' \<Longrightarrow> ogrows st st'"
  by (auto simp: persistLocked_def PutLockState_def ogrows_def dest: Put_grows split: option.splits)

lemma lock_removeLocked_grows: "lock_removeLocked (m, st) e = Some (m', st') \<Longrightarrow> ogrows st st'"
  by (auto simp: lock_removeLocked_def DeleteLockState_def ogrows_def Let_def dest: Delete_grows
      split: option.splits)

lemma lock_removeLocked_wheap: "lock_removeLocked w e = Some w' \<Longrightarrow> wheap (fst w') = wheap (fst w)"
  by (auto simp: lock_removeLocked_def Let_def case_prod_unfold split: option.splits)

text \<open>No operation but \<^verbatim>\<open>enqueue\<close> allocates a waiter.\<close>

lemma close_done_wheap: "close_done m a = Some m' \<Longrightarrow> length (wheap m') = length (wheap m)"
  by (auto simp: close_done_def split: if_splits)

lemma signal_wheap: "signal m a = Some m' \<Longrightarrow> length (wheap m') = length (wheap m)"
  by (auto simp: signal_def Let_def dest: close_done_wheap split: option.splits)

lemma wakeNext_keeps:
  "wakeNext alive w e = Some w' \<Longrightarrow>
   ogrows (snd w) (snd w') \<and> length (wheap (fst w')) = length (wheap (fst w))"
proof (induction alive w e rule: wakeNext.induct)
  case (1 alive m st e)
  obtain e1 best where b: "earliestWaiter m e = (e1, best)" by fastforce
  show ?case
  proof (cases best)
    case None
    then show ?thesis
      using 1(2) b by (cases w')
        (auto simp: wakeNext.simps [of alive m] Let_def split: Option.bind_splits
          dest!: persistLocked_grows dest: lock_removeLocked_grows lock_removeLocked_wheap intro: ogrows_trans)
  next
    case (Some a)
    show ?thesis
    proof (cases "alive \<noteq> None \<and> rq_LeaseID (request m a) \<noteq> [] \<and> \<not> the alive (rq_LeaseID (request m a))")
      case True
      then have "wakeNext alive (m, st) e1 = Some w'"
        using 1(2) b Some by (simp add: wakeNext.simps [of alive m _ e])
      from 1(1) [OF b [symmetric] Some _ this] True show ?thesis by simp
    next
      case False
      with 1(2) b Some show ?thesis
        by (auto simp: wakeNext.simps [of alive m _ e] Let_def split: Option.bind_splits if_splits
            dest!: persistLocked_grows signal_wheap)
    qed
  qed
qed

lemma Release_keeps:
  assumes "Release alive w i client = Some (w', r)"
  shows "ogrows (snd w) (snd w') \<and> length (wheap (fst w')) = length (wheap (fst w))"
proof -
  have "releaseLocked alive w e = Some v \<Longrightarrow>
      ogrows (snd w) (snd v) \<and> length (wheap (fst v)) = length (wheap (fst w))" for e v
    by (cases w) (auto simp: releaseLocked_def Let_def split: Option.bind_splits
        dest!: persistLocked_grows wakeNext_keeps intro: ogrows_trans)
  then show ?thesis using assms by (auto simp: Release_def split: option.splits if_splits)
qed

section \<open>Keys\<close>

lemma server_ok_parts:
  assumes "server_ok n sv"
  shows "services_ok (srv_sv sv)" "lock_ok (sv_locks (srv_sv sv))" "election_ok (srv_el sv)"
    "lease_ok (sv_leases (srv_sv sv))" "sessions_ok (sv_watcher (srv_sv sv)) (sv_mgr (srv_sv sv))"
    "store_ready (n + bound_total (sv_leases (srv_sv sv))) (sv_store (srv_sv sv))"
  using assms by (simp_all add: server_ok_def services_ok_def)

lemma server_ok_leases:
  assumes "server_ok (n + k) sv" and "lease_ok m" and "bound_total m \<le> bound_total (sv_leases (srv_sv sv)) + k"
  shows "server_ok n (set_sv sv ((srv_sv sv)\<lparr>sv_leases := m\<rparr>))"
  using assms by (auto simp: server_ok_def set_sv_def services_ok_def elim: store_ready_less)

lemma bound_total_BindKey:
  assumes "lease_ok m" and "BindKey m i k = Some (m', r)"
  shows "bound_total m' \<le> bound_total m + 1"
proof (cases "m' = m")
  case False
  with assms(2) obtain ks where ks: "map_of (bindings m) i = Some ks" and m': "bindings m' = mput i (mput k () ks) (bindings m)"
    by (auto simp: BindKey_def split: option.splits if_splits)
  have wf: "mwf (bindings m)" using assms(1) by (simp add: lease_ok_def)
  from sum_mput [OF wf, of length i "mput k () ks"] show ?thesis
    using ks length_mput [of k "()" ks] by (simp add: bound_total_def m')
qed simp

lemma kv_put_bind_runs:
  assumes "server_ok (Suc n) sv"
  shows "\<exists>sv' err. kv_put_bind sv req = Some (sv', err) \<and> server_ok n sv' \<and> quiet sv sv'"
proof (cases "kp_LeaseID req = []")
  case True
  then show ?thesis using server_ok_less [OF assms] by (simp add: kv_put_bind_def)
next
  case False
  note ok = server_ok_parts(4) [OF assms]
  obtain m' r where b: "BindKey (sv_leases (srv_sv sv)) (kp_LeaseID req) (kp_Key req) = Some (m', r)"
    using BindKey_defined [OF ok] by (metis option.exhaust surj_pair)
  have "lease_ok m'" using BindKey_ok [OF ok] b by fastforce
  then have "server_ok n (set_sv sv ((srv_sv sv)\<lparr>sv_leases := m'\<rparr>))"
    using server_ok_leases [of n 1 sv m'] assms bound_total_BindKey [OF ok b] by simp
  then show ?thesis using False b by (simp add: kv_put_bind_def)
qed

lemma kv_put_write_runs:
  assumes "server_ok (Suc n) sv"
  shows "\<exists>sv'. kv_put_write sv req = Some (sv', writeJSON StatusOK [(''rev'', PInt (uint (CurrentRev (sv_store (srv_sv sv)) + 1)))])
    \<and> server_ok n sv' \<and> quiet sv sv'"
proof -
  let ?s = "sv_store (srv_sv sv)" and ?k = "n + bound_total (sv_leases (srv_sv sv))"
  have ready: "store_ready (Suc ?k) ?s" using server_ok_parts(6) [OF assms] by simp
  then obtain h where h: "tracks h ?s" "Suc (length h) < 2 ^ 63"
    by (auto simp: store_ready_def tracks_def)
  obtain s' where s': "Put ?s (kp_Key req) (Some (kp_Value req)) = Some (s', Inr (head ?s + 1))"
    using Put_refines [OF h, of "kp_Key req" "kp_Value req"] by auto
  have w: "store_ready ?k s' \<and> log_extends ?s s'"
    using store_write_runs [OF ready, of "WPut (kp_Key req) (kp_Value req)"] s' by simp
  from server_ok_store [OF assms Put_grows [OF s']] w show ?thesis
    by (simp add: kv_put_write_def s' CurrentRev_def)
qed

lemma handleKVPut_runs:
  assumes "server_ok (n + 2) sv"
  shows "\<exists>sv' reply. handleKVPut sv body = Some (sv', reply) \<and> server_ok n sv' \<and> quiet sv sv'"
proof (cases "\<exists>req. body = Inr req \<and> kp_Key req \<noteq> []")
  case True
  then obtain req where req: "body = Inr req" "kp_Key req \<noteq> []" by blast
  obtain sv1 err where b: "kv_put_bind sv req = Some (sv1, err)" "server_ok (Suc n) sv1" "quiet sv sv1"
    using kv_put_bind_runs [of "Suc n" sv req] assms by auto
  then show ?thesis
    using req kv_put_write_runs [OF b(2), of req] server_ok_less [OF b(2), of n] quiet_trans [OF b(3)]
    by (cases err) (auto simp: handleKVPut_def)
next
  case False
  then show ?thesis
    using server_ok_less [OF assms, of n] by (auto simp: handleKVPut_def split: sum.splits)
qed

lemma handleKVGet_ok:
  assumes "server_ok n sv"
  shows "server_ok n (fst (handleKVGet sv r)) \<and> quiet sv (fst (handleKVGet sv r))"
proof -
  let ?s = "sv_store (srv_sv sv)" and ?k = "TrimPrefix (http_Path r) ''/api/kv/''"
  let ?reader = "\<lparr>rd_id = nextReader ?s + 1, rd_rev = head ?s, rd_minRev = head ?s, rd_closed = False\<rparr>"
  let ?s1 = "?s\<lparr>nextReader := nextReader ?s + 1, readers := mput (nextReader ?s + 1) ?reader (readers ?s)\<rparr>"
  have b: "BeginRead ?s (CurrentRev ?s) = (?s1, Inr ?reader)"
    by (simp add: BeginRead_def CurrentRev_def Let_def)
  obtain h where h: "tracks h ?s" using store_ready_tracks [OF server_ok_parts(6) [OF assms]] by blast
  have same: "tracks g (snd (Reader_Close ?reader ?s1))" if "tracks g ?s" for g
    using BeginRead_tracks [OF that, of "CurrentRev ?s"] Reader_Close_tracks [of g ?s1] unfolding b by simp
  note tr = same [OF h]
  have "server_ok n (set_sv sv ((srv_sv sv)\<lparr>sv_store := snd (Reader_Close ?reader ?s1)\<rparr>))"
    using assms tr server_ok_parts(6) [OF assms]
    by (intro server_ok_store) (auto simp: grows_def Reader_Close_def store_ready_def)
  then show ?thesis
    using assms log_same [OF same] by (simp add: handleKVGet_def b Let_def case_prod_unfold)
qed

section \<open>Leases\<close>

lemma handleLeaseCreate_ok:
  assumes "server_ok n sv"
  shows "server_ok n (fst (handleLeaseCreate t sv body)) \<and> quiet sv (fst (handleLeaseCreate t sv body))"
proof -
  have "server_ok n (set_sv sv ((srv_sv sv)\<lparr>sv_leases := m'\<rparr>))"
    if c: "Create t (sv_leases (srv_sv sv)) i ttl h = (m', r)" for i ttl h m' r
  proof -
    have "bound_total m' \<le> bound_total (sv_leases (srv_sv sv))"
      using c by (auto simp: Create_def bound_total_def sum_mput_Nil split: option.splits)
    then show ?thesis
      using server_ok_leases [of n 0 sv m'] assms Create_ok [OF server_ok_parts(4) [OF assms] c] by simp
  qed
  then show ?thesis
    using assms by (simp add: handleLeaseCreate_def Let_def split: sum.split prod.split option.split)
qed

lemma lease_call_ok:
  assumes "server_ok n sv"
  shows "\<exists>w r. svc_Renew lease_mgr_service i now (lease_part (srv_sv sv)) = Some (w, r)
      \<and> server_ok n (set_sv sv (set_lease_part w (srv_sv sv)))
      \<and> quiet sv (set_sv sv (set_lease_part w (srv_sv sv)))" (is ?renew)
    and "\<exists>w r. svc_Revoke lease_mgr_service t i (lease_part (srv_sv sv)) = Some (w, r)
      \<and> server_ok n (set_sv sv (set_lease_part w (srv_sv sv)))
      \<and> quiet sv (set_sv sv (set_lease_part w (srv_sv sv)))" (is ?revoke)
proof -
  note fr = server_frame [OF assms]
  show ?renew
    using election_frame.renew [OF fr, of i now] server_ok_set_part [OF assms] by blast
  show ?revoke
    using election_frame.revoke_held [OF fr, of i t] election_frame.revoke_free [OF fr, of i t]
      server_ok_set_part [OF assms] fr by blast
qed

lemma handleLeaseRenew_runs:
  assumes "server_ok n sv"
  shows "\<exists>sv' reply. handleLeaseRenew now sv body = Some (sv', reply) \<and> server_ok n sv' \<and> quiet sv sv'"
  using assms lease_call_ok(1) [OF assms, of "lr_ID (projr body)" now]
  by (cases body) (auto simp: handleLeaseRenew_def)

lemma handleLeaseRevoke_runs:
  assumes "server_ok n sv"
  shows "\<exists>sv' reply. handleLeaseRevoke t sv body = Some (sv', reply) \<and> server_ok n sv' \<and> quiet sv sv'"
  using assms lease_call_ok(2) [OF assms, of t "lr_ID (projr body)"]
  by (cases body) (auto simp: handleLeaseRevoke_def)

lemma handleLeaseBatchRenew_runs:
  assumes "server_ok n sv"
  shows "\<exists>sv' reply. handleLeaseBatchRenew now sv body = Some (sv', reply) \<and> server_ok n sv' \<and> quiet sv sv'"
proof (cases body)
  case (Inr ids)
  from handler_streams.frame_BatchRenew_from [OF server_frame [OF assms, unfolded lease_frame_def],
      of ids now "[]"] Inr server_ok_set_part [OF assms]
  show ?thesis by (fastforce simp: handleLeaseBatchRenew_def BatchRenew_def lease_frame_def)
qed (use assms in \<open>simp add: handleLeaseBatchRenew_def\<close>)

section \<open>Locks\<close>

lemma handleLockRelease_runs:
  assumes "server_ok (n + 3) sv"
  shows "\<exists>sv' reply. handleLockRelease sv body = Some (sv', reply) \<and> server_ok n sv' \<and> quiet sv sv'"
proof (cases body)
  case (Inr req)
  let ?v = "srv_sv sv" and ?n = "n + bound_total (sv_leases (srv_sv sv))"
  let ?alive = "Some (Alive (sv_leases ?v))" and ?w = "(sv_locks ?v, Some (sv_store ?v))"
  have room: "oready (?n + 3) (Some (sv_store ?v))"
    using server_ok_parts(6) [OF assms] by (simp add: oready_def ac_simps)
  from Release_refines [OF server_ok_parts(2) [OF assms] room, of ?alive "kr_ID req" "kr_Client req"]
  obtain lk st r where rel: "Release ?alive ?w (kr_ID req) (kr_Client req) = Some ((lk, st), r)"
    and ok: "lock_ok lk" "oready ?n st" "oextends (Some (sv_store ?v)) st" by (auto simp: refines_def)
  from Release_keeps [OF rel] obtain s' where st: "st = Some s'" and grows: "grows (sv_store ?v) s'"
    by (auto simp: ogrows_def option_rel_Some1)
  have "server_ok n (set_sv sv (?v\<lparr>sv_store := s'\<rparr>))"
    using ok(2) by (intro server_ok_store [OF assms grows]) (simp add: st oready_def)
  then have "server_ok n (set_sv sv (?v\<lparr>sv_locks := lk, sv_store := s'\<rparr>))"
    using ok(1) by (auto simp: server_ok_def set_sv_def services_ok_def)
  moreover have "length (wheap lk) = length (wheap (sv_locks ?v))" using Release_keeps [OF rel] by simp
  moreover have "log_extends (sv_store ?v) s'" using ok(3) by (simp add: st oextends_def)
  ultimately show ?thesis by (auto simp: handleLockRelease_def Inr rel st quiet_def set_sv_def)
qed (use server_ok_less [OF assms, of n] in \<open>simp add: handleLockRelease_def\<close>)

section \<open>Sessions\<close>

text \<open>The watches that reconnecting some sessions opens again.\<close>

definition watches_of :: "SessionMgr \<Rightarrow> SessionID \<Rightarrow> nat" where
  "watches_of m i = (case map_of (sessions m) i of None \<Rightarrow> 0 | Some sess \<Rightarrow> length (s_Watches sess))"

lemma watches_of_listed:
  assumes "mwf (sessions m)"
  shows "sum_list (map (watches_of m) (map fst (filter P (sessions m)))) \<le> watch_load m"
proof -
  have "watches_of m (fst p) = length (s_Watches (snd p))" if "p \<in> set (filter P (sessions m))" for p
    using mwf_in_iff [OF assms, of "fst p" "snd p"] that by (simp add: watches_of_def)
  then have "map (watches_of m) (map fst (filter P (sessions m))) =
      map (\<lambda>p. length (s_Watches (snd p))) (filter P (sessions m))" by simp
  then show ?thesis unfolding watch_load_def by (simp only: sum_list_filter_le)
qed

lemma watches_of_le: "watches_of m i \<le> watch_load m"
proof (cases "map_of (sessions m) i")
  case (Some sess)
  then have "length (s_Watches sess) \<in> set (map (\<lambda>p. length (s_Watches (snd p))) (sessions m))"
    using map_of_SomeD [OF Some] by force
  from member_le_sum_list [OF this] show ?thesis using Some by (simp add: watches_of_def watch_load_def)
qed (simp add: watches_of_def)

lemma lost_keys_bound:
  "lease_ok m \<Longrightarrow> distinct is \<Longrightarrow> length (concat (map (\<lambda>i. lost_keys m i now) is)) \<le> bound_total m"
proof (induction "is" arbitrary: m)
  case (Cons i "is")
  have "lost_keys (renew_mgr m i now) j now = lost_keys m j now" if "j \<in> set is" for j
    using renew_other(3) [of j i m now now] that Cons.prems(2) by auto
  then have "concat (map (\<lambda>j. lost_keys (renew_mgr m i now) j now) is) = concat (map (\<lambda>j. lost_keys m j now) is)"
    by (metis (no_types, lifting) map_eq_conv)
  then show ?case
    using Cons.IH [OF lease_ok_renew [OF Cons.prems(1)], of i now] Cons.prems
      bound_total_renew [OF Cons.prems(1), of i now] by simp
qed simp

lemma watch_load_put:
  assumes "mwf (sessions m)"
  shows "watch_load (put_session m i sess) + watches_of m i = watch_load m + length (s_Watches sess)"
  using sum_mput [OF assms, of "\<lambda>s. length (s_Watches s)" i sess]
  by (simp add: watch_load_def watches_of_def put_session_def cong: option.case_cong)

lemma length_resume_plan: "length (resume_plan ok keys n a ws) \<le> length ws"
  by (induction ok keys n a ws rule: resume_plan.induct) (auto intro: le_SucI)

definition parts_ok :: "nat \<Rightarrow> services \<Rightarrow> bool" where
  "parts_ok n v \<longleftrightarrow> services_ok v \<and> lock_ok (sv_locks v)
     \<and> store_ready (n + bound_total (sv_leases v)) (sv_store v)"

lemma server_ok_iff: "server_ok n sv \<longleftrightarrow> parts_ok n (srv_sv sv) \<and> election_ok (srv_el sv)"
  by (auto simp: server_ok_def parts_ok_def)

lemma store_ready_head: "store_ready n s \<Longrightarrow> tracks h s \<Longrightarrow> tracks h s' \<Longrightarrow> store_ready n s'"
  by (auto simp: store_ready_def tracks_def)

lemma Reconnect_ok:
  assumes ok: "parts_ok n v" and room: "id_room (watches_of (sv_mgr v) i) (sv_watcher v)"
  shows "\<exists>v' res. Reconnect (Some expiryHandler) now1 now2 v i = Some (v', res) \<and> parts_ok n v'
    \<and> (\<forall>j. j \<noteq> i \<longrightarrow> watches_of (sv_mgr v') j = watches_of (sv_mgr v) j)
    \<and> watch_load (sv_mgr v') \<le> watch_load (sv_mgr v) \<and> sv_locks v' = sv_locks v
    \<and> log_extends (sv_store v) (sv_store v')
    \<and> unat (w_nextID (sv_watcher v')) = unat (w_nextID (sv_watcher v)) + watches_of (sv_mgr v) i"
proof (cases "map_of (sessions (sv_mgr v)) i")
  case None
  then show ?thesis using ok by (simp add: Reconnect_def watches_of_def)
next
  case (Some sess)
  let ?w = "(sv_leases v, (sv_locks v, sv_store v))"
  have sok: "services_ok v" and lok: "lease_ok (sv_leases v)" and kok: "lock_ok (sv_locks v)"
    and ready: "store_ready (n + bound_total (sv_leases v)) (sv_store v)"
    using ok by (auto simp: parts_ok_def services_ok_def)
  have "distinct (s_LeaseIDs sess)"
    using sok Some by (auto simp: services_ok_def session_ok_def dest: sessions_okD)
  from lost_keys_bound [OF lok this, of now1] have "renewal_room now1 v i \<le> n + bound_total (sv_leases v)"
    by (simp add: renewal_room_def Some)
  then have writes: "store_ready (renewal_room now1 v i) (sv_store v)" by (rule store_ready_less [OF ready])
  have ids: "watch_room v i" using room by (simp add: watch_room_def watches_of_def Some)
  from Reconnect_runs [OF sok Some ids writes, of now2] obtain l1 s1 h v' res m' renewed ok where
    r: "RenewMany (Some expiryHandler) ?w (s_LeaseIDs sess) now1 = Some ((l1, (sv_locks v, s1)), renewed)"
      "tracks h s1" "Reconnect (Some expiryHandler) now1 now2 v i = Some (v', res)" "services_ok v'"
      "tracks h (sv_store v')" "sv_leases v' = l1" "sv_locks v' = sv_locks v \<and> log_extends (sv_store v) (sv_store v')"
      "sv_mgr v' = put_session (sv_mgr v) i m'" "s_Watches m' = plan_watches (resume_plan ok (s_Keys sess)
        (w_nextID (sv_watcher v)) (length (w_heap (sv_watcher v))) (s_Watches sess))"
      "unat (w_nextID (sv_watcher v')) = unat (w_nextID (sv_watcher v)) + length (s_Watches sess)"
    unfolding Let_def by force
  have "lease_frame n (sv_locks v, sv_store v) ?w" using lok ready by (simp add: lease_frame_iff)
  from handler_streams.frame_RenewMany [OF this [unfolded lease_frame_def], of "s_LeaseIDs sess" now1] r(1)
  have "store_ready (n + bound_total l1) s1"
    by (simp add: lease_frame_def [symmetric] lease_frame_iff)
  then have "parts_ok n v'"
    using r(4,6,7) kok store_ready_head [OF _ r(2,5)] by (simp add: parts_ok_def)
  moreover have "length (s_Watches m') \<le> watches_of (sv_mgr v) i"
    using Some by (simp add: r(9) plan_watches_def length_resume_plan watches_of_def)
  moreover have "mwf (sessions (sv_mgr v))" using sok by (simp add: services_ok_def sessions_ok_def)
  ultimately show ?thesis
    using r(3,7,8,10) Some watch_load_put [of "sv_mgr v" i m'] by (auto simp: watches_of_def)
qed

lemma ResumeAll_ok:
  assumes "parts_ok n v" and "distinct (map fst ids)"
    and "id_room (sum_list (map (watches_of (sv_mgr v)) (map fst ids))) (sv_watcher v)"
  shows "\<exists>v' restored. ResumeAll (Some expiryHandler) v ids = Some (v', restored) \<and> parts_ok n v'
    \<and> watch_load (sv_mgr v') \<le> watch_load (sv_mgr v) \<and> sv_locks v' = sv_locks v
    \<and> log_extends (sv_store v) (sv_store v')
    \<and> unat (w_nextID (sv_watcher v')) = unat (w_nextID (sv_watcher v))
        + sum_list (map (watches_of (sv_mgr v)) (map fst ids))"
  using assms
proof (induction ids arbitrary: v)
  case (Cons p ids)
  obtain i now1 now2 where p: "p = (i, now1, now2)" by (metis surj_pair)
  have "id_room (watches_of (sv_mgr v) i) (sv_watcher v)"
    using Cons.prems(3) by (rule id_room_less) (simp add: p)
  from Reconnect_ok [OF Cons.prems(1) this, of now1 now2] obtain v1 res where
    r: "Reconnect (Some expiryHandler) now1 now2 v i = Some (v1, res)" "parts_ok n v1"
      "\<forall>j. j \<noteq> i \<longrightarrow> watches_of (sv_mgr v1) j = watches_of (sv_mgr v) j"
      "watch_load (sv_mgr v1) \<le> watch_load (sv_mgr v)" "sv_locks v1 = sv_locks v \<and> log_extends (sv_store v) (sv_store v1)"
      "unat (w_nextID (sv_watcher v1)) = unat (w_nextID (sv_watcher v)) + watches_of (sv_mgr v) i"
    by blast
  have "\<forall>j \<in> set (map fst ids). watches_of (sv_mgr v1) j = watches_of (sv_mgr v) j"
    using r(3) Cons.prems(2) by (auto simp: p)
  then have same: "map (watches_of (sv_mgr v1)) (map fst ids) = map (watches_of (sv_mgr v)) (map fst ids)"
    by (simp only: map_eq_conv)
  have "id_room (sum_list (map (watches_of (sv_mgr v1)) (map fst ids))) (sv_watcher v1)"
    unfolding same using Cons.prems(3) r(6) by (simp add: id_room_def p)
  from Cons.IH [OF r(2) _ this] Cons.prems(2) obtain v' restored where
    "ResumeAll (Some expiryHandler) v1 ids = Some (v', restored)" "parts_ok n v'"
    "watch_load (sv_mgr v') \<le> watch_load (sv_mgr v1)" "sv_locks v' = sv_locks v1"
    "log_extends (sv_store v1) (sv_store v')"
    "unat (w_nextID (sv_watcher v')) = unat (w_nextID (sv_watcher v1))
        + sum_list (map (watches_of (sv_mgr v)) (map fst ids))"
    unfolding same by (auto simp: p)
  then show ?case using r(1,4-6) by (auto simp: p intro: log_extends_trans)
qed simp

lemma watch_load_same:
  assumes "mwf (sessions m)" and "length (s_Watches sess) = watches_of m i"
  shows "watch_load (put_session m i sess) = watch_load m"
  using watch_load_put [OF assms(1), of i sess] assms(2) by simp

lemma Connect_load: "mwf (sessions m) \<Longrightarrow> watch_load (fst (Connect now m i)) = watch_load m"
  by (auto simp: Connect_def intro!: watch_load_same simp: watches_of_def split: option.split)

lemma BindLease_load: "mwf (sessions m) \<Longrightarrow> watch_load (fst (BindLease m i l)) = watch_load m"
  by (auto simp: BindLease_def intro!: watch_load_same simp: watches_of_def split: option.split)

lemma handleSessionConnect_ok:
  assumes "server_ok n sv"
  shows "server_ok n (fst (handleSessionConnect now sv body)) \<and> tame sv (fst (handleSessionConnect now sv body))"
proof -
  let ?v = "srv_sv sv"
  have sok: "sessions_ok (sv_watcher ?v) (sv_mgr ?v)" by (rule server_ok_parts(5) [OF assms])
  define good where "good m \<longleftrightarrow> server_ok n (set_sv sv (?v\<lparr>sv_mgr := m\<rparr>)) \<and> tame sv (set_sv sv (?v\<lparr>sv_mgr := m\<rparr>))" for m
  have wf: "sessions_ok (sv_watcher ?v) m \<Longrightarrow> mwf (sessions m)" for m by (simp add: sessions_ok_def)
  have good: "good m" if "sessions_ok (sv_watcher ?v) m" "watch_load m = watch_load (sv_mgr ?v)" for m
    using assms that by (auto simp: good_def server_ok_def set_sv_def services_ok_def tame_def)
  note c = Connect_ok [OF sok]
  have "good (fst (Connect now (sv_mgr ?v) i))" for i
    by (rule good [OF c]) (simp add: Connect_load wf [OF sok])
  moreover have "good (fst (BindLease (fst (Connect now (sv_mgr ?v) i)) i l))" for i l
    by (rule good [OF BindLease_ok [OF c]]) (simp add: BindLease_load wf [OF c] Connect_load wf [OF sok])
  ultimately show ?thesis
    using assms
    by (simp add: handleSessionConnect_def Let_def case_prod_unfold good_def quiet_tame split: sum.split option.split)
qed

lemma handleSessionReconnect_runs:
  assumes "server_ok n sv" and "id_room (watch_load (sv_mgr (srv_sv sv))) (sv_watcher (srv_sv sv))"
  shows "\<exists>sv' reply. handleSessionReconnect now1 now2 sv body = Some (sv', reply) \<and> server_ok n sv' \<and> tame sv sv'"
proof (cases body)
  case (Inr req)
  have "id_room (watches_of (sv_mgr (srv_sv sv)) (sr_ID req)) (sv_watcher (srv_sv sv))"
    by (rule id_room_less [OF assms(2) watches_of_le])
  from Reconnect_ok [OF _ this, of n now1 now2] assms(1) show ?thesis
    using watches_of_le [of "sv_mgr (srv_sv sv)" "sr_ID req"]
    by (auto simp: handleSessionReconnect_def Inr server_ok_iff set_sv_def tame_def)
qed (use assms in \<open>auto simp: handleSessionReconnect_def\<close>)

lemma handleSessionResumeAll_runs:
  assumes "server_ok n sv" and "id_room (watch_load (sv_mgr (srv_sv sv))) (sv_watcher (srv_sv sv))"
  shows "\<exists>sv' reply. handleSessionResumeAll rds sv = Some (sv', reply) \<and> server_ok n sv' \<and> tame sv sv'"
proof -
  let ?m = "sv_mgr (srv_sv sv)"
  let ?ids = "SessionsByState ?m SessionDisconnected"
  have wf: "mwf (sessions ?m)" using server_ok_parts(5) [OF assms(1)] by (simp add: sessions_ok_def)
  have ids: "?ids = map fst (filter (\<lambda>p. s_State (snd p) = SessionDisconnected) (sessions ?m))"
    by (simp add: SessionsByState_def case_prod_unfold)
  have fst: "map fst (map (\<lambda>i. (i, rds i)) ?ids) = ?ids" by (simp add: comp_def)
  have dist: "distinct ?ids" using wf unfolding ids mwf_def by (rule distinct_map_filter)
  have "id_room (sum_list (map (watches_of ?m) ?ids)) (sv_watcher (srv_sv sv))"
    unfolding ids by (rule id_room_less [OF assms(2) watches_of_listed [OF wf]])
  from ResumeAll_ok [of n "srv_sv sv" "map (\<lambda>i. (i, rds i)) ?ids", unfolded fst, OF _ dist this] assms(1)
  show ?thesis
    using watches_of_listed [OF wf, of "\<lambda>p. s_State (snd p) = SessionDisconnected"]
    by (auto simp: handleSessionResumeAll_def server_ok_iff set_sv_def tame_def ids)
qed

section \<open>Elections\<close>

lemma Campaign_ok:
  assumes "server_ok n sv" and "Campaign lease_mgr_service t hb (lease_part (srv_sv sv), srv_el sv) = (we, r)"
  shows "server_ok n (set_election sv we) \<and> quiet sv (set_election sv we)"
proof (cases "el_role (srv_el sv) = RoleLeader")
  case True
  then have "we = (lease_part (srv_sv sv), srv_el sv)"
    using assms(2) by (simp add: Campaign_def Campaign_enter_def)
  then show ?thesis
    using server_ok_lease_part [OF assms(1) server_frame [OF assms(1)] server_ok_parts(3) [OF assms(1)]]
    by (simp add: set_election_def)
next
  case False
  from election_frame.Campaign_runs [OF server_frame [OF assms(1)] server_ok_parts(3) [OF assms(1)] False, of t hb]
    assms(2) show ?thesis
    by (auto simp: set_election_def intro!: server_ok_lease_part [OF assms(1)])
qed

lemma handleElectionCampaign_ok:
  assumes "server_ok n sv"
  shows "server_ok n (fst (handleElectionCampaign t hb sv body)) \<and> quiet sv (fst (handleElectionCampaign t hb sv body))"
  using assms Campaign_ok [OF assms prod.collapse [symmetric], of t hb]
  by (simp add: handleElectionCampaign_def Let_def case_prod_unfold split: sum.split option.split)

lemma handleElectionHandoff_runs:
  assumes "server_ok n sv"
  shows "\<exists>sv' reply. handleElectionHandoff t hb sv body = Some (sv', reply) \<and> server_ok n sv' \<and> quiet sv sv'"
proof (cases "\<exists>req. body = Inr req \<and> er_NewName req \<noteq> [] \<and> er_NewTerm req \<noteq> 0")
  case True
  then obtain req where req: "body = Inr req" "er_NewName req \<noteq> []" "er_NewTerm req \<noteq> 0" by blast
  from election_frame.Handoff_runs [OF server_frame [OF assms] server_ok_parts(3) [OF assms],
      of t hb "er_NewTerm req" "er_NewName req"]
  obtain l' e' r where h: "Handoff lease_mgr_service t hb (er_NewTerm req) (er_NewName req)
      (lease_part (srv_sv sv), srv_el sv) = Some ((l', e'), r)"
    "lease_frame n (snd (lease_part (srv_sv sv))) l'" "election_ok e'" by auto
  from server_ok_lease_part [OF assms h(2,3)] show ?thesis
    using req h(1) by (simp add: handleElectionHandoff_def set_election_def Let_def)
qed (use assms in \<open>auto simp: handleElectionHandoff_def split: sum.splits\<close>)

lemma election_ok_Follow: "election_ok e \<Longrightarrow> election_ok (Follow e)"
  by (auto simp: Follow_def election_ok_def split: if_splits)

lemma handleElectionResign_runs:
  assumes "server_ok n sv"
  shows "\<exists>sv' reply. handleElectionResign t sv = Some (sv', reply) \<and> server_ok n sv' \<and> quiet sv sv'"
proof -
  from election_frame.Resign_runs [OF server_frame [OF assms] server_ok_parts(3) [OF assms], of t]
  obtain l' e' where h: "Resign lease_mgr_service t (lease_part (srv_sv sv), srv_el sv) = Some (l', e')"
    "lease_frame n (snd (lease_part (srv_sv sv))) l'" "election_ok e'" by auto
  from server_ok_lease_part [OF assms h(2) election_ok_Follow [OF h(3)]] show ?thesis
    using h(1) by (simp add: handleElectionResign_def set_election_def)
qed

section \<open>Every request that does not wait\<close>

lemma Topic_defined: "0 < shards \<Longrightarrow> shards < 2 ^ 32 \<Longrightarrow> Topic key shards \<noteq> None"
  using Topic_range [of shards key] by auto

lemma topic_samples_runs: "0 < shards \<Longrightarrow> shards < 2 ^ 32 \<Longrightarrow> topic_samples rows shards n \<noteq> None"
proof (induction rows shards n rule: topic_samples.induct)
  case (2 key vv rest shards n)
  obtain t where "Topic key shards = Some t" using Topic_defined [OF 2(2,3)] by blast
  with 2 show ?case by (cases "8 \<le> n") auto
qed simp

lemma handleStatus_runs: "\<exists>reply. handleStatus sv = Some reply"
proof -
  let ?s = "sv_store (srv_sv sv)"
  have "0 < int (ShardCount ?s)" "int (ShardCount ?s) < 2 ^ 32" by (simp_all add: ShardCount_def)
  from topic_samples_runs [OF this, of "Snapshot ?s (CurrentRev ?s)" 0]
  obtain samples where "topic_samples (Snapshot ?s (CurrentRev ?s)) (int (ShardCount ?s)) 0 = Some samples"
    by blast
  then show ?thesis by (simp add: handleStatus_def Let_def case_prod_unfold)
qed

definition served :: "nat \<Rightarrow> Server \<Rightarrow> (Server \<times> Response) option \<Rightarrow> bool" where
  "served n sv res \<longleftrightarrow> (\<exists>sv' reply. res = Some (sv', reply) \<and> server_ok n sv' \<and> tame sv sv')"

lemma served_Some [simp]: "served n sv (Some p) \<longleftrightarrow> server_ok n (fst p) \<and> tame sv (fst p)"
  by (cases p) (simp add: served_def)

lemma served_quiet: "\<exists>sv' reply. res = Some (sv', reply) \<and> server_ok n sv' \<and> quiet sv sv' \<Longrightarrow> served n sv res"
  by (auto simp: served_def)

lemma serve_route_runs:
  assumes "server_ok (n + 3) sv" and "\<not> waits rt"
    and "id_room (watch_load (sv_mgr (srv_sv sv))) (sv_watcher (srv_sv sv))"
  shows "\<exists>sv' reply. serve_route rd sv r rt = Some (sv', reply) \<and> server_ok n sv' \<and> tame sv sv'"
proof -
  have ok: "server_ok n sv" "server_ok (n + 2) sv" by (rule server_ok_less [OF assms(1)]; simp)+
  note pure = ok(1) pure_reply_def
  note runs = handleKVPut_runs [OF ok(2), THEN served_quiet] handleLeaseRenew_runs [OF ok(1), THEN served_quiet]
    handleLeaseRevoke_runs [OF ok(1), THEN served_quiet] handleLeaseBatchRenew_runs [OF ok(1), THEN served_quiet]
    handleLockRelease_runs [OF assms(1), THEN served_quiet] handleElectionHandoff_runs [OF ok(1), THEN served_quiet]
    handleElectionResign_runs [OF ok(1), THEN served_quiet]
    handleSessionReconnect_runs [OF ok(1) assms(3), folded served_def]
    handleSessionResumeAll_runs [OF ok(1) assms(3), folded served_def]
  note keeps = handleKVGet_ok [OF ok(1)] handleLeaseCreate_ok [OF ok(1)] handleSessionConnect_ok [OF ok(1)]
    handleElectionCampaign_ok [OF ok(1)]
  obtain status where "handleStatus sv = Some status" using handleStatus_runs by blast
  then have "served n sv (serve_route rd sv r rt)"
    using assms(2)
    by (cases rt) (simp_all add: runs keeps ok(1) quiet_tame pure_reply_def waits_def)
  then show ?thesis by (simp add: served_def)
qed

end
