(* ===== verification/ServiceRuns.thy ===== *)
theory ServiceRuns
  imports Service ApiProps
begin

text \<open>
  What holds in every state that the process reaches, for a bounded number of steps: revisions
  and watch ids are 64-bit counters, and the bound keeps them from wrapping around.
\<close>

section \<open>The rounds\<close>

lemma expiry_round_runs:
  assumes "server_ok n sv"
  shows "\<exists>sv'. expiry_round now sv = Some sv' \<and> server_ok n sv' \<and> tame sv sv'"
proof -
  let ?m = "sv_leases (srv_sv sv)"
  note ok = server_ok_parts(4) [OF assms]
  have "set_lease_part (expired_mgr ?m now, snd (lease_part (srv_sv sv))) (srv_sv sv)
      = (srv_sv sv)\<lparr>sv_leases := expired_mgr ?m now\<rparr>"
    by (simp add: set_lease_part_def lease_part_def)
  then have r: "expiry_round now sv = Some (set_sv sv ((srv_sv sv)\<lparr>sv_leases := expired_mgr ?m now\<rparr>))"
    using ExpireOnce_eq(1) [OF ok, of "Some expiryHandler" "snd (lease_part (srv_sv sv))" now]
    by (simp add: expiry_round_def lease_part_def)
  have "bound_total (expired_mgr ?m now) = bound_total ?m"
    by (simp add: bound_total_def expired_mgr_def)
  then have "server_ok n (set_sv sv ((srv_sv sv)\<lparr>sv_leases := expired_mgr ?m now\<rparr>))"
    using server_ok_leases [of n 0 sv "expired_mgr ?m now"] assms ExpireOnce_eq(2) [OF ok] by simp
  then show ?thesis using r by (auto intro: quiet_tame quiet_set)
qed

lemma heartbeat_round_runs:
  assumes "server_ok n sv"
  shows "\<exists>sv'. run_round now hb1 hb2 HeartbeatRound sv = Some sv' \<and> server_ok n sv' \<and> tame sv sv'"
proof -
  let ?w = "(lease_part (srv_sv sv), srv_el sv)"
  note fr = server_frame [OF assms] and el = server_ok_parts(3) [OF assms]
  have "\<exists>l e. heartbeat_tick lease_mgr_service now hb1 hb2 ?w = Some (l, e)
      \<and> lease_frame n (snd (lease_part (srv_sv sv))) l \<and> election_ok e"
  proof (cases "el_role (srv_el sv) = RoleLeader")
    case True
    from election_frame.stepDown_runs [OF fr el, of now]
      election_frame.Heartbeat_runs [OF fr el True, of now hb2]
    show ?thesis by (auto simp: heartbeat_tick_def)
  next
    case False
    then show ?thesis using fr el by (simp add: heartbeat_tick_def CheckTimeout_def Heartbeat_def)
  qed
  then show ?thesis
    using server_ok_lease_part(1) [OF assms] server_ok_lease_part(2) [OF assms, THEN quiet_tame]
    by (fastforce simp: set_election_def)
qed

text \<open>
  \<^verbatim>\<open>retain + 8\<close> may wrap around, and then \<^verbatim>\<open>head - retain\<close> does too: it exceeds the head by at most 8.
\<close>

lemma reclaim_bound:
  fixes a retain :: uint64
  assumes "retain + 8 < a" and "unat a + 9 < 2 ^ 63"
  shows "Suc (unat (a - retain)) < 2 ^ 63"
proof (cases "retain \<le> a")
  case True
  then have "unat (a - retain) \<le> unat a" by (simp add: unat_sub)
  then show ?thesis using assms(2) by simp
next
  case False
  then have gt: "unat a < unat retain" by (simp add: word_le_nat_alt)
  have lt: "unat retain < 2 ^ 64" using unsigned_less [of retain] by simp
  have sum: "unat (retain + 8) = (unat retain + 8) mod 2 ^ 64" by (simp add: unat_word_ariths)
  have "unat (retain + 8) < unat a" using assms(1) by (simp add: word_less_nat_alt)
  then have wrap: "2 ^ 64 \<le> unat retain + 8" using gt sum by (cases "unat retain + 8 < 2 ^ 64") simp_all
  have "unat (a - retain) = unat a + (2 ^ 64 - unat retain)"
    using False gt lt by (simp add: unat_sub_if' word_le_nat_alt)
  then show ?thesis using wrap assms(2) lt by simp
qed

lemma reclaim_round_runs:
  assumes "server_ok (n + 9) sv"
  shows "\<exists>sv'. run_round now hb1 hb2 ReclaimRound sv = Some sv' \<and> server_ok (n + 9) sv' \<and> tame sv sv'"
proof -
  let ?s = "sv_store (srv_sv sv)" and ?r = "cfg_RetainRevisions (srv_cfg sv)"
  note ready = server_ok_parts(6) [OF assms]
  obtain h where h: "tracks h ?s" using store_ready_tracks [OF ready] by blast
  have room: "unat (head ?s) + 9 < 2 ^ 63" using ready by (simp add: store_ready_def)
  have same: "tracks g (reclaim_tick ?r ?s)" if "tracks g ?s" for g
    using Reclaim_tracks [OF that reclaim_bound [OF _ room]] that
    by (simp add: reclaim_tick_def CurrentRev_def Let_def)
  have "grows ?s (reclaim_tick ?r ?s)" by (simp add: grows_def reclaim_tick_def Let_def)
  then show ?thesis
    using server_ok_store [OF assms _ store_ready_head [OF ready h same [OF h]]] log_same [OF same]
    by (auto intro: quiet_tame quiet_set)
qed

lemma watch_load_close_in: "watch_load (close_in I m) = watch_load m"
  by (simp add: watch_load_def close_in_def case_prod_unfold comp_def if_distrib cong: if_cong)

text \<open>Cancelling watches, whatever becomes of the sessions.\<close>

lemma cancelled_ok:
  assumes "server_ok n sv" and "services_ok v'" and "tracks h (sv_store (srv_sv sv))" and "tracks h (sv_store v')"
    and "cancelled ids (srv_sv sv) v'" and "watch_load (sv_mgr v') = watch_load (sv_mgr (srv_sv sv))"
    and "log_extends (sv_store (srv_sv sv)) (sv_store v')"
  shows "server_ok n (set_sv sv v') \<and> tame sv (set_sv sv v')"
  using assms store_ready_head [OF server_ok_parts(6) [OF assms(1)] assms(3,4)]
  by (auto simp: server_ok_def cancelled_def set_sv_def tame_def)

lemma stale_round_runs:
  assumes "server_ok n sv"
  shows "\<exists>sv'. stale_round now sv = Some sv' \<and> server_ok n sv' \<and> tame sv sv'"
proof -
  let ?v = "srv_sv sv"
  obtain h where h: "tracks h (sv_store ?v)" using store_ready_tracks [OF server_ok_parts(6) [OF assms]] by blast
  from close_all_runs [OF server_ok_parts(1) [OF assms] h, of "stale_ids now (sv_mgr ?v)"] obtain v' where
    v': "close_all (stale_ids now (sv_mgr ?v)) ?v = Some v'" "services_ok v'" "tracks h (sv_store v')"
      "sv_mgr v' = close_in (set (stale_ids now (sv_mgr ?v))) (sv_mgr ?v)"
      "cancelled (watches_in (set (stale_ids now (sv_mgr ?v))) (sv_mgr ?v)) ?v v'" by blast
  have "watch_load (sv_mgr v') = watch_load (sv_mgr ?v)" by (simp add: v'(4) watch_load_close_in)
  from cancelled_ok [OF assms v'(2) h v'(3,5) this close_all_extends [OF v'(1) server_ok_parts(1) [OF assms]]]
  show ?thesis
    using v'(1) by (simp add: stale_round_def ExpireStale_def)
qed

lemma round_runs:
  assumes "server_ok (n + 9) sv"
  shows "\<exists>sv'. run_round now hb1 hb2 rnd sv = Some sv' \<and> server_ok (n + 9) sv' \<and> tame sv sv'"
  using expiry_round_runs [OF assms] heartbeat_round_runs [OF assms] reclaim_round_runs [OF assms]
    stale_round_runs [OF assms] by (cases rnd) simp_all

section \<open>Watches\<close>

text \<open>The bounded growth that every step stays within.\<close>

definition advance :: "Server \<Rightarrow> Server \<Rightarrow> bool" where
  "advance sv sv' \<longleftrightarrow> watch_load (sv_mgr (srv_sv sv')) \<le> Suc (watch_load (sv_mgr (srv_sv sv)))
     \<and> unat (w_nextID (sv_watcher (srv_sv sv')))
         \<le> Suc (unat (w_nextID (sv_watcher (srv_sv sv))) + watch_load (sv_mgr (srv_sv sv)))
     \<and> length (wheap (sv_locks (srv_sv sv'))) \<le> Suc (length (wheap (sv_locks (srv_sv sv))))
     \<and> srv_cfg sv' = srv_cfg sv \<and> log_extends (sv_store (srv_sv sv)) (sv_store (srv_sv sv'))"

lemma tame_advance: "tame sv sv' \<Longrightarrow> advance sv sv'"
  by (auto simp: tame_def advance_def)

lemma RegisterWatch_locks: "RegisterWatch v i key c = Some (v', res) \<Longrightarrow> sv_locks v' = sv_locks v \<and> sv_leases v' = sv_leases v"
  by (auto simp: RegisterWatch_def Let_def split: Option.bind_splits sum.splits option.splits)

lemma RegisterWatch_load:
  assumes "RegisterWatch v i key c = Some (v', res)" and "mwf (sessions (sv_mgr v))"
  shows "watch_load (sv_mgr v') \<le> Suc (watch_load (sv_mgr v))"
proof -
  have put: "watch_load (put_session (sv_mgr v) i (sess\<lparr>s_Watches := mput j c (s_Watches sess), s_Keys := ks,
      s_Chans := cs\<rparr>)) \<le> Suc (watch_load (sv_mgr v))"
    if "map_of (sessions (sv_mgr v)) i = Some sess" for sess j ks cs
    using watch_load_put [OF assms(2), of i "sess\<lparr>s_Watches := mput j c (s_Watches sess), s_Keys := ks, s_Chans := cs\<rparr>"]
      length_mput [of j c "s_Watches sess"] that by (simp add: watches_of_def)
  show ?thesis
    using assms(1)
    by (auto simp: RegisterWatch_def Let_def intro!: put
        split: Option.bind_splits sum.splits option.splits)
qed

lemma handleWatch_open_runs:
  assumes ok: "server_ok n sv" and room: "id_room 1 (sv_watcher (srv_sv sv))"
  shows "\<exists>sv' out. handleWatch_open now flushes peer sv r = Some (sv', out) \<and> server_ok n sv' \<and> advance sv sv'"
proof (cases flushes)
  case False
  then show ?thesis using ok by (simp add: handleWatch_open_def Let_def tame_advance quiet_tame)
next
  case True
  let ?v = "srv_sv sv"
  let ?i = "http_Query r ''session''" and ?k = "http_Query r ''key''" and ?c = "rev_parameter (http_Query r ''rev'') 0"
  obtain h where h: "tracks h (sv_store ?v)" using store_ready_tracks [OF server_ok_parts(6) [OF ok]] by blast
  have wf: "mwf (sessions (sv_mgr ?v))" using server_ok_parts(5) [OF ok] by (simp add: sessions_ok_def)
  from RegisterWatch_runs [OF server_ok_parts(1) [OF ok] h room, of ?i ?k ?c] obtain v1 res where
    v1: "RegisterWatch ?v ?i ?k ?c = Some (v1, res)" "services_ok v1" "tracks h (sv_store v1)"
      "w_nextID (sv_watcher v1) = w_nextID (sv_watcher ?v) + 1" by blast
  note keep = RegisterWatch_locks [OF v1(1)] RegisterWatch_extends [OF v1(1) server_ok_parts(1) [OF ok] room]
  have id: "unat (w_nextID (sv_watcher v1)) = Suc (unat (w_nextID (sv_watcher ?v)))"
    using next_id(1) [OF room] by (simp add: v1(4))
  have load: "watch_load (sv_mgr v1) \<le> Suc (watch_load (sv_mgr ?v))"
    using RegisterWatch_load [OF v1(1) wf] .
  have good: "server_ok n (set_sv sv v) \<and> advance sv (set_sv sv v)"
    if "services_ok v" "sv_store v = sv_store v1" "sv_locks v = sv_locks v1" "sv_leases v = sv_leases v1"
      "w_nextID (sv_watcher v) = w_nextID (sv_watcher v1)" "watch_load (sv_mgr v) = watch_load (sv_mgr v1)" for v
    using ok that keep id load store_ready_head [OF server_ok_parts(6) [OF ok] h v1(3)]
    by (auto simp: server_ok_def set_sv_def advance_def)
  have good_end: "server_ok n (set_sv sv (AttachPeer now v1 i j p)) \<and> advance sv (set_sv sv (AttachPeer now v1 i j p))"
    for i j p
  proof (rule good)
    show "services_ok (AttachPeer now v1 i j p)" by (rule session_step_ok [OF v1(2) attach])
    have "mwf (sessions (sv_mgr v1))" using v1(2) by (simp add: services_ok_def sessions_ok_def)
    then show "watch_load (sv_mgr (AttachPeer now v1 i j p)) = watch_load (sv_mgr v1)"
      by (auto simp: AttachPeer_def intro!: watch_load_same simp: watches_of_def split: option.split)
  qed (simp_all add: AttachPeer_def Attach_def Let_def set_sub_def split: option.split)
  show ?thesis
  proof (cases res)
    case (Inl err)
    then show ?thesis using True good [OF v1(2)] v1(1) by (simp add: handleWatch_open_def)
  next
    case (Inr p)
    then show ?thesis using True good_end v1(1) by (cases p) (simp add: handleWatch_open_def)
  qed
qed

lemma handleWatch_end_runs:
  assumes "server_ok n sv"
  shows "\<exists>sv'. handleWatch_end sv i peer = Some sv' \<and> server_ok n sv' \<and> tame sv sv'"
proof -
  let ?v = "srv_sv sv"
  obtain h where h: "tracks h (sv_store ?v)" using store_ready_tracks [OF server_ok_parts(6) [OF assms]] by blast
  from cancel_all_runs [OF server_ok_parts(1) [OF assms] h, of "[i]"] obtain v1 where
    v1: "cancel_all [i] ?v = Some v1" "services_ok v1" "tracks h (sv_store v1)" "sv_mgr v1 = sv_mgr ?v"
      "cancelled (set [i]) ?v v1" by blast
  let ?v1 = "v1\<lparr>sv_closed := sv_closed v1 @ [(peer, i)]\<rparr>"
  have "services_ok ?v1" using v1(2) by (simp add: services_ok_def)
  moreover have "cancelled (set [i]) ?v ?v1" using v1(5) by (simp add: cancelled_def)
  ultimately have "server_ok n (set_sv sv ?v1) \<and> tame sv (set_sv sv ?v1)"
    using v1(3,4) cancel_all_extends [OF v1(1) server_ok_parts(1) [OF assms]]
    by (intro cancelled_ok [OF assms _ h]) simp_all
  then show ?thesis using v1(1) by (simp add: handleWatch_end_def del: cancel_all.simps)
qed

lemma deliver_ok:
  assumes ok: "server_ok n sv" and step: "thread_step a k t (watch_part (srv_sv sv) ts) r"
  shows "server_ok n (set_sv sv ((srv_sv sv)\<lparr>sv_store := ws_store r, sv_watcher := ws_mgr r\<rparr>))
    \<and> tame sv (set_sv sv ((srv_sv sv)\<lparr>sv_store := ws_store r, sv_watcher := ws_mgr r\<rparr>))"
proof -
  let ?v = "srv_sv sv"
  obtain h where h: "tracks h (sv_store ?v)" using store_ready_tracks [OF server_ok_parts(6) [OF ok]] by blast
  have wok: "watcher_ok (sv_store ?v) (ws_mgr (watch_part ?v ts))"
    using server_ok_parts(1) [OF ok] by (simp add: watch_part_def services_ok_def)
  have same: "tracks g (ws_store r)" if "tracks g (sv_store ?v)" for g
    using thread_step_store(1) [OF step, of g] that by (simp add: watch_part_def)
  have "w_nextID (ws_mgr r) = w_nextID (sv_watcher ?v)"
    using thread_step_watcher(3) [OF step wok] by (simp add: watch_part_def)
  moreover have "services_ok (?v\<lparr>sv_store := ws_store r, sv_watcher := ws_mgr r\<rparr>)"
    using session_step_ok [OF server_ok_parts(1) [OF ok] session_step.deliver [OF step [unfolded watch_part_def]]] .
  ultimately show ?thesis
    using ok store_ready_head [OF server_ok_parts(6) [OF ok] h same [OF h]] log_same [OF same]
    by (auto simp: server_ok_def set_sv_def tame_def)
qed

section \<open>Waiting for a lock\<close>

lemma TryAcquire_keeps:
  "TryAcquire w i client l = Some (w', b, err) \<Longrightarrow>
   ogrows (snd w) (snd w') \<and> wheap (fst w') = wheap (fst w)"
  by (cases w) (auto simp: TryAcquire_def Let_def put_entry_def dest!: persistLocked_grows
      split: Option.bind_splits option.splits if_splits)

lemma cancel_scan_wheap: "cancel_scan client q m = Some (m', kept) \<Longrightarrow> length (wheap m') = length (wheap m)"
proof (induction q arbitrary: m m' kept)
  case (Cons a q)
  then show ?case
    by (auto simp: Let_def set_request_state_def set_waiter_def dest!: close_done_wheap
        split: if_splits option.splits Option.bind_splits)
qed simp

lemma Cancel_wheap: "Cancel m i client = Some m' \<Longrightarrow> length (wheap m') = length (wheap m)"
  by (auto simp: Cancel_def put_entry_def dest!: cancel_scan_wheap split: option.splits Option.bind_splits)

lemma enqueue_wheap: "enqueue m i client l = (m', r) \<Longrightarrow> length (wheap m') \<le> Suc (length (wheap m))"
  by (auto simp: enqueue_def Let_def put_entry_def split: option.splits)

lemma acquire_step_keeps:
  assumes "acquire_step i client l ((m, st), pc) ((m', st'), pc')"
    and ok: "lock_ok m" and room: "oready (Suc n) st" and wh: "length (wheap m) < 2 ^ 64 - 1"
  shows "lock_ok m' \<and> oready n st' \<and> ogrows st st' \<and> oextends st st'
    \<and> length (wheap m') \<le> Suc (length (wheap m))"
proof -
  have same: "oready n st" using room by (rule oready_less) simp
  have tr: "lock_ok (fst v) \<and> oready n (snd v) \<and> ogrows st (snd v) \<and> oextends st (snd v)
      \<and> length (wheap (fst v)) \<le> Suc (length (wheap m))"
    if "TryAcquire (m, st) i client l = Some (v, b, err)" for v b err
    using TryAcquire_refines [OF ok room, of i client l] TryAcquire_keeps [OF that] that
    by (auto simp: refines_def)
  have enq: "lock_ok m1 \<and> length (wheap m1) \<le> Suc (length (wheap m))" if "enqueue m i client l = (m1, res)" for m1 res
    using enqueue_refines [OF ok wh, of i client l st] enqueue_wheap [OF that] that by auto
  have can: "lock_ok m1 \<and> length (wheap m1) \<le> Suc (length (wheap m))" if "Cancel m i client = Some m1" for m1
    using Cancel_refines [OF ok, of i client st] Cancel_wheap [OF that] that by auto
  from assms(1) show ?thesis
    by cases (use tr enq can ok same in auto)
qed

text \<open>A call that has not returned can always go on.\<close>

lemma acquire_step_enabled:
  assumes ok: "lock_ok m" and room: "oready (Suc n) st" and wh: "length (wheap m) < 2 ^ 64 - 1"
    and "\<forall>res. pc \<noteq> Returned res"
  shows "\<exists>w' pc'. acquire_step i client l ((m, st), pc) (w', pc')"
proof (cases pc)
  case Attempt
  from TryAcquire_refines [OF ok room, of i client l] obtain w' b where
    "TryAcquire (m, st) i client l = Some (w', b, None)" by blast
  then have "acquire_step i client l ((m, st), Attempt) (w', if b then Returned None else Enqueue)"
    using attempt_granted [of "(m, st)" i client l w'] attempt_busy [of "(m, st)" i client l w']
    by (cases b) simp_all
  then show ?thesis unfolding Attempt by blast
next
  case Enqueue
  obtain m' r where e: "enqueue m i client l = (m', r)" by fastforce
  show ?thesis
  proof (cases r)
    case (Inl err)
    then show ?thesis using e unfolding Enqueue by (cases "err = errEntryGone") (blast intro: enqueue_gone enqueue_failed)+
  next
    case (Inr a)
    then show ?thesis using e unfolding Enqueue by (blast intro: enqueued)
  qed
next
  case (WaitFor a)
  from Cancel_refines [OF ok, of i client st] show ?thesis unfolding WaitFor by (blast intro: ctx_chosen)
next
  case (Returned res)
  with assms(4) show ?thesis by simp
qed

lemma set_lock_part_ok:
  assumes ok: "server_ok (Suc n) sv" and wh: "length (wheap (sv_locks (srv_sv sv))) < 2 ^ 64 - 1"
    and step: "acquire_step i client l (lock_part (srv_sv sv), pc) (w, pc')"
  shows "server_ok n (set_sv sv (set_lock_part w (srv_sv sv)))
    \<and> advance sv (set_sv sv (set_lock_part w (srv_sv sv)))"
proof -
  let ?v = "srv_sv sv" and ?n = "n + bound_total (sv_leases (srv_sv sv))"
  obtain m st where w: "w = (m, st)" by (cases w)
  have "oready (Suc ?n) (Some (sv_store ?v))" using server_ok_parts(6) [OF ok] by (simp add: oready_def)
  from acquire_step_keeps [OF step [unfolded lock_part_def w] server_ok_parts(2) [OF ok] this wh]
  obtain s' where s': "st = Some s'" "grows (sv_store ?v) s'" "store_ready ?n s'" "lock_ok m"
    "length (wheap m) \<le> Suc (length (wheap (sv_locks ?v)))" "log_extends (sv_store ?v) s'"
    by (auto simp: ogrows_def oextends_def option_rel_Some1 oready_def)
  have "server_ok n (set_sv sv (?v\<lparr>sv_store := s'\<rparr>))" by (rule server_ok_store [OF ok s'(2,3)])
  then have "server_ok n (set_sv sv (?v\<lparr>sv_locks := m, sv_store := s'\<rparr>))"
    using s'(4) by (auto simp: server_ok_def set_sv_def services_ok_def)
  then show ?thesis using s'(5,6) by (simp add: w s'(1) set_lock_part_def advance_def set_sv_def)
qed

section \<open>Every state within the bound\<close>

definition run_limit :: nat where "run_limit = 2 ^ 31"

text \<open>After \<open>k\<close> steps: at most 3 revisions and at most \<open>k + 1\<close> watch ids a step.\<close>

definition run_ok :: "nat \<Rightarrow> process \<Rightarrow> bool" where
  "run_ok k p \<longleftrightarrow> server_ok (3 * (run_limit - k) + 9) (fst p) \<and> watch_load (sv_mgr (srv_sv (fst p))) \<le> k
     \<and> unat (w_nextID (sv_watcher (srv_sv (fst p)))) \<le> k * k + k
     \<and> length (wheap (sv_locks (srv_sv (fst p)))) \<le> k"

lemma run_room:
  assumes "k < run_limit" and "run_ok k (sv, cs)"
  shows "server_ok (3 * (run_limit - Suc k) + 9 + 3) sv" "server_ok (Suc (3 * (run_limit - Suc k) + 9)) sv"
    "id_room (watch_load (sv_mgr (srv_sv sv))) (sv_watcher (srv_sv sv))"
    "id_room 1 (sv_watcher (srv_sv sv))"
    "length (wheap (sv_locks (srv_sv sv))) < 2 ^ 64 - 1"
proof -
  have ok: "server_ok (3 * (run_limit - k) + 9) sv" using assms(2) by (simp add: run_ok_def)
  have "3 * (run_limit - k) = 3 * (run_limit - Suc k) + 3" using assms(1) by simp
  with ok show "server_ok (3 * (run_limit - Suc k) + 9 + 3) sv" by (simp add: ac_simps)
  then show "server_ok (Suc (3 * (run_limit - Suc k) + 9)) sv" by (rule server_ok_less) simp
  have k: "k < 2 ^ 31" using assms(1) by (simp add: run_limit_def)
  then have "k * k \<le> 2 ^ 31 * 2 ^ 31" by (intro mult_le_mono) simp_all
  then have "k * k + k + k + 1 < 2 ^ 64" using k by simp
  then show "id_room (watch_load (sv_mgr (srv_sv sv))) (sv_watcher (srv_sv sv))"
    "id_room 1 (sv_watcher (srv_sv sv))" "length (wheap (sv_locks (srv_sv sv))) < 2 ^ 64 - 1"
    using assms(2) k by (simp_all add: run_ok_def id_room_def)
qed

definition history_kept :: "process \<Rightarrow> process \<Rightarrow> bool" where
  "history_kept p p' \<longleftrightarrow> log_extends (sv_store (srv_sv (fst p))) (sv_store (srv_sv (fst p')))"

lemma history_kept_refl [simp]: "history_kept p p"
  by (simp add: history_kept_def)

lemma history_kept_trans: "history_kept p p1 \<Longrightarrow> history_kept p1 p2 \<Longrightarrow> history_kept p p2"
  unfolding history_kept_def by (rule log_extends_trans)

lemma run_ok_advance:
  assumes "run_ok k (sv, cs)" and "server_ok (3 * (run_limit - Suc k) + 9) sv'" and "advance sv sv'"
  shows "run_ok (Suc k) (sv', cs') \<and> history_kept (sv, cs) (sv', cs')"
  using assms by (auto simp: run_ok_def advance_def history_kept_def)

lemma serve_runs:
  assumes "server_ok (n + 3) sv" and "id_room (watch_load (sv_mgr (srv_sv sv))) (sv_watcher (srv_sv sv))"
    and "\<And>rt. ServeMux (http_Path r) = Some (Inr rt) \<Longrightarrow> \<not> waits rt"
  shows "\<exists>sv' reply. serve rd sv r = Some (sv', reply) \<and> server_ok n sv' \<and> tame sv sv'"
  using serve_route_runs [OF assms(1) _ assms(2)] assms(3) server_ok_less [OF assms(1), of n]
  by (auto simp: serve_def split: option.split sum.split)

lemma serve_route_waits: "waits rt \<Longrightarrow> serve_route rd sv r rt = None"
  by (auto simp: waits_def)

lemma server_step_ok:
  assumes "server_step p p'" and "k < run_limit" and "run_ok k p"
  shows "run_ok (Suc k) p' \<and> history_kept p p'"
  using assms(1)
proof cases
  case (request rd sv r sv' reply cs)
  note room = run_room [OF assms(2) assms(3) [unfolded request(1)]]
  have "\<not> waits rt" if "ServeMux (http_Path r) = Some (Inr rt)" for rt
    using request(3) that serve_route_waits [of rt rd sv r] by (auto simp: serve_def)
  from serve_runs [OF room(1,3), of r rd, OF this] request(3) show ?thesis
    using run_ok_advance [OF assms(3) [unfolded request(1)]] by (auto simp: request(1,2) intro: tame_advance)
next
  case (bind_key sv req sv' err cs)
  from kv_put_bind_runs [OF run_room(2) [OF assms(2) assms(3) [unfolded bind_key(1)]], of req] bind_key(3)
  show ?thesis
    using run_ok_advance [OF assms(3) [unfolded bind_key(1)]]
    by (auto simp: bind_key(1,2) intro: tame_advance quiet_tame)
next
  case (write_key sv req sv' reply cs)
  from kv_put_write_runs [OF run_room(2) [OF assms(2) assms(3) [unfolded write_key(1)]], of req] write_key(3)
  show ?thesis
    using run_ok_advance [OF assms(3) [unfolded write_key(1)]]
    by (auto simp: write_key(1,2) intro: tame_advance quiet_tame)
next
  case (background now hb1 hb2 rnd sv sv' cs)
  note room = run_room [OF assms(2) assms(3) [unfolded background(1)]]
  have "server_ok (3 * (run_limit - Suc k) + 9) sv" by (rule server_ok_less [OF room(1)]) simp
  from round_runs [OF this, of now hb1 hb2 rnd] background(3) show ?thesis
    using run_ok_advance [OF assms(3) [unfolded background(1)]] by (auto simp: background(1,2) intro: tame_advance)
next
  case (watch_open now flushes peer sv r sv' out cs)
  note room = run_room [OF assms(2) assms(3) [unfolded watch_open(1)]]
  have "server_ok (3 * (run_limit - Suc k) + 9) sv" by (rule server_ok_less [OF room(1)]) simp
  from handleWatch_open_runs [OF this room(4), of now flushes peer r] watch_open(3) show ?thesis
    using run_ok_advance [OF assms(3) [unfolded watch_open(1)]] by (auto simp: watch_open(1,2))
next
  case (watch_end sv i peer sv' cs)
  note room = run_room [OF assms(2) assms(3) [unfolded watch_end(1)]]
  have "server_ok (3 * (run_limit - Suc k) + 9) sv" by (rule server_ok_less [OF room(1)]) simp
  from handleWatch_end_runs [OF this, of i peer] watch_end(3) show ?thesis
    using run_ok_advance [OF assms(3) [unfolded watch_end(1)]] by (auto simp: watch_end(1,2) intro: tame_advance)
next
  case (deliver a j t sv ts r cs)
  note room = run_room [OF assms(2) assms(3) [unfolded deliver(1)]]
  have "server_ok (3 * (run_limit - Suc k) + 9) sv" by (rule server_ok_less [OF room(1)]) simp
  from deliver_ok [OF this deliver(3)] show ?thesis
    using run_ok_advance [OF assms(3) [unfolded deliver(1)]] by (auto simp: deliver(1,2) intro: tame_advance)
next
  case (acquire body req limit sv cs)
  note room = run_room [OF assms(2) assms(3) [unfolded acquire(1)]]
  have "server_ok (3 * (run_limit - Suc k) + 9) sv" by (rule server_ok_less [OF room(1)]) simp
  from run_ok_advance [OF assms(3) [unfolded acquire(1)] this tame_advance [OF quiet_tame [OF quiet_refl]]]
  show ?thesis by (simp add: acquire(1,2))
next
  case (acquire_goes_on j cs c sv w pc)
  note room = run_room [OF assms(2) assms(3) [unfolded acquire_goes_on(1)]]
  from set_lock_part_ok [OF room(2,5) acquire_goes_on(5)] show ?thesis
    using run_ok_advance [OF assms(3) [unfolded acquire_goes_on(1)]] by (auto simp: acquire_goes_on(1,2))
qed

lemma server_steps_ok:
  "(server_step ^^ k) p p' \<Longrightarrow> j + k \<le> run_limit \<Longrightarrow> run_ok j p \<Longrightarrow> run_ok (j + k) p' \<and> history_kept p p'"
proof (induction k arbitrary: p')
  case (Suc k)
  then obtain q where q: "(server_step ^^ k) p q" "server_step q p'" by auto
  with Suc server_step_ok [OF q(2), of "j + k"] show ?case using history_kept_trans [of p q p'] by simp
qed simp

lemma Atoi_range: "Atoi s = Some x \<Longrightarrow> in_int64 x"
  by (auto simp: Atoi_def Let_def split: option.splits if_splits prod.splits)

lemma startup_ok:
  assumes "startup PD P env = Some sv"
  shows "run_ok 0 (sv, [])"
proof -
  let ?cfg = "loadConfig PD env"
  have "cfg_StoreLogCapacity ?cfg < 2 ^ 63"
    by (auto simp: loadConfig_def envInt_def dest: Atoi_range simp: in_int64_def split: option.split)
  then have tr: "tracks [] (New (cfg_StoreLogCapacity ?cfg))" by (rule tracks_New)
  have "unat (head (New (cfg_StoreLogCapacity ?cfg))) = 0"
    by (simp add: New_def Let_def)
  with tr have ready: "store_ready (3 * run_limit + 9) (New (cfg_StoreLogCapacity ?cfg))"
    by (auto simp: store_ready_def run_limit_def)
  have "services_ok (srv_sv sv)"
    using assms tr watcher_ok_New
    by (auto simp: startup_def Let_def NewServer_def NewSessionMgr_def sessions_ok_def lease_ok_def NewLeaseMgr_def
        intro!: services_okI [of "[]"] split: Option.bind_splits)
  then show ?thesis
    using assms ready lock_ok_New election_ok_Follow [OF election_ok_New]
    by (auto simp: startup_def Let_def NewServer_def run_ok_def server_ok_def bound_total_def NewLeaseMgr_def
        NewSessionMgr_def NewWatcher_def NewLockMgr_def watch_load_def split: Option.bind_splits)
qed

end
