(* ===== verification/ApiTheorems.thy ===== *)
theory ApiTheorems
  imports ServiceRuns
begin

text \<open>The properties of start-up, of the routes and of single requests.\<close>

section \<open>Start-up\<close>

lemma sdiv_2_pos: "0 < (d :: int) sdiv 2 \<longleftrightarrow> 2 \<le> d"
  by (cases "0 \<le> d") (auto simp: signed_divide_int_def sgn_if)


text \<open>The server that starts in an empty environment.\<close>

definition demo_server :: Server where
  "demo_server = the (startup (\<lambda>d. None) (\<lambda>d. None) (\<lambda>name. []))"

lemma demo_startup: "startup (\<lambda>d. None) (\<lambda>d. None) (\<lambda>name. []) = Some demo_server"
proof -
  have "0 < 5 * Second sdiv 2" "0 < 60 * Second sdiv 2" "0 < 2 * Second"
    by (simp_all add: sdiv_2_pos Second_def)
  then have "startup (\<lambda>d. None) (\<lambda>d. None) (\<lambda>name. []) \<noteq> None"
    by (simp add: startup_def Let_def NewTicker_def loadConfig_def envDur_def)
  then show ?thesis by (simp add: demo_server_def)
qed

lemma demo_ok: "server_ok (3 * run_limit + 9) demo_server"
  using startup_ok [OF demo_startup] by (simp add: run_ok_def)

lemma demo_room: "n \<le> 1000 \<Longrightarrow> server_ok n demo_server"
  by (rule server_ok_less [OF demo_ok]) (simp add: run_limit_def)

lemma demo_parts:
  "sv_mgr (srv_sv demo_server) = NewSessionMgr (60 * Second)" "sv_leases (srv_sv demo_server) = NewLeaseMgr"
  "sv_locks (srv_sv demo_server) = NewLockMgr" "sv_store (srv_sv demo_server) = New 1024"
  "sv_watcher (srv_sv demo_server) = NewWatcher" "cfg_LeaseTTL (srv_cfg demo_server) = 30 * Second"
  "srv_clock demo_server = WallClock"
proof -
  have pos: "0 < 5 * Second sdiv 2" "0 < 60 * Second sdiv 2" "0 < 2 * Second"
    by (simp_all add: sdiv_2_pos Second_def)
  show "sv_mgr (srv_sv demo_server) = NewSessionMgr (60 * Second)" "sv_leases (srv_sv demo_server) = NewLeaseMgr"
    "sv_locks (srv_sv demo_server) = NewLockMgr" "sv_store (srv_sv demo_server) = New 1024"
    "sv_watcher (srv_sv demo_server) = NewWatcher" "cfg_LeaseTTL (srv_cfg demo_server) = 30 * Second"
    "srv_clock demo_server = WallClock"
    using pos by (simp_all add: demo_server_def startup_def Let_def NewTicker_def loadConfig_def envDur_def
        envInt_def NewServer_def buildClock_def)
qed

section \<open>Routes\<close>

lemma kv_path_routes:
  "map_of Routes (''/api/kv/'' @ k) =
     (if k = ''put'' then Some RKVPut else if k = ''snapshot'' then Some RKVSnapshot
      else if k = [] then Some RKVGet else None)"
  by (simp add: Routes_def)

lemma kv_path_no_redirect: "map_of Routes (''/api/kv/'' @ k @ ''/'') = None"
  by (cases k rule: rev_cases) (simp_all add: Routes_def append_eq_Cons_conv Cons_eq_append_conv)

lemma kv_path_subtree: "longest_subtree Routes (''/api/kv/'' @ k) = Some (''/api/kv/'', RKVGet)"
  by (simp add: Routes_def)


definition demo_request :: "string \<Rightarrow> Request" where
  "demo_request path = \<lparr>http_Path = path, http_Query = (\<lambda>name. []),
     http_kv = Inr \<lparr>kp_Key = ''put'', kp_Value = ''v'', kp_LeaseID = []\<rparr>, http_lease = Inl ''EOF'',
     http_ids = Inl ''EOF'', http_lock = Inl ''EOF'', http_session = Inl ''EOF'', http_election = Inl ''EOF''\<rparr>"

definition demo_readings :: readings where
  "demo_readings = \<lparr>rd_now = 0, rd_now2 = 0, rd_hb = 0, rd_sessions = (\<lambda>i. (0, 0))\<rparr>"


section \<open>Reading and writing a key\<close>

definition found_json :: "Key \<Rightarrow> version \<Rightarrow> Response" where
  "found_json k v = writeJSON StatusOK
     [(''key'', PStr k), (''value'', PStr (if ver_deleted v then [] else case ver_value v of None \<Rightarrow> [] | Some b \<Rightarrow> b)),
      (''rev'', PInt (uint (ver_rev v)))]"

text \<open>What a reader pinned at the newest revision finds.\<close>

lemma GetAt_newest:
  assumes "tracks h s" and "records s' = records s"
    and "r = \<lparr>rd_id = i, rd_rev = head s, rd_minRev = head s, rd_closed = False\<rparr>"
  shows "GetAt r s' k = (case last_opt (versions_of h k) of None \<Rightarrow> Inl ErrKeyMissing
     | Some v \<Rightarrow> if ver_rev v = head s then Inr (version_view v) else Inl ErrVersionReclaimed)"
proof (cases "map_of (records s) k")
  case None
  then have "last_opt (versions_of h k) = None"
    using recs_of_last [OF assms(1), of k] by (simp add: recs_of_def last_opt_def)
  then show ?thesis using None by (simp add: GetAt_def assms(2,3))
next
  case (Some vs)
  have ne: "vs \<noteq> []" and rc: "recs_of s k = vs"
    using assms(1) Some by (auto simp: tracks_def records_ok_def recs_of_def)
  have last: "last_opt (versions_of h k) = Some (last vs)"
    using recs_of_last [OF assms(1), of k] ne by (simp add: rc last_opt_def)
  have srt: "sorted (map ver_rev vs)" using recs_of_sorted [OF assms(1), of k] by (simp add: rc)
  have le: "ver_rev v \<le> head s" if "v \<in> set vs" for v
  proof (rule versions_of_bounded [OF assms(1)])
    show "v \<in> set (versions_of h k)"
      using recs_of_suffix [OF assms(1), of k] that set_mono_suffix by (auto simp: rc)
  qed
  then have "filter (\<lambda>v. ver_rev v \<le> head s) vs = vs" by (simp add: filter_id_conv)
  then have idx: "version_search vs (head s) = length vs" using version_search_eq [OF srt, of "head s"] by simp
  have "ver_rev (last vs) \<le> head s" using le ne by simp
  then show ?thesis
    using ne last by (auto simp: GetAt_def assms(2,3) Some idx Let_def version_view_def last_conv_nth)
qed

lemma handleKVGet_reply:
  assumes tr: "tracks h (sv_store (srv_sv sv))" and path: "http_Path r = ''/api/kv/'' @ k"
    and k: "k \<noteq> []" "CHR ''/'' \<notin> set k"
  shows "snd (handleKVGet sv r) = (case last_opt (versions_of h k) of
      None \<Rightarrow> errorJSON StatusNotFound ''store: key has no visible version''
    | Some v \<Rightarrow> if ver_rev v = CurrentRev (sv_store (srv_sv sv)) then found_json k v
                else errorJSON StatusNotFound ''store: version was reclaimed'')"
proof -
  let ?s = "sv_store (srv_sv sv)"
  have trim: "TrimPrefix (http_Path r) ''/api/kv/'' = k" unfolding path by (rule TrimPrefix_append)
  obtain s1 rd where b: "BeginRead ?s (CurrentRev ?s) = (s1, Inr rd)" "records s1 = records ?s"
    "rd = \<lparr>rd_id = nextReader ?s + 1, rd_rev = head ?s, rd_minRev = head ?s, rd_closed = False\<rparr>"
    by (simp add: BeginRead_def CurrentRev_def Let_def)
  have "snd (handleKVGet sv r) = (case GetAt rd s1 k of
      Inl err \<Rightarrow> errorJSON StatusNotFound (StoreError_text err)
    | Inr vv \<Rightarrow> writeJSON StatusOK [(''key'', PStr k),
        (''value'', PStr (case vv_Value vv of None \<Rightarrow> [] | Some b \<Rightarrow> b)), (''rev'', PInt (uint (vv_Rev vv)))])"
    using k by (simp add: handleKVGet_def trim Let_def b(1) case_prod_unfold)
  then show ?thesis
    unfolding GetAt_newest [OF tr b(2,3)]
    by (simp add: found_json_def version_view_def CurrentRev_def split: option.split)
qed

text \<open>A write over HTTP without a lease appends one event to the history of the store.\<close>

lemma Put_head: "Put s k (Some b) = Some (s', Inr rv) \<Longrightarrow> head s' = rv"
  by (auto simp: Put_def Let_def split: Option.bind_splits)

lemma handleKVPut_appends:
  assumes ok: "server_ok (Suc n) sv" and tr: "tracks h (sv_store (srv_sv sv))"
    and req: "kp_Key req \<noteq> []" "kp_LeaseID req = []"
  defines "rv \<equiv> CurrentRev (sv_store (srv_sv sv)) + 1"
  shows "\<exists>sv'. handleKVPut sv (Inr req) = Some (sv', writeJSON StatusOK [(''rev'', PInt (uint rv))])
    \<and> server_ok n sv' \<and> CurrentRev (sv_store (srv_sv sv')) = rv \<and> sv_locks (srv_sv sv') = sv_locks (srv_sv sv)
    \<and> tracks (h @ [NewPut (kp_Key req) (Some (kp_Value req)) rv]) (sv_store (srv_sv sv'))"
proof -
  let ?s = "sv_store (srv_sv sv)"
  obtain sv' where w: "kv_put_write sv req = Some (sv', writeJSON StatusOK [(''rev'', PInt (uint rv))])"
    "server_ok n sv'" using kv_put_write_runs [OF ok, of req] by (auto simp: rv_def)
  have "Suc (length h) < 2 ^ 63"
    using server_ok_parts(6) [OF ok] tr by (auto simp: store_ready_def tracks_def)
  from Put_refines [OF tr this, of "kp_Key req" "kp_Value req"] obtain s' where
    s': "Put ?s (kp_Key req) (Some (kp_Value req)) = Some (s', Inr (head ?s + 1))"
    "tracks (h @ [NewPut (kp_Key req) (Some (kp_Value req)) (head ?s + 1)]) s'"
    by auto
  have rev: "head s' = head ?s + 1" using Put_head [OF s'(1)] .
  have "sv' = set_sv sv ((srv_sv sv)\<lparr>sv_store := s'\<rparr>)" using w(1) by (simp add: kv_put_write_def s'(1))
  then show ?thesis
    using w s'(2) rev req by (simp add: handleKVPut_def kv_put_bind_def rv_def CurrentRev_def set_sv_def)
qed



text \<open>Nothing keeps a client from writing the keys under which the lock manager stores its locks. A
  write of \<^verbatim>\<open>locks/\<close> and the id of a held lock succeeds and leaves the lock manager as it is, and
  the state read from the store is from then on the client's.\<close>

theorem kv_put_overwrites_lock_state:
  assumes "server_ok 1 sv" and "persisted (sv_locks (srv_sv sv)) (Some (sv_store (srv_sv sv)))"
    and "map_of (locks (sv_locks (srv_sv sv))) i = Some e"
    and "kp_Key req = lockKey i" and "kp_LeaseID req = []" and "kp_Value req \<noteq> entry_payload e"
  shows "\<exists>sv' rv. handleKVPut sv (Inr req) = Some (sv', writeJSON StatusOK [(''rev'', PInt rv)])
    \<and> sv_locks (srv_sv sv') = sv_locks (srv_sv sv)
    \<and> stored (sv_store (srv_sv sv)) (lockKey i) = Some (entry_payload e)
    \<and> stored (sv_store (srv_sv sv')) (lockKey i) = Some (kp_Value req)
    \<and> \<not> persisted (sv_locks (srv_sv sv')) (Some (sv_store (srv_sv sv')))"
proof -
  have ok: "server_ok (Suc 0) sv" using assms(1) by simp
  obtain h where h: "tracks h (sv_store (srv_sv sv))"
    using store_ready_tracks [OF server_ok_parts(6) [OF ok]] by blast
  have key: "kp_Key req \<noteq> []" by (simp add: assms(4) lockKey_def)
  from handleKVPut_appends [OF ok h key assms(5)] obtain sv' rv where
    p: "handleKVPut sv (Inr req) = Some (sv', writeJSON StatusOK [(''rev'', PInt (uint rv))])"
      "sv_locks (srv_sv sv') = sv_locks (srv_sv sv)"
      "tracks (h @ [NewPut (kp_Key req) (Some (kp_Value req)) rv]) (sv_store (srv_sv sv'))"
    by auto
  have new: "stored (sv_store (srv_sv sv')) (lockKey i) = Some (kp_Value req)"
    by (simp add: stored_def Get_spec [OF p(3)] assms(4))
  have old: "stored (sv_store (srv_sv sv)) (lockKey i) = Some (entry_payload e)"
    using assms(2,3) by (auto simp: persisted_def oview_def)
  have "\<not> persisted (sv_locks (srv_sv sv')) (Some (sv_store (srv_sv sv')))"
    using assms(3,6) new by (auto simp: persisted_def oview_def p(2) intro!: exI [of _ i])
  with p(1,2) new old show ?thesis by blast
qed

text \<open>The server after a client has taken a free lock.\<close>

lemma demo_locked:
  "\<exists>sv e. server_ok 2 sv \<and> persisted (sv_locks (srv_sv sv)) (Some (sv_store (srv_sv sv)))
     \<and> map_of (locks (sv_locks (srv_sv sv))) ''l'' = Some e \<and> le_holder e = ''c''"
proof -
  let ?v = "srv_sv demo_server"
  have ok: "server_ok (Suc 2) demo_server" by (rule demo_room) simp
  have room: "oready (Suc 2) (Some (sv_store ?v))"
    using server_ok_parts(6) [OF ok] by (auto simp: oready_def demo_parts bound_total_def NewLeaseMgr_def)
  have free: "snd (spec_try ''l'' (''c'', []) (abs_locks NewLockMgr))"
    by (simp add: spec_try_def abs_locks_def) (simp add: NewLockMgr_def)
  obtain w where w: "TryAcquire (lock_part ?v) ''l'' ''c'' [] = Some (w, True, None)"
    "refines 2 (lock_part ?v) w (fst (spec_try ''l'' (''c'', []) (abs_locks NewLockMgr)))"
    using TryAcquire_refines [OF server_ok_parts(2) [OF ok] room, of "''l''" "''c''" "[]"] free
    by (auto simp: lock_part_def demo_parts)
  obtain m s where ms: "w = (m, Some s)" using w(2) by (cases w) (auto simp: refines_def lock_part_def)
  let ?sv = "set_sv demo_server (set_lock_part w ?v)"
  have "server_ok 2 ?sv"
    using set_lock_part_ok [OF ok _ attempt_granted [OF w(1)]] by (simp add: demo_parts NewLockMgr_def)
  moreover have "persisted (fst (lock_part ?v)) (snd (lock_part ?v))"
    by (simp add: persisted_def lock_part_def demo_parts oview_def stored_New) (simp add: NewLockMgr_def)
  then have "persisted m (Some s)" using w(2) by (simp add: refines_def ms)
  moreover have "table (abs_locks m) ''l'' = Some ((''c'', []), [])"
    using w(2) free by (simp add: refines_def ms spec_try_def split: if_splits)
  then obtain e where "map_of (locks m) ''l'' = Some e" "le_holder e = ''c''" by (auto simp: abs_entry_def)
  ultimately show ?thesis by (intro exI [of _ ?sv] exI [of _ e]) (simp add: ms set_sv_def set_lock_part_def)
qed

lemma entry_payload_long: "2 \<le> length (entry_payload e)"
  by (simp add: entry_payload_def lock_payload_def)

theorem kv_put_overwrites_lock_state_witness:
  "\<exists>sv sv' e rv. map_of (locks (sv_locks (srv_sv sv))) ''l'' = Some e
     \<and> handleKVPut sv (Inr \<lparr>kp_Key = ''locks/l'', kp_Value = ''x'', kp_LeaseID = []\<rparr>)
         = Some (sv', writeJSON StatusOK [(''rev'', PInt rv)])
     \<and> stored (sv_store (srv_sv sv)) ''locks/l'' = Some (entry_payload e)
     \<and> stored (sv_store (srv_sv sv')) ''locks/l'' = Some ''x''"
proof -
  obtain sv e where sv: "server_ok 2 sv" "persisted (sv_locks (srv_sv sv)) (Some (sv_store (srv_sv sv)))"
    "map_of (locks (sv_locks (srv_sv sv))) ''l'' = Some e" using demo_locked by blast
  have ok: "server_ok 1 sv" by (rule server_ok_less [OF sv(1)]) simp
  have ne: "kp_Value \<lparr>kp_Key = ''locks/l'', kp_Value = ''x'', kp_LeaseID = []\<rparr> \<noteq> entry_payload e"
    using entry_payload_long [of e] by (auto dest!: arg_cong [of _ _ length])
  have key: "''locks/l'' = lockKey ''l''" by (simp add: lockKey_def)
  show ?thesis
    using kv_put_overwrites_lock_state [OF ok sv(2,3) _ _ ne] sv(3) unfolding key by auto
qed

section \<open>Leases over HTTP\<close>

text \<open>The two halves of a write under a lease, binding the key and writing it, are not one step: when
  the lease is revoked in between, the key is written after its lease has ended and has no lease
  that would ever remove it.\<close>

theorem bound_key_outlives_lease:
  assumes "server_ok 2 sv" and "map_of (leases (sv_leases (srv_sv sv))) i = Some l"
    and "i \<noteq> []" and "kp_LeaseID req = i" and "lr_ID lreq = i"
  shows "\<exists>sv1 sv2 sv3 reply rv. kv_put_bind sv req = Some (sv1, None)
    \<and> kp_Key req \<in> set (KeysOf (sv_leases (srv_sv sv1)) i)
    \<and> handleLeaseRevoke t sv1 (Inr lreq) = Some (sv2, reply)
    \<and> reply = writeJSON StatusOK [(''id'', PStr i), (''revoked'', PBool True)]
    \<and> stored (sv_store (srv_sv sv2)) (kp_Key req) = None
    \<and> kv_put_write sv2 req = Some (sv3, writeJSON StatusOK [(''rev'', PInt rv)])
    \<and> stored (sv_store (srv_sv sv3)) (kp_Key req) = Some (kp_Value req)
    \<and> map_of (leases (sv_leases (srv_sv sv3))) i = None \<and> KeysOf (sv_leases (srv_sv sv3)) i = []"
proof -
  let ?m = "sv_leases (srv_sv sv)" and ?k = "kp_Key req"
  have ok: "server_ok (Suc 1) sv" using assms(1) by (simp add: numeral_2_eq_2)
  note lok = server_ok_parts(4) [OF ok]
  obtain sv1 err where b: "kv_put_bind sv req = Some (sv1, err)" "server_ok 1 sv1"
    using kv_put_bind_runs [OF ok, of req] by blast
  obtain ks where ks: "map_of (bindings ?m) i = Some ks" using lease_okD(3) [OF lok assms(2)] by blast
  let ?m1 = "?m\<lparr>bindings := mput i (mput ?k () ks) (bindings ?m)\<rparr>"
  have "BindKey ?m i ?k = Some (?m1, None)"
    using assms(2) lease_okD(2) [OF lok assms(2)] ks by (simp add: BindKey_def)
  then have sv1: "sv1 = set_sv sv ((srv_sv sv)\<lparr>sv_leases := ?m1\<rparr>)" "err = None"
    using b(1) assms(3,4) by (simp_all add: kv_put_bind_def)
  have "(?k, ()) \<in> set (mput ?k () ks)" by (rule map_of_SomeD) simp
  then have "?k \<in> fst ` set (mput ?k () ks)" by (rule rev_image_eqI) simp
  then have mem: "?k \<in> set (KeysOf (sv_leases (srv_sv sv1)) i)"
    by (simp add: sv1 set_sv_def KeysOf_def)
  let ?v1 = "srv_sv sv1"
  have l1: "map_of (leases (sv_leases ?v1)) i = Some l" using assms(2) by (simp add: sv1 set_sv_def)
  have lok1: "lease_ok (sv_leases ?v1)" by (rule server_ok_parts(4) [OF b(2)])
  let ?n = "1 + bound_total (end_lease (sv_leases ?v1) i)"
  have "backend_ready (?n + length (KeysOf (sv_leases ?v1) i)) (sv_locks ?v1, sv_store ?v1)"
    using server_ok_parts(6) [OF b(2)] bound_total_end [OF lok1, of i] by (simp add: backend_ready_def ac_simps)
  from handler.Revoke_runs [OF lok1 this l1, of t] obtain e' where
    r: "Revoke (Some expiryHandler) t (lease_part ?v1) i = Some ((end_lease (sv_leases ?v1) i, e'), None)"
      "keys_deleted (KeysOf (sv_leases ?v1) i) (sv_locks ?v1, sv_store ?v1) e'"
    by (auto simp: lease_part_def)
  let ?sv2 = "set_sv sv1 (set_lease_part (end_lease (sv_leases ?v1) i, e') ?v1)"
  have rev: "handleLeaseRevoke t sv1 (Inr lreq) =
      Some (?sv2, writeJSON StatusOK [(''id'', PStr i), (''revoked'', PBool True)])"
    using r(1) by (simp add: handleLeaseRevoke_def assms(5))
  have ok2: "server_ok (Suc 0) ?sv2" using handleLeaseRevoke_runs [OF b(2), of t "Inr lreq"] rev by simp
  obtain lk s where e': "e' = (lk, s)" by (cases e')
  have gone: "stored (sv_store (srv_sv ?sv2)) ?k = None"
    using r(2) mem by (simp add: e' set_sv_def set_lease_part_def keys_deleted_def)
  have ends: "sv_leases (srv_sv ?sv2) = end_lease (sv_leases ?v1) i"
    by (simp add: e' set_sv_def set_lease_part_def)
  from kv_put_write_runs [OF ok2, of req] obtain sv3 rv where
    w: "kv_put_write ?sv2 req = Some (sv3, writeJSON StatusOK [(''rev'', PInt rv)])" by blast
  then obtain s' res where s': "Put (sv_store (srv_sv ?sv2)) ?k (Some (kp_Value req)) = Some (s', res)"
    "sv3 = set_sv ?sv2 ((srv_sv ?sv2)\<lparr>sv_store := s'\<rparr>)"
    by (auto simp: kv_put_write_def split: Option.bind_splits)
  have "store_ready (Suc 0) (sv_store (srv_sv ?sv2))"
    by (rule store_ready_less [OF server_ok_parts(6) [OF ok2]]) simp
  then have "stored s' ?k = Some (kp_Value req)"
    using store_write_runs [of 0 "sv_store (srv_sv ?sv2)" "WPut ?k (kp_Value req)"] s'(1) by auto
  moreover have "sv_leases (srv_sv sv3) = end_lease (sv_leases ?v1) i"
    using ends by (simp add: s'(2) set_sv_def)
  ultimately show ?thesis
    using b(1) sv1(2) mem rev gone w
    by (intro exI [of _ sv1] exI [of _ ?sv2] exI [of _ sv3] exI [of _ rv] exI)
      (simp add: s'(2) set_sv_def end_lease_def KeysOf_def)
qed

text \<open>The server after a client has created a lease.\<close>

definition demo_lease :: "LeaseID \<Rightarrow> int \<Rightarrow> leaseRequest" where
  "demo_lease i ms = \<lparr>lr_ID = i, lr_TTLMS = ms, lr_Holder = ''h''\<rparr>"

definition demo_leased :: Server where
  "demo_leased = fst (handleLeaseCreate 0 demo_server (Inr (demo_lease ''i'' 1000)))"

lemma demo_leased_ok: "n \<le> 1000 \<Longrightarrow> server_ok n demo_leased"
  unfolding demo_leased_def using handleLeaseCreate_ok [OF demo_room] by blast

lemma demo_leased_parts:
  "leases (sv_leases (srv_sv demo_leased)) = [(''i'', \<lparr>l_ID = ''i'', l_TTL = 1000000000,
     l_ExpiresAt = 1000000000, l_RenewSeq = 0, l_Holder = ''h'', l_State = LeaseAlive\<rparr>)]"
  "sv_store (srv_sv demo_leased) = New 1024"
  by (simp_all add: demo_leased_def handleLeaseCreate_def demo_lease_def lease_ttl_def Create_def demo_parts
      NewLeaseMgr_def set_sv_def Millisecond_def go_int_id Let_def)

theorem bound_key_outlives_lease_witness:
  "\<exists>sv1 sv2 sv3 rv. kv_put_bind demo_leased \<lparr>kp_Key = ''a'', kp_Value = ''x'', kp_LeaseID = ''i''\<rparr> = Some (sv1, None)
    \<and> handleLeaseRevoke 0 sv1 (Inr (demo_lease ''i'' 0))
        = Some (sv2, writeJSON StatusOK [(''id'', PStr ''i''), (''revoked'', PBool True)])
    \<and> kv_put_write sv2 \<lparr>kp_Key = ''a'', kp_Value = ''x'', kp_LeaseID = ''i''\<rparr>
        = Some (sv3, writeJSON StatusOK [(''rev'', PInt rv)])
    \<and> stored (sv_store (srv_sv sv3)) ''a'' = Some ''x'' 
    \<and> map_of (leases (sv_leases (srv_sv sv3))) ''i'' = None"
proof -
  have ok: "server_ok 2 demo_leased" by (rule demo_leased_ok) simp
  obtain l where l: "map_of (leases (sv_leases (srv_sv demo_leased))) ''i'' = Some l"
    by (simp add: demo_leased_parts)
  have req: "''i'' \<noteq> []" "kp_LeaseID \<lparr>kp_Key = ''a'', kp_Value = ''x'', kp_LeaseID = ''i''\<rparr> = ''i''"
    "lr_ID (demo_lease ''i'' 0) = ''i''" by (simp_all add: demo_lease_def)
  from bound_key_outlives_lease [OF ok l req, of 0] show ?thesis by fastforce
qed

text \<open>C38: The time to live that a request asks for, in milliseconds, is exact up to 9223372036854 of them,
  some 292 years. From there on the product of the two 64-bit integers wraps around: up to twice
  that the lease has a negative time to live and is overdue when it is created.\<close>

theorem lease_ttl_exact:
  assumes "0 < lr_TTLMS req" and "lr_TTLMS req < 2 ^ 63"
  shows "(lease_ttl cfg req = lr_TTLMS req * Millisecond \<longleftrightarrow> lr_TTLMS req \<le> 9223372036854)
    \<and> - (2 ^ 63) \<le> lease_ttl cfg req \<and> lease_ttl cfg req < 2 ^ 63
    \<and> (9223372036854 < lr_TTLMS req \<and> lr_TTLMS req \<le> 18446744073709 \<longrightarrow>
         lease_ttl cfg req < 0 \<and> (\<forall>t m m'. map_of (leases m) (lr_ID req) = None \<and>
            Create t m (lr_ID req) (lease_ttl cfg req) (lr_Holder req) = (m', None) \<longrightarrow>
            (\<exists>l. map_of (leases m') (lr_ID req) = Some l \<and> overdue t l)))"
proof -
  let ?x = "lr_TTLMS req"
  have ttl: "lease_ttl cfg req = go_int (?x * 1000000)"
    using assms(1) by (simp add: lease_ttl_def Millisecond_def)
  have range: "- (2 ^ 63) \<le> go_int y \<and> go_int y < 2 ^ 63" for y
    using signed_take_bit_int_greater_eq_minus_exp [of 63 y] signed_take_bit_int_less_exp [of 63 y]
    by (simp add: go_int_def signed_of_int)
  have exact: "go_int (?x * 1000000) = ?x * 1000000" if "?x \<le> 9223372036854"
    by (rule go_int_id) (use that assms(1) in simp_all)
  have big: "go_int (?x * 1000000) \<noteq> ?x * 1000000" if "9223372036854 < ?x"
    using range [of "?x * 1000000"] that by auto
  have wrap: "go_int y = y - 2 ^ 64" if "2 ^ 63 \<le> y" "y < 2 ^ 64" for y
  proof -
    have "(y + 2 ^ 63) mod 2 ^ 64 = (y + 2 ^ 63 - 2 ^ 64) mod (2 ^ 64 :: int)"
      using that by (intro mod_pos_geq) simp_all
    also have "\<dots> = y + 2 ^ 63 - 2 ^ 64" using that by (intro mod_pos_pos_trivial) simp_all
    finally show ?thesis
      by (simp add: go_int_def signed_of_int signed_take_bit_eq_take_bit_shift take_bit_eq_mod)
  qed
  have neg: "lease_ttl cfg req < 0" if "9223372036854 < ?x" "?x \<le> 18446744073709"
    using wrap [of "?x * 1000000"] that by (simp add: ttl)
  show ?thesis
    using exact big range [of "?x * 1000000"] neg unfolding ttl
    by (auto simp: Millisecond_def Create_def overdue_def)
qed

theorem lease_ttl_exact_witness:
  "lease_ttl (srv_cfg demo_server) (demo_lease ''j'' 9223372036854) = 9223372036854000000
   \<and> lease_ttl (srv_cfg demo_server) (demo_lease ''j'' 9223372036855) < 0"
proof
  show "lease_ttl (srv_cfg demo_server) (demo_lease ''j'' 9223372036854) = 9223372036854000000"
    using lease_ttl_exact [of "demo_lease ''j'' 9223372036854" "srv_cfg demo_server"]
    by (simp add: demo_lease_def Millisecond_def)
  show "lease_ttl (srv_cfg demo_server) (demo_lease ''j'' 9223372036855) < 0"
    using lease_ttl_exact [of "demo_lease ''j'' 9223372036855" "srv_cfg demo_server"]
    by (simp add: demo_lease_def Millisecond_def)
qed

text \<open>C39: The reply to a batch renewal has one entry per lease asked for, and no entry says why a renewal
  failed: a lease that is renewed has null, and every other, unknown or overdue, has the empty
  object that the encoder makes of any error value.\<close>

theorem batch_renew_reply:
  assumes "server_ok n sv" and "distinct ids"
  shows "\<exists>sv' kvs. handleLeaseBatchRenew now sv (Inr ids) = Some (sv', writeJSON StatusOK [(''results'', PObj kvs)])
    \<and> server_ok n sv'
    \<and> (\<forall>i. map_of kvs i =
         (if i \<in> set ids
          then Some (if renew_error (sv_leases (srv_sv sv)) i now = None then PNull else PObj []) else None))"
proof -
  let ?v = "srv_sv sv"
  note lok = server_ok_parts(4) [OF assms(1)]
  have "backend_ready (0 + length (concat (map (\<lambda>i. lost_keys (sv_leases ?v) i now) ids))) (sv_locks ?v, sv_store ?v)"
    using server_ok_parts(6) [OF assms(1)] lost_keys_bound [OF lok assms(2), of now]
    by (auto simp: backend_ready_def elim: store_ready_less)
  from handler.BatchRenew_from_runs [OF assms(2) lok this, of "[]"] obtain w results where
    b: "BatchRenew_from (Some expiryHandler) (lease_part ?v) ids now [] = Some (w, results)"
    and res: "\<And>i. map_of results i = (if i \<in> set ids then Some (renew_error (sv_leases ?v) i now) else None)"
    by (auto simp: lease_part_def)
  let ?kvs = "map (\<lambda>(i, err). (i, error_payload err)) results"
  have "handleLeaseBatchRenew now sv (Inr ids) =
      Some (set_sv sv (set_lease_part w ?v), writeJSON StatusOK [(''results'', PObj ?kvs)])"
    by (simp add: handleLeaseBatchRenew_def BatchRenew_def b)
  moreover from this have "server_ok n (set_sv sv (set_lease_part w ?v))"
    using handleLeaseBatchRenew_runs [OF assms(1), of now "Inr ids"] by simp
  moreover have "map_of ?kvs i = map_option error_payload (map_of results i)" for i
    by (simp add: map_of_map)
  then have "map_of ?kvs i = (if i \<in> set ids
      then Some (if renew_error (sv_leases ?v) i now = None then PNull else PObj []) else None)" for i
    by (simp add: res error_payload_def split: option.split)
  ultimately show ?thesis by blast
qed

theorem batch_renew_reply_witness:
  "\<exists>sv' kvs. handleLeaseBatchRenew 5 demo_leased (Inr [''i'', ''none'']) = Some (sv', writeJSON StatusOK [(''results'', PObj kvs)])
     \<and> map_of kvs ''i'' = Some PNull \<and> map_of kvs ''none'' = Some (PObj [])"
proof -
  have "renew_error (sv_leases (srv_sv demo_leased)) ''i'' 5 = None"
    "renew_error (sv_leases (srv_sv demo_leased)) ''none'' 5 \<noteq> None"
    by (simp_all add: renew_error_def demo_leased_parts overdue_def)
  with batch_renew_reply [OF demo_leased_ok, of 0 "[''i'', ''none'']" 5] show ?thesis by fastforce
qed

section \<open>Locks over HTTP\<close>

inductive_cases from_attempt: "acquire_step i client l (w, Attempt) q"
inductive_cases from_enqueue: "acquire_step i client l (w, Enqueue) q"
inductive_cases from_wait: "acquire_step i client l (w, WaitFor a) q"
inductive_cases from_returned: "acquire_step i client l (w, Returned res) q"
inductive_cases handled: "handleLockAcquire (Inr req) w q"

lemma TryAcquire_held:
  assumes "lock_ok m" and "map_of (locks m) i = Some e"
  shows "TryAcquire (m, st) i client l = Some ((m, st), False, None)"
  using lock_okD(3) [OF assms] assms(2) by (simp add: TryAcquire_def entry_ok_def)

text \<open>An \<^verbatim>\<open>Acquire\<close> call on its own: where it goes from its first attempt.\<close>

lemma returned_stays: "(acquire_step i client l)\<^sup>*\<^sup>* (w, Returned res) q \<longleftrightarrow> q = (w, Returned res)"
  by (auto elim: converse_rtranclpE from_returned)

lemma lone_next:
  assumes "\<And>q'. acquire_step i client l (v, pc) q' \<longleftrightarrow> q' = q" and "\<forall>res. pc \<noteq> Returned res"
  shows "(acquire_step i client l)\<^sup>*\<^sup>* (v, pc) (w', Returned res) \<longleftrightarrow>
    (acquire_step i client l)\<^sup>*\<^sup>* q (w', Returned res)"
proof
  assume "(acquire_step i client l)\<^sup>*\<^sup>* (v, pc) (w', Returned res)"
  then show "(acquire_step i client l)\<^sup>*\<^sup>* q (w', Returned res)"
    using assms by (auto elim: converse_rtranclpE)
next
  assume "(acquire_step i client l)\<^sup>*\<^sup>* q (w', Returned res)"
  then show "(acquire_step i client l)\<^sup>*\<^sup>* (v, pc) (w', Returned res)"
    using converse_rtranclp_into_rtranclp [of "acquire_step i client l" "(v, pc)" q] assms(1) by blast
qed

lemma lone_held:
  assumes ok: "lock_ok m" and wh: "length (wheap m) < 2 ^ 64 - 1" and e: "map_of (locks m) i = Some e"
  shows "\<exists>m2 e'. map_of (locks m2) i = Some e' \<and> le_holder e' = le_holder e \<and> le_holderLease e' = le_holderLease e
    \<and> (\<forall>w' res. (acquire_step i client l)\<^sup>*\<^sup>* ((m, st), Attempt) (w', Returned res)
         \<longleftrightarrow> w' = (m2, st) \<and> res = Some ErrTimedOut)"
proof -
  let ?h = "(le_holder e, le_holderLease e)" and ?q = "map (ticket m) (le_queue e) @ [(length (wheap m), client, l)]"
  have spec: "spec_enqueue i (client, l) (abs_locks m) = ((abs_locks m)\<lparr>table := (table (abs_locks m))(i \<mapsto> (?h, ?q)),
      tickets := Suc (length (wheap m))\<rparr>, Some (length (wheap m)))"
    by (simp add: spec_enqueue_def e abs_entry_def)
  obtain m1 where enq: "enqueue m i client l = (m1, Inr (length (wheap m)))" "lock_ok m1"
    "abs_locks m1 = fst (spec_enqueue i (client, l) (abs_locks m))"
    using enqueue_refines [OF ok wh, of i client l st] spec by auto
  let ?a = "length (wheap m)"
  have open_chan: "\<not> w_doneClosed (wheap m1 ! ?a)"
  proof -
    have "answer (abs_locks m1) ?a = answer (abs_locks m) ?a" "tickets (abs_locks m1) = Suc ?a"
      unfolding enq(3) spec by simp_all
    moreover have "answer (abs_locks m) ?a = None" by (simp add: abs_locks_def)
    ultimately show ?thesis by (auto simp: abs_locks_def split: if_splits)
  qed
  obtain m2 where can: "Cancel m1 i client = Some m2" "abs_locks m2 = spec_cancel i client (abs_locks m1)"
    using Cancel_refines [OF enq(2), of i client st] by blast
  have "table (abs_locks m2) i \<noteq> None \<and> fst (the (table (abs_locks m2) i)) = (le_holder e, le_holderLease e)"
    unfolding can(2) enq(3) spec by (simp add: spec_cancel_def)
  then obtain e' where e': "map_of (locks m2) i = Some e'" "le_holder e' = le_holder e"
    "le_holderLease e' = le_holderLease e" by (auto simp: abs_entry_def)
  let ?S = "acquire_step i client l"
  have s1: "?S ((m, st), Attempt) q \<longleftrightarrow> q = ((m, st), Enqueue)" for q
    using attempt_busy [OF TryAcquire_held [OF ok e], of client l st] TryAcquire_held [OF ok e, of st client l]
    by (auto elim!: from_attempt)
  have s2: "?S ((m, st), Enqueue) q \<longleftrightarrow> q = ((m1, st), WaitFor ?a)" for q
    using enqueued [OF enq(1), of st] enq(1) by (auto elim!: from_enqueue)
  have s3: "?S ((m1, st), WaitFor ?a) q \<longleftrightarrow> q = ((m2, st), Returned (Some ErrTimedOut))" for q
    using can(1) open_chan by (auto elim!: from_wait intro: ctx_chosen)
  have "?S\<^sup>*\<^sup>* ((m, st), Attempt) (w', Returned res) \<longleftrightarrow> w' = (m2, st) \<and> res = Some ErrTimedOut" for w' res
    using lone_next [OF s1] lone_next [OF s2] lone_next [OF s3] returned_stays by auto
  with e' show ?thesis by blast
qed

lemma lone_free:
  assumes ok: "lock_ok m" and room: "oready 1 st" and free: "map_of (locks m) i = None"
  shows "\<exists>w2 e'. map_of (locks (fst w2)) i = Some e' \<and> le_holder e' = client \<and> le_holderLease e' = l
    \<and> (\<forall>w' res. (acquire_step i client l)\<^sup>*\<^sup>* ((m, st), Attempt) (w', Returned res) \<longleftrightarrow> w' = w2 \<and> res = None)"
proof -
  have "oready (Suc 0) st" using room by simp
  from TryAcquire_refines [OF ok this, of i client l] free obtain w2 where
    t: "TryAcquire (m, st) i client l = Some (w2, True, None)"
      "abs_locks (fst w2) = fst (spec_try i (client, l) (abs_locks m))"
    by (auto simp: spec_try_def refines_def)
  have "table (abs_locks (fst w2)) i = Some ((client, l), [])"
    unfolding t(2) using free by (simp add: spec_try_def)
  then obtain e' where e': "map_of (locks (fst w2)) i = Some e'" "le_holder e' = client" "le_holderLease e' = l"
    by (auto simp: abs_entry_def)
  let ?S = "acquire_step i client l"
  have s1: "?S ((m, st), Attempt) q \<longleftrightarrow> q = (w2, Returned None)" for q
    using attempt_granted [OF t(1)] t(1) by (auto elim!: from_attempt)
  have "?S\<^sup>*\<^sup>* ((m, st), Attempt) (w', Returned res) \<longleftrightarrow> w' = w2 \<and> res = None" for w' res
    using lone_next [OF s1] returned_stays by auto
  with e' show ?thesis by blast
qed

lemma handled_iff:
  "handleLockAcquire (Inr req) w (w', reply) \<longleftrightarrow>
     (\<exists>res. (acquire_step (kr_ID req) (kr_Client req) (kr_LeaseID req))\<^sup>*\<^sup>* (w, Attempt) (w', Returned res)
        \<and> reply = acquire_reply req res)"
  by (auto simp: lock_acquire_enter_def elim!: handled intro: acquire_run)



section \<open>Topics\<close>

text \<open>C40: For any number of shards that the store can report, and up to two to the power of 32, the topic of a
  key and its shard are the same number, the hash of the key modulo the number of shards, although
  one is computed from the digest in 64 bits and cut down to 32, and the other has a case of its
  own for a single shard.\<close>

theorem topic_is_shard:
  assumes "1 \<le> n" and "n \<le> 2 ^ 32"
  shows "Topic key n = Some (ShardOf key n) \<and> uint (ShardOf key n) = uint (Sum64 key) mod n
    \<and> uint (ShardOf key n) < n \<and> 1 \<le> int (ShardCount s) \<and> int (ShardCount s) \<le> 4"
proof -
  obtain t where t: "Topic key n = Some t" "uint t = uint (Sum64 key) mod n" using Topic_range [OF assms] by blast
  have s: "uint (ShardOf key n) = uint (Sum64 key) mod n" using ShardOf_range [OF assms] by (simp add: HashKey_def)
  then have "t = ShardOf key n" using t(2) by (simp add: word_uint_eq_iff)
  then show ?thesis using t(1) s assms(1) ShardCount_range [of s] by simp
qed

theorem topic_is_shard_witness: "\<exists>t. Topic ''abc'' 4 = Some t \<and> ShardOf ''abc'' 4 = t \<and> uint t < 4"
  using topic_is_shard [of 4 "''abc''"] by simp

section \<open>Replies\<close>

text \<open>
  A reply with status 200 is an object without a field \<^verbatim>\<open>error\<close>; any other is an object with this field
  only, and its status is one of four.
\<close>

fun json_reply :: "Response \<Rightarrow> bool" where
  "json_reply (Reply st (PObj kvs)) =
     (if st = StatusOK then ''error'' \<notin> set (map fst kvs)
      else st \<in> {StatusBadRequest, StatusNotFound, StatusConflict, StatusInternalServerError}
        \<and> (case kvs of [(k, PStr msg)] \<Rightarrow> k = ''error'' | _ \<Rightarrow> False))"
| "json_reply (Reply st body) = False"
| "json_reply ConsolePage = True"
| "json_reply NotFoundPage = True"
| "json_reply (MovedTo path) = True"

lemma json_error [simp]:
  "json_reply (errorJSON StatusBadRequest msg)" "json_reply (errorJSON StatusNotFound msg)"
  "json_reply (errorJSON StatusConflict msg)" "json_reply (errorJSON StatusInternalServerError msg)"
  by (simp_all add: errorJSON_def writeJSON_def status_defs)

lemma json_ok [simp]: "json_reply (writeJSON StatusOK kvs) \<longleftrightarrow> ''error'' \<notin> fst ` set kvs"
  by (simp add: writeJSON_def)

lemma json_election_fields [simp]: "''error'' \<notin> fst ` set (election_fields e)"
  by (simp add: election_fields_def case_prod_unfold Let_def)

lemmas reply_splits = Option.bind_splits sum.splits option.splits prod.splits if_splits

lemma json_keys:
  "handleKVPut sv b = Some (sv', reply) \<Longrightarrow> json_reply reply"
  "json_reply (handleKVSnapshot sv r)" "handleKVGet sv r = (sv', reply) \<Longrightarrow> json_reply reply"
  "handleStatus sv = Some reply \<Longrightarrow> json_reply reply" "json_reply handleHealth"
  by (auto simp: handleKVPut_def kv_put_write_def handleKVSnapshot_def handleKVGet_def handleStatus_def
      handleHealth_def Let_def split: reply_splits)

lemma json_leases:
  "handleLeaseCreate now sv l = (sv', reply) \<Longrightarrow> json_reply reply" "handleLeaseRenew now sv l = Some (sv', reply) \<Longrightarrow> json_reply reply"
  "handleLeaseBatchRenew now sv ids = Some (sv', reply) \<Longrightarrow> json_reply reply"
  "handleLeaseRevoke now sv l = Some (sv', reply) \<Longrightarrow> json_reply reply" "json_reply (handleLeaseGet sv r)"
  by (auto simp: handleLeaseCreate_def handleLeaseRenew_def handleLeaseBatchRenew_def handleLeaseRevoke_def
      handleLeaseGet_def Let_def split: reply_splits)

lemma json_others:
  "handleLockRelease sv k = Some (sv', reply) \<Longrightarrow> json_reply reply" "json_reply (handleLockSnapshot sv)"
  "handleSessionConnect now sv s = (sv', reply) \<Longrightarrow> json_reply reply"
  "handleSessionReconnect now now2 sv s = Some (sv', reply) \<Longrightarrow> json_reply reply"
  "json_reply (handleSessionStatus sv r)" "handleSessionResumeAll rds sv = Some (sv', reply) \<Longrightarrow> json_reply reply"
  "handleElectionCampaign now hb sv e = (sv', reply) \<Longrightarrow> json_reply reply"
  "handleElectionHandoff now hb sv e = Some (sv', reply) \<Longrightarrow> json_reply reply"
  "handleElectionResign now sv = Some (sv', reply) \<Longrightarrow> json_reply reply" "json_reply (handleElectionStatus hb sv)"
  by (auto simp: handleLockRelease_def handleLockSnapshot_def handleSessionConnect_def handleSessionReconnect_def
      handleSessionStatus_def handleSessionResumeAll_def handleElectionCampaign_def handleElectionHandoff_def
      handleElectionResign_def handleElectionStatus_def Let_def split: reply_splits)



end
