(* ===== verification/ServiceTheorems.thy ===== *)
theory ServiceTheorems
  imports ApiTheorems
begin

text \<open>The properties of the running process: requests, waiting calls, deliveries and rounds interleaved.\<close>

text \<open>A run of two steps: a key is written, and a request for a lock arrives.\<close>

definition demo_call :: waiting_call where
  "demo_call = \<lparr>wc_req = \<lparr>kr_ID = ''l'', kr_Client = ''c'', kr_LeaseID = [], kr_TimeoutMS = 10\<rparr>, wc_pc = Attempt\<rparr>"

lemma put_route: "ServeMux ''/api/kv/put'' = Some (Inr RKVPut)"
  by (simp add: ServeMux_def Routes_def)

lemma demo_run:
  "\<exists>sv. (server_step ^^ 2) (demo_server, []) (sv, [demo_call])"
proof -
  have ok: "server_ok (0 + 2) demo_server" by (rule demo_room) simp
  obtain sv reply where "serve demo_readings demo_server (demo_request ''/api/kv/put'') = Some (sv, reply)"
    using handleKVPut_runs [OF ok, of "http_kv (demo_request ''/api/kv/put'')"]
    by (auto simp: serve_def put_route demo_request_def)
  then have "server_step (demo_server, []) (sv, [])" by (rule request)
  moreover have "server_step (sv, []) (sv, [] @ [demo_call])"
    unfolding demo_call_def by (rule acquire [of "Inr (wc_req demo_call)" _ "10 * Millisecond"])
      (simp add: lock_acquire_enter_def acquire_timeout_def demo_call_def Millisecond_def go_int_id)
  ultimately show ?thesis by (auto simp: numeral_2_eq_2)
qed





text \<open>C5: The process is an append-only log. Whatever happens in between, requests, lock calls, deliveries,
  expiring leases or reclaiming, the history that the store represents in a later state starts
  with the history that it represented before, and the current revision is its length: a revision
  that was handed out is never given to another event, and no event is changed or removed.\<close>

theorem service_history_append_only:
  assumes "startup PD P env = Some sv0" and "(server_step ^^ j) (sv0, []) (sv1, cs1)"
    and "(server_step ^^ k) (sv1, cs1) (sv2, cs2)" and "j + k \<le> 2 ^ 31"
  shows "\<exists>h1 h2. tracks h1 (sv_store (srv_sv sv1)) \<and> tracks h2 (sv_store (srv_sv sv2)) \<and> prefix h1 h2
    \<and> unat (CurrentRev (sv_store (srv_sv sv1))) = length h1
    \<and> unat (CurrentRev (sv_store (srv_sv sv2))) = length h2"
proof -
  have run: "run_ok j (sv1, cs1)"
    using server_steps_ok [OF assms(2) _ startup_ok [OF assms(1)]] assms(4) by (simp add: run_limit_def)
  then obtain h1 where h1: "tracks h1 (sv_store (srv_sv sv1))"
    by (auto simp: run_ok_def server_ok_def store_ready_def)
  moreover have "history_kept (sv1, cs1) (sv2, cs2)"
    using server_steps_ok [OF assms(3) _ run] assms(4) by (simp add: run_limit_def)
  ultimately obtain h2 where "tracks h2 (sv_store (srv_sv sv2))" "prefix h1 h2"
    by (auto simp: history_kept_def log_extends_def)
  with h1 show ?thesis by (auto simp: CurrentRev_def tracks_def)
qed

theorem service_history_append_only_witness:
  "\<exists>sv h. (server_step ^^ 2) (demo_server, []) (sv, [demo_call]) \<and> tracks h (sv_store (srv_sv sv))
     \<and> unat (CurrentRev (sv_store (srv_sv sv))) = length h"
proof -
  obtain sv where run: "(server_step ^^ 2) (demo_server, []) (sv, [demo_call])" using demo_run by blast
  have "(server_step ^^ 0) (demo_server, []) (demo_server, [])" by simp
  from service_history_append_only [OF demo_startup this run] run show ?thesis by auto
qed

end
