(* ===== verification/Spec2Isabelle.thy ===== *)
theory Spec2Isabelle
  imports StoreTheorems LockTheorems LeaseTheorems ElectionTheorems WatchEnds SessionTheorems ServiceTheorems
begin

text \<open>
  A model of the coordination service in \<^verbatim>\<open>src/\<close>, a single-process Go server with a versioned
  key-value store, leases, fair locks, leader election, watches and client sessions behind an
  HTTP interface, and the properties that make it correct.

  \<^bold>\<open>The program.\<close> The store (\<^verbatim>\<open>internal/store\<close>) keeps all versions of every key, a ring buffer of the
  latest events, open readers and subscriber streams. The lease manager (\<^verbatim>\<open>internal/lease\<close>) keeps
  deadlines and the keys bound to each lease, and calls back when a lease ends. The lock manager
  (\<^verbatim>\<open>internal/lock\<close>) keeps a queue of waiters per lock, writes the state of every lock to the store
  and asks the lease manager whether a lease is alive. The election (\<^verbatim>\<open>internal/election\<close>) is a
  client of the lease manager. The watcher (\<^verbatim>\<open>internal/watch\<close>) turns a stream of the store into a
  subscription with a cursor, a delivery goroutine and retries. The session manager
  (\<^verbatim>\<open>internal/session\<close>) keeps the leases and watches of each client and restores them on a
  reconnect. \<^verbatim>\<open>cmd/coordination\<close> wires them together: the callback of the lease manager releases
  locks and deletes bound keys, four loops run in the background, and the HTTP handlers call the
  components.

  \<^bold>\<open>Common ground.\<close> \<open>Prelude\<close> has Go's machine integers (\<^typ>\<open>nat\<close> for lengths, \<open>go_int\<close> for a signed
  64-bit result, words for unsigned types), maps as association lists with unique keys (\<open>gomap\<close>;
  the order of the list stands for the order in which a map is traversed), slices with a checked
  index, the parsers of \<^verbatim>\<open>strconv\<close>, and the locale \<open>invariant_system\<close> that lifts an invariant from
  steps to runs. A panic is \<open>None\<close>; an error of the code is the left side of a sum or a \<open>Some\<close> of
  an error type. Time is an integer number of nanoseconds. \<open>Model\<close> is \<^verbatim>\<open>internal/model\<close>.

  \<^bold>\<open>Store.\<close> \<open>Store\<close>: \<^verbatim>\<open>store.go\<close>, \<^verbatim>\<open>mvcc.go\<close>, \<^verbatim>\<open>reclaim.go\<close>, \<^verbatim>\<open>snapshot.go\<close>; streams and readers are
  kept in a heap, by number. \<open>StoreSpec\<close> states the relation \<open>tracks h s\<close>: the store represents the
  history \<open>h\<close> of all events. \<open>StoreProps\<close> relates each operation to it, \<open>StoreRuns\<close> makes them a state
  machine, \<open>KeyValue\<close> states what clients rely on (locale \<open>kv_store\<close>: writes act on keys as on a map,
  and the history is only extended, \<open>log_extends\<close>), \<open>StoreTheorems\<close> has the properties: writes refine the history, reads and snapshots are those of the history at a
  revision, streams deliver it without gaps, reclaiming is safe for open readers.

  \<^bold>\<open>Locks.\<close> \<open>Locks\<close>: \<^verbatim>\<open>lock.go\<close>, \<^verbatim>\<open>queue.go\<close>, \<^verbatim>\<open>release.go\<close>, \<^verbatim>\<open>wakeup.go\<close>; \<^verbatim>\<open>Acquire\<close> is a step relation between its
  critical sections. \<open>LockSpec\<close> is the abstract service, a table of holders and first-in first-out
  queues; \<open>LockProps\<close> proves that every operation implements it and keeps the persisted states in
  step; \<open>LockRuns\<close> interleaves any number of calls.

  \<^bold>\<open>Leases.\<close> \<open>Leases\<close>: \<^verbatim>\<open>internal/lease\<close>, with the callback as a parameter and its contract as the
  locale \<open>expiry_callback\<close> of \<open>LeaseProps\<close>; \<open>LeaseFrame\<close> derives the locale \<open>lease_service\<close> from it.
  \<open>Expiry\<close> is \<^verbatim>\<open>cmd/coordination/expiry.go\<close> and the reclaim loop of \<^verbatim>\<open>main.go\<close>, and interprets the
  contract on the real callback.

  \<^bold>\<open>Election.\<close> \<open>Elections\<close>: \<^verbatim>\<open>internal/election\<close>, over any lease service (locale \<open>lease_service\<close>), each
  operation split where it gives up its mutex; \<open>ElectionRuns\<close> interprets the locale on the lease
  manager with its callback.

  \<^bold>\<open>Watches.\<close> \<open>Watches\<close>: \<^verbatim>\<open>internal/watch/watch.go\<close>; the delivery loop and the retries are threads of a
  step relation, which lets the context be done at any time. \<open>WatchProps\<close> compares what is sent with
  the reference function \<open>due\<close>; \<open>WatcherProps\<close> has the invariant of the watcher; \<open>WatchEnds\<close> bounds
  the steps after a cancellation by a measure.

  \<^bold>\<open>Sessions.\<close> \<open>Sessions\<close>: \<^verbatim>\<open>internal/session\<close>, with the record \<open>services\<close> of everything a session
  operation can change; \<open>SessionProps\<close> and \<open>SessionRuns\<close> have the joint invariant of sessions,
  watcher, store and leases and its runs.

  \<^bold>\<open>Service.\<close> \<open>Hash\<close>: \<^verbatim>\<open>hash.go\<close>, \<^verbatim>\<open>cursor.go\<close> and the portable digest of the vendored xxhash.
  \<open>Settings\<close>: \<^verbatim>\<open>config.go\<close> and the clocks of \<^verbatim>\<open>main.go\<close>. \<open>HttpServer\<close>: \<^verbatim>\<open>server.go\<close>, the wiring of
  \<^verbatim>\<open>main.go\<close>, requests, replies and the route table. \<open>Api\<close>: the handlers of \<^verbatim>\<open>api.go\<close>. \<open>Service\<close>: one round
  of each background loop and the step relation of the process. \<open>ApiProps\<close> shows that every request
  is answered, keeps the invariants and only extends the history of the store, \<open>ServiceRuns\<close> the same
  for the steps of the process; \<open>ApiTheorems\<close> has the properties of single requests, \<open>ServiceTheorems\<close>
  those of the process: no panic, all invariants at once, an append-only history.

  \<^bold>\<open>Bounds.\<close> Revisions, stream numbers and watch numbers are 64-bit counters; theorems about writes
  ask for a head below two to the power of 63, and a run of the process is bounded by two to the
  power of 31 steps (\<open>run_limit\<close>), which keeps all of them in range. No definition uses fuel: loops
  are structural recursion or have a measure.

  \<^bold>\<open>Parameters.\<close> \<^verbatim>\<open>os.Getenv\<close>, \<^verbatim>\<open>time.ParseDuration\<close> and \<^verbatim>\<open>time.Parse\<close> are arguments of \<open>startup\<close>; no law of
  them is needed. A request body is given as what the JSON decoder makes of it, the struct or an
  error text; a reply is the status with the value handed to the encoder. The clocks' readings are
  arguments of the operations that read them. Whether a peer accepts an event is up to the step.

  \<^bold>\<open>Not modelled.\<close> The HTTP transport and the JSON texts, the console page (\<^verbatim>\<open>web.go\<close>), signal
  handling and shutdown, the streaming digest and the assembly of xxhash (the program calls
  neither), the cleaning of paths by \<^verbatim>\<open>http.ServeMux\<close>, exhaustion of memory (a huge or negative log
  capacity is replaced or allocated as \<^verbatim>\<open>New\<close> says), and data races: the mutexes make critical
  sections atomic, and an operation is split where it gives its mutex up and another operation
  could matter. In \<open>Service\<close>, a request that does not wait is one step, except that the two halves of
  \<^verbatim>\<open>handleKVPut\<close> are steps too; lock requests, watches and deliveries proceed in steps of their own.
  What the finer interleavings of \<^verbatim>\<open>Campaign\<close>, of \<^verbatim>\<open>Reconnect\<close> and of a late callback of the lease
  manager can do is shown by theorems of the components (\<open>concurrent_campaigns_lose_leadership\<close>,
  \<open>register_during_reconnect_forgotten\<close>, \<open>late_callback_makes_binding_panic\<close>), not by runs of the process.
\<close>

end
